(* ===== verification/Chain_Prelude.thy ===== *)
theory Chain_Prelude
  imports Main "HOL-Library.Word"
begin

text \<open>
  Shared vocabulary of the development: the exceptions the chain library raises, the result type
  of code that may raise, the checked-assertion and sequencing combinators every component is
  written with, the fixed-width integer types, and generic facts on lists, options and words.
\<close>

section \<open>Fixed-width integers\<close>

type_synonym u8 = "8 word"
type_synonym u16 = "16 word"
type_synonym u32 = "32 word"
type_synonym u64 = "64 word"
type_synonym u128 = "128 word"

section \<open>Exceptions and results\<close>

text \<open>
  The constructors are the exception classes of \<^verbatim>\<open>exceptions.hpp\<close> that modelled code raises, the
  standard library exceptions raised by the database layer, and two values for executions the
  language gives no meaning to or stops: \<open>undefined_behaviour\<close> (a read past the end of a container,
  a dereferenced end iterator) and \<open>process_abort\<close> (a call of \<^verbatim>\<open>std::abort\<close>).
\<close>

datatype exn =
    name_type_exception
  | symbol_type_exception
  | asset_type_exception
  | authority_type_exception
  | unactivated_key_type
  | parse_error_exception
  | overflow_exception
  | underflow_exception
  | assert_exception
  | fork_database_exception
  | fork_db_block_not_found
  | block_validate_exception
  | unlinkable_block_exception
  | block_resource_exhausted
  | wrong_signing_key
  | wrong_producer
  | no_block_signatures
  | invalid_block_header_extension
  | invalid_block_extension
  | ill_formed_additional_block_signatures_extension
  | producer_double_confirm
  | producer_schedule_exception
  | transaction_exception
  | tx_not_found
  | action_validate_exception
  | permission_query_exception
  | invalid_permission
  | unsatisfied_authorization
  | irrelevant_auth_exception
  | tx_irrelevant_sig
  | authorization_exception
  | unlinkable_min_permission_action
  | ram_usage_exceeded
  | tx_net_usage_exceeded
  | tx_cpu_usage_exceeded
  | rate_limiting_state_inconsistent
  | resource_limit_exception
  | missing_auth_exception
  | action_type_exception
  | account_query_exception
  | account_name_exists_exception
  | key_denylist_exception
  | invalid_contract_vm_type
  | invalid_contract_vm_version
  | set_exact_code
  | table_not_in_cache
  | invalid_table_iterator
  | table_operation_not_permitted
  | table_access_violation
  | invalid_table_payer
  | std_logic_error
  | std_out_of_range
  | std_runtime_error
  | undefined_behaviour
  | process_abort

type_synonym 'a result = "exn + 'a"

named_theorems result_simps \<open>inversion and evaluation rules of the result combinators\<close>

text \<open>The macro \<^verbatim>\<open>EOS_ASSERT( expr, exc_type, ... )\<close>: raise unless the condition holds, then go on.\<close>

definition EOS_ASSERT :: "bool \<Rightarrow> exn \<Rightarrow> 'a result \<Rightarrow> 'a result" where
  "EOS_ASSERT c e k = (if c then k else Inl e)"

text \<open>Sequencing: an exception leaves the rest of the block unexecuted.\<close>

definition bindR :: "'a result \<Rightarrow> ('a \<Rightarrow> 'b result) \<Rightarrow> 'b result" where
  "bindR m f = (case m of Inl e \<Rightarrow> Inl e | Inr x \<Rightarrow> f x)"

text \<open>A dereference that has no meaning when the pointer or iterator designates nothing.\<close>

definition deref :: "'a option \<Rightarrow> 'a result" where
  "deref p = (case p of None \<Rightarrow> Inl undefined_behaviour | Some x \<Rightarrow> Inr x)"

lemma EOS_ASSERT_Inr [simp, result_simps]: "EOS_ASSERT c e k = Inr x \<longleftrightarrow> c \<and> k = Inr x"
  by (simp add: EOS_ASSERT_def)

lemma EOS_ASSERT_Inl [result_simps]:
  "EOS_ASSERT c e k = Inl e' \<longleftrightarrow> (c \<and> k = Inl e') \<or> (\<not> c \<and> e' = e)"
  by (auto simp: EOS_ASSERT_def)

lemma EOS_ASSERT_True [simp]: "EOS_ASSERT True e k = k"
  and EOS_ASSERT_False [simp]: "EOS_ASSERT False e k = Inl e"
  by (simp_all add: EOS_ASSERT_def)

lemma bindR_simps [simp]: "bindR (Inl e) f = Inl e" "bindR (Inr x) f = f x"
  by (simp_all add: bindR_def)

lemma bindR_Inr [simp, result_simps]: "bindR m f = Inr y \<longleftrightarrow> (\<exists>x. m = Inr x \<and> f x = Inr y)"
  by (cases m) simp_all

lemma bindR_Inl [result_simps]:
  "bindR m f = Inl e \<longleftrightarrow> m = Inl e \<or> (\<exists>x. m = Inr x \<and> f x = Inl e)"
  by (cases m) simp_all

lemma deref_Inr [simp, result_simps]: "deref p = Inr x \<longleftrightarrow> p = Some x"
  by (cases p) (simp_all add: deref_def)

lemma deref_Some [simp]: "deref (Some x) = Inr x"
  and deref_None [simp]: "deref None = Inl undefined_behaviour"
  by (simp_all add: deref_def)

lemma bindR_cong [fundef_cong]:
  "m = m' \<Longrightarrow> (\<And>x. m' = Inr x \<Longrightarrow> f x = g x) \<Longrightarrow> bindR m f = bindR m' g"
  by (cases m') simp_all

lemma EOS_ASSERT_cong [fundef_cong]:
  "c = c' \<Longrightarrow> (c' \<Longrightarrow> k = k') \<Longrightarrow> EOS_ASSERT c e k = EOS_ASSERT c' e k'"
  by (cases c') simp_all

text \<open>
  A computation with loops that may run forever has the type \<open>'a result option\<close>, where \<open>None\<close> is
  divergence; sequencing, checks and loops over a container in that type.
\<close>

definition bindO :: "'a result option \<Rightarrow> ('a \<Rightarrow> 'b result option) \<Rightarrow> 'b result option" where
  "bindO m f = (case m of None \<Rightarrow> None | Some (Inl e) \<Rightarrow> Some (Inl e) | Some (Inr x) \<Rightarrow> f x)"

definition assertO :: "bool \<Rightarrow> exn \<Rightarrow> 'a result option \<Rightarrow> 'a result option" where
  "assertO c e k = (if c then k else Some (Inl e))"

fun foldO :: "('a \<Rightarrow> 's \<Rightarrow> 's result option) \<Rightarrow> 'a list \<Rightarrow> 's \<Rightarrow> 's result option" where
  "foldO f [] s = Some (Inr s)"
| "foldO f (x # xs) s = bindO (f x s) (foldO f xs)"

lemma bindO_simps [simp]:
  "bindO None f = None" "bindO (Some (Inl e)) f = Some (Inl e)" "bindO (Some (Inr x)) f = f x"
  by (simp_all add: bindO_def)

lemma bindO_Inr [simp, result_simps]:
  "bindO m f = Some (Inr y) \<longleftrightarrow> (\<exists>x. m = Some (Inr x) \<and> f x = Some (Inr y))"
  by (auto simp: bindO_def split: option.split sum.split)

lemma bindO_defined: "m \<noteq> None \<Longrightarrow> (\<And>x. m = Some (Inr x) \<Longrightarrow> f x \<noteq> None) \<Longrightarrow> bindO m f \<noteq> None"
  by (auto simp: bindO_def split: option.split sum.split)

lemma assertO_Inr [simp, result_simps]: "assertO c e k = Some (Inr x) \<longleftrightarrow> c \<and> k = Some (Inr x)"
  by (simp add: assertO_def)

lemma assertO_defined: "k \<noteq> None \<Longrightarrow> assertO c e k \<noteq> None"
  by (simp add: assertO_def)

lemma foldO_invariant:
  assumes "foldO f xs s = Some (Inr s')" and "P s"
    and "\<And>x s s'. x \<in> set xs \<Longrightarrow> P s \<Longrightarrow> f x s = Some (Inr s') \<Longrightarrow> P s'"
  shows "P s'"
  using assms by (induction xs arbitrary: s) auto

lemma foldO_defined: "(\<And>x s. x \<in> set xs \<Longrightarrow> f x s \<noteq> None) \<Longrightarrow> foldO f xs s \<noteq> None"
  by (induction xs arbitrary: s) (simp_all add: bindO_defined)

text \<open>An execution that returns a value with a given property; this form can be evaluated.\<close>

definition returns :: "'a result \<Rightarrow> ('a \<Rightarrow> bool) \<Rightarrow> bool" where
  "returns m P = (case m of Inl e \<Rightarrow> False | Inr x \<Rightarrow> P x)"

lemma returns_iff: "returns m P \<longleftrightarrow> (\<exists>x. m = Inr x \<and> P x)"
  by (cases m) (simp_all add: returns_def)

text \<open>A loop whose body may raise, run over the elements of a container from left to right.\<close>

lemma bindR_pair_Inr:
  "bindR x (\<lambda>(a, b). f a b) = Inr y \<longleftrightarrow> (\<exists>a b. x = Inr (a, b) \<and> f a b = Inr y)"
  by (cases x) (auto simp: bindR_def split: prod.split)

fun foldR :: "('a \<Rightarrow> 's \<Rightarrow> 's result) \<Rightarrow> 'a list \<Rightarrow> 's \<Rightarrow> 's result" where
  "foldR f [] s = Inr s"
| "foldR f (x # xs) s = bindR (f x s) (foldR f xs)"

fun mapR :: "('a \<Rightarrow> 'b result) \<Rightarrow> 'a list \<Rightarrow> 'b list result" where
  "mapR f [] = Inr []"
| "mapR f (x # xs) = bindR (f x) (\<lambda>y. bindR (mapR f xs) (\<lambda>ys. Inr (y # ys)))"

lemma mapR_Inr: "mapR f xs = Inr ys \<longleftrightarrow> list_all2 (\<lambda>x y. f x = Inr y) xs ys"
  by (induction xs arbitrary: ys) (auto simp: bindR_Inr list_all2_Cons1)

lemma foldR_append: "foldR f (xs @ ys) s = bindR (foldR f xs s) (foldR f ys)"
  by (induction xs arbitrary: s) (auto simp: bindR_def split: sum.splits)

text \<open>A property of the loop state that every successful iteration keeps holds at the end.\<close>

lemma foldR_invariant:
  assumes "foldR f xs s = Inr s'" and "P s"
    and "\<And>x s s'. x \<in> set xs \<Longrightarrow> P s \<Longrightarrow> f x s = Inr s' \<Longrightarrow> P s'"
  shows "P s'"
  using assms by (induction xs arbitrary: s) auto

section \<open>Lists\<close>

lemma find_SomeD: "find P xs = Some x \<Longrightarrow> x \<in> set xs \<and> P x"
  by (auto simp: find_Some_iff)

lemma foldl_list_update_length [simp]:
  "length (foldl (\<lambda>xs i. xs[i := f xs i]) xs is) = length xs"
  by (induction "is" arbitrary: xs) simp_all

lemma list_all2_pointwise:
  "list_all2 P xs ys \<Longrightarrow> \<forall>x \<in> set xs. Q x \<Longrightarrow> (\<And>x y. P x y \<Longrightarrow> Q x \<Longrightarrow> R y) \<Longrightarrow> \<forall>y \<in> set ys. R y"
  by (induction rule: list_all2_induct) auto

lemma sum_list_filter_le_nat:
  "sum_list (map f (filter P xs)) \<le> sum_list (map (f :: 'a \<Rightarrow> nat) xs)"
  by (induction xs) simp_all

lemma sum_list_bounded_nat:
  "(\<And>x. x \<in> set xs \<Longrightarrow> f x \<le> (c :: nat)) \<Longrightarrow> sum_list (map f xs) \<le> length xs * c"
  by (induction xs) force+

section \<open>Words\<close>

lemma unat_plus_no_wrap:
  "unat (a :: 'a :: len word) + unat b < 2 ^ LENGTH('a) \<Longrightarrow> unat (a + b) = unat a + unat b"
  by (simp add: unat_word_ariths)

lemma unat_max_word: "unat (- 1 :: 'a :: len word) = 2 ^ LENGTH('a) - 1"
  by (simp add: unsigned_minus_1_eq_mask mask_eq_exp_minus_1)

text \<open>The guard \<^verbatim>\<open>max - a >= b\<close> is what keeps an unsigned addition from wrapping.\<close>

lemma room_left_iff:
  fixes a b :: "'a :: len word"
  shows "b \<le> - 1 - a \<longleftrightarrow> unat a + unat b < 2 ^ LENGTH('a)"
proof -
  have lt: "unat a < 2 ^ LENGTH('a)" "unat b < 2 ^ LENGTH('a)"
    by (rule unsigned_less)+
  have "unat (- 1 - a) = (2 ^ LENGTH('a) - 1) - unat a"
    by (subst unat_sub) (simp_all add: unat_max_word)
  then show ?thesis
    using lt unfolding word_le_nat_alt by linarith
qed

end
