(* ===== verification/Ordered_Map.thy ===== *)
theory Ordered_Map
  imports Chain_Prelude
begin

text \<open>
  The ordered containers the code is written with (\<^verbatim>\<open>std::map\<close>, \<^verbatim>\<open>flat_map\<close>, \<^verbatim>\<open>flat_set\<close>, the primary
  index of a \<^verbatim>\<open>multi_index_container\<close>): association lists in strictly ascending key order, so that
  iterating the list is iterating the container. The interface \<open>ordered_map\<close> states what the
  components rely on, and its interpretation at the end of the theory discharges it.
\<close>

section \<open>Operations\<close>

definition fm_find :: "'k \<Rightarrow> ('k \<times> 'v) list \<Rightarrow> 'v option" where
  "fm_find k m = map_of m k"

text \<open>\<^verbatim>\<open>m[k] = v\<close>: overwrite or insert at the place the order gives.\<close>

fun fm_set :: "'k :: linorder \<Rightarrow> 'v \<Rightarrow> ('k \<times> 'v) list \<Rightarrow> ('k \<times> 'v) list" where
  "fm_set k v [] = [(k, v)]"
| "fm_set k v ((k', v') # m) =
     (if k < k' then (k, v) # (k', v') # m
      else if k = k' then (k, v) # m
      else (k', v') # fm_set k v m)"

text \<open>\<^verbatim>\<open>m.emplace( k, v )\<close>: a key that is present keeps its value.\<close>

definition fm_emplace :: "'k :: linorder \<Rightarrow> 'v \<Rightarrow> ('k \<times> 'v) list \<Rightarrow> ('k \<times> 'v) list" where
  "fm_emplace k v m = (if fm_find k m = None then fm_set k v m else m)"

definition fm_erase :: "'k \<Rightarrow> ('k \<times> 'v) list \<Rightarrow> ('k \<times> 'v) list" where
  "fm_erase k m = filter (\<lambda>p. fst p \<noteq> k) m"

definition fm_ok :: "('k :: linorder \<times> 'v) list \<Rightarrow> bool" where
  "fm_ok m = sorted_wrt (<) (map fst m)"

text \<open>Ordered sets of keys (\<^verbatim>\<open>flat_set\<close>, \<^verbatim>\<open>std::set\<close>).\<close>

fun fs_insert :: "'k :: linorder \<Rightarrow> 'k list \<Rightarrow> 'k list" where
  "fs_insert k [] = [k]"
| "fs_insert k (x # xs) =
     (if k < x then k # x # xs else if k = x then x # xs else x # fs_insert k xs)"

definition fs_ok :: "'k :: linorder list \<Rightarrow> bool" where
  "fs_ok xs = sorted_wrt (<) xs"

section \<open>The interface\<close>

locale ordered_map =
  fixes emp :: "'m"
    and find :: "'k \<Rightarrow> 'm \<Rightarrow> 'v option"
    and put :: "'k \<Rightarrow> 'v \<Rightarrow> 'm \<Rightarrow> 'm"
    and erase :: "'k \<Rightarrow> 'm \<Rightarrow> 'm"
    and ok :: "'m \<Rightarrow> bool"
  assumes find_emp: "find k emp = None"
    and find_put: "find k (put k' v m) = (if k = k' then Some v else find k m)"
    and find_erase: "find k (erase k' m) = (if k = k' then None else find k m)"
    and ok_emp: "ok emp"
    and ok_put: "ok m \<Longrightarrow> ok (put k v m)"
    and ok_erase: "ok m \<Longrightarrow> ok (erase k m)"
    and extensional: "ok m \<Longrightarrow> ok m' \<Longrightarrow> (\<And>k. find k m = find k m') \<Longrightarrow> m = m'"
begin

lemma put_put: "ok m \<Longrightarrow> put k v (put k w m) = put k v m"
  by (rule extensional) (auto simp: find_put ok_put)

lemma put_commute: "ok m \<Longrightarrow> k \<noteq> l \<Longrightarrow> put k v (put l w m) = put l w (put k v m)"
  by (rule extensional) (auto simp: find_put ok_put)

lemma put_same: "ok m \<Longrightarrow> find k m = Some v \<Longrightarrow> put k v m = m"
  by (rule extensional) (auto simp: find_put ok_put)

lemma erase_put: "ok m \<Longrightarrow> find k m = None \<Longrightarrow> erase k (put k v m) = m"
  by (rule extensional) (auto simp: find_put find_erase ok_put ok_erase)

lemma put_erase: "ok m \<Longrightarrow> find k m = Some v \<Longrightarrow> put k v (erase k m) = m"
  by (rule extensional) (auto simp: find_put find_erase ok_put ok_erase)

lemma erase_absent: "ok m \<Longrightarrow> find k m = None \<Longrightarrow> erase k m = m"
  by (rule extensional) (auto simp: find_erase ok_erase)

end

section \<open>Laws of the association lists\<close>

lemma map_of_fm_set [simp]: "map_of (fm_set k v m) = (map_of m)(k \<mapsto> v)"
  by (induction m) (auto simp: fun_eq_iff)

lemma fm_find_set: "fm_find k (fm_set k' v m) = (if k = k' then Some v else fm_find k m)"
  by (simp add: fm_find_def)

lemma map_of_fm_erase [simp]: "map_of (fm_erase k m) = (map_of m)(k := None)"
  by (induction m) (auto simp: fm_erase_def fun_eq_iff)

lemma fm_find_erase: "fm_find k (fm_erase k' m) = (if k = k' then None else fm_find k m)"
  by (simp add: fm_find_def)

lemma fm_find_emplace:
  "fm_find k (fm_emplace k' v m) =
     (if k = k' \<and> fm_find k' m = None then Some v else fm_find k m)"
  by (simp add: fm_emplace_def fm_find_set)

lemma set_map_fst_fm_set: "set (map fst (fm_set k v m)) = insert k (set (map fst m))"
  by (induction k v m rule: fm_set.induct) (auto simp del: set_map simp add: insert_commute)

lemma fm_ok_set: "fm_ok m \<Longrightarrow> fm_ok (fm_set k v m)"
proof (induction m)
  case (Cons p m)
  obtain k' v' where p: "p = (k', v')" by (cases p)
  have "fm_ok m" and lt: "\<forall>x \<in> set (map fst m). k' < x"
    using Cons.prems by (auto simp: fm_ok_def p)
  then show ?case
    using Cons.IH Cons.prems set_map_fst_fm_set [of k v m]
    by (auto simp: fm_ok_def p)
qed (simp add: fm_ok_def)

lemma fm_ok_erase: "fm_ok m \<Longrightarrow> fm_ok (fm_erase k m)"
  by (induction m) (auto simp: fm_ok_def fm_erase_def)

lemma fm_ok_emplace: "fm_ok m \<Longrightarrow> fm_ok (fm_emplace k v m)"
  by (simp add: fm_emplace_def fm_ok_set)

lemma fm_ok_Nil [simp]: "fm_ok []"
  by (simp add: fm_ok_def)

lemma fm_ok_distinct: "fm_ok m \<Longrightarrow> distinct (map fst m)"
  by (simp add: fm_ok_def strict_sorted_iff)

lemma fm_find_Nil [simp]: "fm_find k [] = None"
  by (simp add: fm_find_def)

lemma fm_find_Cons [simp]:
  "fm_find k (p # m) = (if k = fst p then Some (snd p) else fm_find k m)"
  by (simp add: fm_find_def)

lemma fm_find_Some_in_set: "fm_find k m = Some v \<Longrightarrow> (k, v) \<in> set m"
  by (simp add: fm_find_def map_of_SomeD)

lemma fm_in_set_find: "fm_ok m \<Longrightarrow> (k, v) \<in> set m \<Longrightarrow> fm_find k m = Some v"
  by (simp add: fm_find_def fm_ok_distinct)

lemma fm_find_None_iff: "fm_find k m = None \<longleftrightarrow> k \<notin> fst ` set m"
  by (simp add: fm_find_def map_of_eq_None_iff)

lemma fm_extensional:
  assumes "fm_ok m" and "fm_ok m'" and "\<And>k. fm_find k m = fm_find k m'"
  shows "m = m'"
proof -
  have "map_of m = map_of m'"
    using assms(3) by (auto simp: fm_find_def)
  then have "set m = set m'"
    using assms(1,2) map_of_inject_set [of m m'] by (simp add: fm_ok_distinct)
  moreover have "inj_on fst (set m)"
    using assms(1) fm_ok_distinct by (auto simp: distinct_map)
  ultimately show ?thesis
    using assms(1,2) map_sorted_distinct_set_unique [of fst m m']
    by (simp add: fm_ok_def strict_sorted_iff)
qed

interpretation fm: ordered_map "[]" fm_find fm_set fm_erase fm_ok
  by unfold_locales
    (simp_all add: fm_find_set fm_find_erase fm_ok_set fm_ok_erase, rule fm_extensional)

lemmas fm_laws = fm_find_set fm_find_erase fm_find_emplace fm_ok_set fm_ok_erase fm_ok_emplace

text \<open>Sets.\<close>

lemma set_fs_insert [simp]: "set (fs_insert k xs) = insert k (set xs)"
  by (induction xs) auto

lemma fs_ok_insert: "fs_ok xs \<Longrightarrow> fs_ok (fs_insert k xs)"
  by (induction xs) (auto simp: fs_ok_def)

lemma fs_ok_Nil [simp]: "fs_ok []"
  by (simp add: fs_ok_def)

lemma fs_ok_filter: "fs_ok xs \<Longrightarrow> fs_ok (filter P xs)"
  by (simp add: fs_ok_def sorted_wrt_filter)

lemma fs_extensional: "fs_ok xs \<Longrightarrow> fs_ok ys \<Longrightarrow> set xs = set ys \<Longrightarrow> xs = ys"
  by (simp add: fs_ok_def strict_sorted_equal)

section \<open>Filters and sums\<close>

lemma filter_fm_set:
  "\<not> P k \<Longrightarrow> filter (\<lambda>x. P (fst x)) (fm_set k v m) = filter (\<lambda>x. P (fst x)) m"
  by (induction k v m rule: fm_set.induct) auto

definition fm_sum :: "('k \<Rightarrow> 'v \<Rightarrow> nat) \<Rightarrow> ('k \<times> 'v) list \<Rightarrow> nat" where
  "fm_sum w m = (\<Sum>(k, v) \<leftarrow> m. w k v)"

lemma fm_sum_Nil [simp]: "fm_sum w [] = 0"
  by (simp add: fm_sum_def)

lemma fm_sum_Cons [simp]: "fm_sum w (p # m) = w (fst p) (snd p) + fm_sum w m"
  by (simp add: fm_sum_def case_prod_beta)

lemma fm_ok_Cons_fresh: "fm_ok (p # m) \<Longrightarrow> fm_ok m \<and> fm_find (fst p) m = None \<and> (\<forall>k. k < fst p \<longrightarrow> fm_find k m = None)"
  by (auto simp: fm_ok_def fm_find_None_iff)

lemma fm_sum_set:
  "fm_ok m \<Longrightarrow>
   fm_sum w (fm_set k v m) + (case fm_find k m of Some v' \<Rightarrow> w k v' | None \<Rightarrow> 0) = fm_sum w m + w k v"
proof (induction m)
  case (Cons p m)
  have "fm_ok m" "fm_find (fst p) m = None" "\<forall>j. j < fst p \<longrightarrow> fm_find j m = None"
    using fm_ok_Cons_fresh [OF Cons.prems] by auto
  then show ?case
    using Cons.IH by (cases p) (auto split: option.splits)
qed simp

lemma fm_sum_erase:
  "fm_ok m \<Longrightarrow> fm_sum w (fm_erase k m) + (case fm_find k m of Some v' \<Rightarrow> w k v' | None \<Rightarrow> 0) = fm_sum w m"
proof (induction m)
  case (Cons p m)
  have m: "fm_ok m" "fm_find (fst p) m = None"
    using fm_ok_Cons_fresh [OF Cons.prems] by auto
  have "fm_erase (fst p) m = m" by (rule fm.erase_absent [OF m])
  then show ?case
    using Cons.IH [OF m(1)] m(2) by (auto simp: fm_erase_def split: option.splits)
qed (simp add: fm_erase_def)

lemma fm_sum_member: "fm_find k m = Some v \<Longrightarrow> w k v \<le> fm_sum w m"
  by (induction m) (auto split: if_splits)

end
