(* ===== verification/Chainbase.thy ===== *)
theory Chainbase
  imports Ordered_Map
begin

text \<open>
  The transactional object store (\<^verbatim>\<open>chainbase.hpp\<close>, \<^verbatim>\<open>chainbase.cpp\<close>): one \<^verbatim>\<open>generic_index\<close> per object
  type, with an undo stack of change records, and the database that drives all indices together.
  The abstract specification is a store that copies itself whenever a session starts; the main
  result is that the change records of the code implement it.

  An index is the ordered association list from object ids to the rest of the object. The unique
  secondary keys of the container are a parameter \<open>sk\<close> of the operations that can collide: it lists
  the keys of an object, and two objects collide when they share one. Ids and revisions are the
  code's \<^verbatim>\<open>int64_t\<close>, taken as unbounded: an id counts the objects created and a revision the sessions
  started above the last \<^verbatim>\<open>set_revision\<close>, so the model is that of a store which starts well below
  \<open>2 ^ 63\<close>. The two debug assertions of \<^verbatim>\<open>squash\<close> are not part of the operation; lemma
  \<open>squash_asserts_hold\<close> shows that they never fail.
\<close>

section \<open>State\<close>

record 'v undo_state =
  old_values :: "(int \<times> 'v) list"
  removed_values :: "(int \<times> 'v) list"
  new_ids :: "int list"
  old_next_id :: int
  us_revision :: int

text \<open>The stack is listed from its back, the newest record, to its front.\<close>

record 'v generic_index =
  stack :: "'v undo_state list"
  revision :: int
  next_id :: int
  indices :: "(int \<times> 'v) list"

definition generic_index_empty :: "'v generic_index" where
  "generic_index_empty = \<lparr>stack = [], revision = 0, next_id = 0, indices = []\<rparr>"

type_synonym ('v, 'k) skeys = "'v \<Rightarrow> 'k list"

definition collides :: "('v, 'k) skeys \<Rightarrow> (int \<times> 'v) list \<Rightarrow> int \<Rightarrow> 'v \<Rightarrow> bool" where
  "collides sk m i v \<longleftrightarrow>
     (\<exists>(j, w) \<in> set m. j \<noteq> i \<and> (\<exists>k \<in> set (sk v). k \<in> set (sk w)))"

section \<open>Recording changes\<close>

definition enabled :: "'v generic_index \<Rightarrow> bool" where
  "enabled g \<longleftrightarrow> stack g \<noteq> []"

text \<open>Apply a function to the newest undo record, if there is one.\<close>

definition on_head :: "('v undo_state \<Rightarrow> 'v undo_state) \<Rightarrow> 'v generic_index \<Rightarrow> 'v generic_index" where
  "on_head f g = (case stack g of [] \<Rightarrow> g | head # rest \<Rightarrow> g\<lparr>stack := f head # rest\<rparr>)"

definition on_modify :: "int \<Rightarrow> 'v \<Rightarrow> 'v undo_state \<Rightarrow> 'v undo_state" where
  "on_modify i v head =
     (if i \<in> set (new_ids head) then head
      else if fm_find i (old_values head) \<noteq> None then head
      else head\<lparr>old_values := fm_emplace i v (old_values head)\<rparr>)"

definition on_remove :: "int \<Rightarrow> 'v \<Rightarrow> 'v undo_state \<Rightarrow> 'v undo_state" where
  "on_remove i v head =
     (if i \<in> set (new_ids head) then head\<lparr>new_ids := filter (\<lambda>j. j \<noteq> i) (new_ids head)\<rparr>
      else (case fm_find i (old_values head) of
          Some was \<Rightarrow> head\<lparr>removed_values := fm_emplace i was (removed_values head),
                           old_values := fm_erase i (old_values head)\<rparr>
        | None \<Rightarrow>
            if fm_find i (removed_values head) \<noteq> None then head
            else head\<lparr>removed_values := fm_emplace i v (removed_values head)\<rparr>))"

definition on_create :: "int \<Rightarrow> 'v undo_state \<Rightarrow> 'v undo_state" where
  "on_create i head = head\<lparr>new_ids := fs_insert i (new_ids head)\<rparr>"

section \<open>Operations on one index\<close>

text \<open>\<^verbatim>\<open>emplace\<close>: the constructor sees the id the object gets; a key collision raises.\<close>

definition emplace :: "('v, 'k) skeys \<Rightarrow> (int \<Rightarrow> 'v) \<Rightarrow> 'v generic_index \<Rightarrow>
    ('v generic_index \<times> int) result" where
  "emplace sk c g =
     (let new_id = next_id g; v = c new_id
      in if fm_find new_id (indices g) \<noteq> None \<or> collides sk (indices g) new_id v
         then Inl std_logic_error
         else Inr (on_head (on_create new_id)
                (g\<lparr>indices := fm_set new_id v (indices g), next_id := next_id g + 1\<rparr>), new_id))"

definition modify :: "('v, 'k) skeys \<Rightarrow> int \<Rightarrow> ('v \<Rightarrow> 'v) \<Rightarrow> 'v generic_index \<Rightarrow>
    'v generic_index result" where
  "modify sk i m g =
     bindR (deref (fm_find i (indices g))) (\<lambda>v.
       if collides sk (indices g) i (m v) then Inl process_abort
       else Inr ((on_head (on_modify i v) g)\<lparr>indices := fm_set i (m v) (indices g)\<rparr>))"

definition remove_obj :: "int \<Rightarrow> 'v generic_index \<Rightarrow> 'v generic_index result" where
  "remove_obj i g =
     bindR (deref (fm_find i (indices g))) (\<lambda>v.
       Inr ((on_head (on_remove i v) g)\<lparr>indices := fm_erase i (indices g)\<rparr>))"

definition find_obj :: "int \<Rightarrow> 'v generic_index \<Rightarrow> 'v option" where
  "find_obj i g = fm_find i (indices g)"

definition get_obj :: "int \<Rightarrow> 'v generic_index \<Rightarrow> 'v result" where
  "get_obj i g = (case find_obj i g of None \<Rightarrow> Inl std_out_of_range | Some v \<Rightarrow> Inr v)"

definition remove_object :: "int \<Rightarrow> 'v generic_index \<Rightarrow> 'v generic_index result" where
  "remove_object i g =
     (case find_obj i g of None \<Rightarrow> Inl std_out_of_range | Some v \<Rightarrow> remove_obj i g)"

definition start_undo_session :: "bool \<Rightarrow> 'v generic_index \<Rightarrow> 'v generic_index \<times> int" where
  "start_undo_session enable g =
     (if enable then
        (g\<lparr>stack := \<lparr>old_values = [], removed_values = [], new_ids = [],
                    old_next_id = next_id g, us_revision = revision g + 1\<rparr> # stack g,
           revision := revision g + 1\<rparr>, revision g + 1)
      else (g, -1))"

text \<open>The three loops of \<^verbatim>\<open>undo\<close>, each over its container in id order.\<close>

definition undo_new :: "int \<Rightarrow> (int \<times> 'v) list \<Rightarrow> (int \<times> 'v) list result" where
  "undo_new i m = bindR (deref (fm_find i m)) (\<lambda>_. Inr (fm_erase i m))"

definition undo_old :: "('v, 'k) skeys \<Rightarrow> int \<times> 'v \<Rightarrow> (int \<times> 'v) list \<Rightarrow> (int \<times> 'v) list result" where
  "undo_old sk item m =
     bindR (deref (fm_find (fst item) m)) (\<lambda>_.
       if collides sk m (fst item) (snd item) then Inl process_abort
       else Inr (fm_set (fst item) (snd item) m))"

definition undo_removed :: "('v, 'k) skeys \<Rightarrow> int \<times> 'v \<Rightarrow> (int \<times> 'v) list \<Rightarrow> (int \<times> 'v) list result" where
  "undo_removed sk item m =
     (if fm_find (fst item) m \<noteq> None \<or> collides sk m (fst item) (snd item) then Inl process_abort
      else Inr (fm_set (fst item) (snd item) m))"

definition undo :: "('v, 'k) skeys \<Rightarrow> 'v generic_index \<Rightarrow> 'v generic_index result" where
  "undo sk g =
     (case stack g of
        [] \<Rightarrow> Inr g
      | head # rest \<Rightarrow>
          bindR (foldR undo_new (new_ids head) (indices g)) (\<lambda>m1.
          bindR (foldR (undo_old sk) (old_values head) m1) (\<lambda>m2.
          bindR (foldR (undo_removed sk) (removed_values head) m2) (\<lambda>m3.
            Inr (g\<lparr>indices := m3, next_id := old_next_id head, stack := rest,
                   revision := revision g - 1\<rparr>)))))"

text \<open>The three loops of \<^verbatim>\<open>squash\<close>, which merge the newest record into the one before it.\<close>

definition squash_old :: "int \<times> 'v \<Rightarrow> 'v undo_state \<Rightarrow> 'v undo_state" where
  "squash_old item prev =
     (if fst item \<in> set (new_ids prev) then prev
      else if fm_find (fst item) (old_values prev) \<noteq> None then prev
      else prev\<lparr>old_values := fm_emplace (fst item) (snd item) (old_values prev)\<rparr>)"

definition squash_new :: "int \<Rightarrow> 'v undo_state \<Rightarrow> 'v undo_state" where
  "squash_new i prev = prev\<lparr>new_ids := fs_insert i (new_ids prev)\<rparr>"

definition squash_removed :: "int \<times> 'v \<Rightarrow> 'v undo_state \<Rightarrow> 'v undo_state" where
  "squash_removed obj prev =
     (if fst obj \<in> set (new_ids prev) then
        prev\<lparr>new_ids := filter (\<lambda>j. j \<noteq> fst obj) (new_ids prev)\<rparr>
      else (case fm_find (fst obj) (old_values prev) of
          Some was \<Rightarrow> prev\<lparr>removed_values := fm_emplace (fst obj) was (removed_values prev),
                           old_values := fm_erase (fst obj) (old_values prev)\<rparr>
        | None \<Rightarrow>
            prev\<lparr>removed_values := fm_emplace (fst obj) (snd obj) (removed_values prev)\<rparr>))"

definition squash_states :: "'v undo_state \<Rightarrow> 'v undo_state \<Rightarrow> 'v undo_state" where
  "squash_states state prev =
     fold squash_removed (removed_values state)
       (fold squash_new (new_ids state)
         (fold squash_old (old_values state) prev))"

definition squash :: "'v generic_index \<Rightarrow> 'v generic_index" where
  "squash g =
     (case stack g of
        [] \<Rightarrow> g
      | [state] \<Rightarrow> g\<lparr>stack := [], revision := revision g - 1\<rparr>
      | state # prev # rest \<Rightarrow>
          g\<lparr>stack := squash_states state prev # rest, revision := revision g - 1\<rparr>)"

definition commit :: "int \<Rightarrow> 'v generic_index \<Rightarrow> 'v generic_index" where
  "commit rv g = g\<lparr>stack := rev (dropWhile (\<lambda>u. us_revision u \<le> rv) (rev (stack g)))\<rparr>"

definition set_revision :: "int \<Rightarrow> 'v generic_index \<Rightarrow> 'v generic_index result" where
  "set_revision rv g =
     (if stack g \<noteq> [] then Inl std_logic_error
      else if rv > 2 ^ 63 - 1 then Inl std_logic_error
      else Inr (g\<lparr>revision := rv\<rparr>))"

definition undo_stack_revision_range :: "'v generic_index \<Rightarrow> int \<times> int" where
  "undo_stack_revision_range g =
     (case stack g of
        [] \<Rightarrow> (revision g, revision g)
      | head # rest \<Rightarrow> (us_revision (last (stack g)) - 1, us_revision head))"

text \<open>\<^verbatim>\<open>undo_all\<close>: undo while the stack is not empty.\<close>

lemma undo_shortens: "undo sk g = Inr g' \<Longrightarrow> stack g \<noteq> [] \<Longrightarrow> length (stack g') < length (stack g)"
  by (auto simp: undo_def split: list.splits)

function undo_all :: "('v, 'k) skeys \<Rightarrow> 'v generic_index \<Rightarrow> 'v generic_index result" where
  "undo_all sk g = (if stack g = [] then Inr g else bindR (undo sk g) (undo_all sk))"
  by pat_completeness auto
termination
  by (relation "measure (\<lambda>(sk, g). length (stack g))") (auto dest: undo_shortens)

declare undo_all.simps [simp del]

section \<open>What an undo record means\<close>

definition apply_undo :: "'v undo_state \<Rightarrow> (int \<times> 'v) list \<Rightarrow> (int \<times> 'v) list" where
  "apply_undo u m =
     fold (\<lambda>p. fm_set (fst p) (snd p)) (removed_values u)
       (fold (\<lambda>p. fm_set (fst p) (snd p)) (old_values u)
         (fold fm_erase (new_ids u) m))"

definition wf_undo :: "'v undo_state \<Rightarrow> (int \<times> 'v) list \<Rightarrow> int \<Rightarrow> bool" where
  "wf_undo u m n \<longleftrightarrow>
     fm_ok (old_values u) \<and> fm_ok (removed_values u) \<and> fs_ok (new_ids u) \<and> old_next_id u \<le> n \<and>
     (\<forall>k \<in> set (new_ids u). old_next_id u \<le> k \<and> fm_find k m \<noteq> None) \<and>
     (\<forall>k. fm_find k (old_values u) \<noteq> None \<longrightarrow> fm_find k m \<noteq> None \<and> k < old_next_id u) \<and>
     (\<forall>k. fm_find k (removed_values u) \<noteq> None \<longrightarrow> fm_find k m = None \<and> k < old_next_id u) \<and>
     (\<forall>k. fm_find k m \<noteq> None \<longrightarrow> k \<notin> set (new_ids u) \<longrightarrow> k < old_next_id u)"

definition ids_below :: "(int \<times> 'v) list \<Rightarrow> int \<Rightarrow> bool" where
  "ids_below m n \<longleftrightarrow> fm_ok m \<and> (\<forall>k. fm_find k m \<noteq> None \<longrightarrow> k < n)"

fun chain_ok :: "'v undo_state list \<Rightarrow> (int \<times> 'v) list \<Rightarrow> int \<Rightarrow> bool" where
  "chain_ok [] m n = ids_below m n"
| "chain_ok (u # us) m n =
     (ids_below m n \<and> wf_undo u m n \<and> chain_ok us (apply_undo u m) (old_next_id u))"

lemma chain_ok_ids_below: "chain_ok us m n \<Longrightarrow> ids_below m n"
  by (cases us) auto

lemma find_fold_set:
  "distinct (map fst l) \<Longrightarrow>
   fm_find k (fold (\<lambda>p. fm_set (fst p) (snd p)) l m) =
     (case fm_find k l of Some v \<Rightarrow> Some v | None \<Rightarrow> fm_find k m)"
proof (induction l arbitrary: m)
  case (Cons p l)
  then have "fm_find (fst p) l = None"
    by (auto simp: fm_find_None_iff)
  with Cons show ?case
    by (auto simp: fm_find_set split: option.splits)
qed simp

lemma find_fold_erase:
  "fm_find k (fold fm_erase l m) = (if k \<in> set l then None else fm_find k m)"
  by (induction l arbitrary: m) (auto simp: fm_find_erase)

lemma ok_fold_set: "fm_ok m \<Longrightarrow> fm_ok (fold (\<lambda>p. fm_set (fst p) (snd p)) l m)"
  by (induction l arbitrary: m) (auto simp: fm_ok_set)

lemma ok_fold_erase: "fm_ok m \<Longrightarrow> fm_ok (fold fm_erase l m)"
  by (induction l arbitrary: m) (auto simp: fm_ok_erase)

lemma find_apply_undo:
  assumes "wf_undo u m n"
  shows "fm_find k (apply_undo u m) =
     (case fm_find k (removed_values u) of Some v \<Rightarrow> Some v
      | None \<Rightarrow> (case fm_find k (old_values u) of Some v \<Rightarrow> Some v
                 | None \<Rightarrow> if k \<in> set (new_ids u) then None else fm_find k m))"
  using assms
  by (simp add: apply_undo_def wf_undo_def find_fold_set find_fold_erase fm_ok_distinct
      split: option.split)

lemma ok_apply_undo: "fm_ok m \<Longrightarrow> fm_ok (apply_undo u m)"
  by (simp add: apply_undo_def ok_fold_set ok_fold_erase)

lemma apply_undo_eqI:
  assumes "wf_undo u m n" and "wf_undo u' m' n'" and "fm_ok m" and "fm_ok m'"
    and "\<And>k. (case fm_find k (removed_values u) of Some v \<Rightarrow> Some v
      | None \<Rightarrow> (case fm_find k (old_values u) of Some v \<Rightarrow> Some v
                 | None \<Rightarrow> if k \<in> set (new_ids u) then None else fm_find k m)) =
     (case fm_find k (removed_values u') of Some v \<Rightarrow> Some v
      | None \<Rightarrow> (case fm_find k (old_values u') of Some v \<Rightarrow> Some v
                 | None \<Rightarrow> if k \<in> set (new_ids u') then None else fm_find k m'))"
  shows "apply_undo u m = apply_undo u' m'"
  using assms by (intro fm_extensional) (simp_all add: ok_apply_undo find_apply_undo)

lemma ids_below_fresh: "ids_below m n \<Longrightarrow> fm_find n m = None"
  by (cases "fm_find n m") (auto simp: ids_below_def)

lemma wf_undo_new_fresh:
  "wf_undo u m n \<Longrightarrow>
   \<forall>k \<in> set (new_ids u). fm_find k (old_values u) = None \<and> fm_find k (removed_values u) = None"
  unfolding wf_undo_def by (metis leD)

lemma wf_undo_create:
  assumes "wf_undo u m n" and "ids_below m n"
  shows "wf_undo (on_create n u) (fm_set n v m) (n + 1)"
  using assms
  by (auto simp: wf_undo_def ids_below_def on_create_def fm_find_set fs_ok_insert)

lemma apply_undo_create:
  assumes "wf_undo u m n" and "ids_below m n"
  shows "apply_undo (on_create n u) (fm_set n v m) = apply_undo u m"
  using assms ids_below_fresh [OF assms(2)]
  by (intro apply_undo_eqI [OF wf_undo_create])
    (auto simp: on_create_def fm_find_set fm_ok_set ids_below_def wf_undo_def split: option.splits)

lemma wf_undo_modify:
  assumes "wf_undo u m n" and "fm_find i m = Some v"
  shows "wf_undo (on_modify i v u) (fm_set i w m) n"
  using assms
  by (auto simp: wf_undo_def on_modify_def fm_find_set fm_find_emplace fm_ok_emplace)

lemma apply_undo_modify:
  assumes "wf_undo u m n" and "fm_find i m = Some v" and "fm_ok m"
  shows "apply_undo (on_modify i v u) (fm_set i w m) = apply_undo u m"
  using assms wf_undo_new_fresh [OF assms(1)]
  by (intro apply_undo_eqI [OF wf_undo_modify])
    (auto simp: on_modify_def fm_find_set fm_find_emplace fm_ok_set wf_undo_def split: option.splits)

lemma wf_undo_remove:
  assumes "wf_undo u m n" and "fm_find i m = Some v"
  shows "wf_undo (on_remove i v u) (fm_erase i m) n"
  using assms wf_undo_new_fresh [OF assms(1)]
  by (auto simp: wf_undo_def on_remove_def fm_laws fs_ok_filter split: option.splits)

lemma apply_undo_remove:
  assumes "wf_undo u m n" and "fm_find i m = Some v" and "fm_ok m"
  shows "apply_undo (on_remove i v u) (fm_erase i m) = apply_undo u m"
  using assms wf_undo_new_fresh [OF assms(1)]
  by (intro apply_undo_eqI [OF wf_undo_remove])
    (auto simp: on_remove_def fm_laws wf_undo_def split: option.splits)

lemma fold_squash_old:
  assumes "distinct (map fst l)" and q_def: "q = fold squash_old l p"
  shows "new_ids q = new_ids p" and "removed_values q = removed_values p"
    and "old_next_id q = old_next_id p" and "us_revision q = us_revision p"
    and "fm_ok (old_values p) \<Longrightarrow> fm_ok (old_values q)"
    and "fm_find k (old_values q) =
      (case fm_find k (old_values p) of Some v \<Rightarrow> Some v
       | None \<Rightarrow> if k \<in> set (new_ids p) then None else fm_find k l)"
proof -
  show "new_ids q = new_ids p" "removed_values q = removed_values p"
    "old_next_id q = old_next_id p" "us_revision q = us_revision p"
    unfolding q_def by (induction l arbitrary: p) (auto simp: squash_old_def)
  show "fm_ok (old_values p) \<Longrightarrow> fm_ok (old_values q)"
    unfolding q_def by (induction l arbitrary: p) (auto simp: squash_old_def fm_ok_emplace)
  show "fm_find k (old_values q) =
      (case fm_find k (old_values p) of Some v \<Rightarrow> Some v
       | None \<Rightarrow> if k \<in> set (new_ids p) then None else fm_find k l)"
    unfolding q_def using assms(1)
  proof (induction l arbitrary: p)
    case Nil
    then show ?case by (auto split: option.splits)
  next
    case (Cons x l)
    then have "fm_find (fst x) l = None" by (auto simp: fm_find_None_iff)
    with Cons show ?case
      by (auto simp: squash_old_def fm_find_emplace split: option.splits)
  qed
qed

lemma fold_squash_new:
  assumes q_def: "q = fold squash_new l p"
  shows "set (new_ids q) = set l \<union> set (new_ids p)" and "removed_values q = removed_values p"
    and "old_values q = old_values p"
    and "old_next_id q = old_next_id p" and "us_revision q = us_revision p"
    and "fs_ok (new_ids p) \<Longrightarrow> fs_ok (new_ids q)"
  unfolding q_def by (induction l arbitrary: p) (auto simp: squash_new_def fs_ok_insert)

lemma fold_squash_removed_frame:
  "old_next_id (fold squash_removed l p) = old_next_id p \<and>
   us_revision (fold squash_removed l p) = us_revision p \<and>
   (fs_ok (new_ids p) \<longrightarrow> fs_ok (new_ids (fold squash_removed l p))) \<and>
   (fm_ok (old_values p) \<longrightarrow> fm_ok (old_values (fold squash_removed l p))) \<and>
   (fm_ok (removed_values p) \<longrightarrow> fm_ok (removed_values (fold squash_removed l p)))"
  by (induction l arbitrary: p)
    (auto simp: squash_removed_def fm_laws fs_ok_filter split: option.splits)

lemma fold_squash_removed_other:
  "fm_find k l = None \<Longrightarrow>
   (k \<in> set (new_ids (fold squash_removed l p)) \<longleftrightarrow> k \<in> set (new_ids p)) \<and>
   fm_find k (old_values (fold squash_removed l p)) = fm_find k (old_values p) \<and>
   fm_find k (removed_values (fold squash_removed l p)) = fm_find k (removed_values p)"
  by (induction l arbitrary: p)
    (auto simp: squash_removed_def fm_laws split: option.splits if_splits)

lemma fold_squash_removed_hit:
  "distinct (map fst l) \<Longrightarrow> fm_find k l = Some w \<Longrightarrow>
   fm_find k (removed_values p) = None \<Longrightarrow>
   (k \<in> set (new_ids p) \<longrightarrow> fm_find k (old_values p) = None) \<Longrightarrow>
   k \<notin> set (new_ids (fold squash_removed l p)) \<and>
   fm_find k (old_values (fold squash_removed l p)) = None \<and>
   fm_find k (removed_values (fold squash_removed l p)) =
     (if k \<in> set (new_ids p) then None
      else case fm_find k (old_values p) of Some v \<Rightarrow> Some v | None \<Rightarrow> Some w)"
proof (induction l arbitrary: p)
  case (Cons x l)
  show ?case
  proof (cases "fst x = k")
    case True
    then have "fm_find k l = None" using Cons.prems by (auto simp: fm_find_None_iff)
    with True Cons.prems show ?thesis
      by (simp add: fold_squash_removed_other)
        (auto simp: squash_removed_def fm_laws split: option.splits)
  next
    case False
    have e: "k \<in> set (new_ids (squash_removed x p)) \<longleftrightarrow> k \<in> set (new_ids p)"
      "fm_find k (old_values (squash_removed x p)) = fm_find k (old_values p)"
      "fm_find k (removed_values (squash_removed x p)) = fm_find k (removed_values p)"
      using False by (auto simp: squash_removed_def fm_laws split: option.splits)
    show ?thesis
      using Cons.IH [of "squash_removed x p"] Cons.prems False by (simp add: e)
  qed
qed simp

lemma squash_states_frame:
  assumes s: "wf_undo s m n" and p: "wf_undo p m' n'"
  shows "old_next_id (squash_states s p) = old_next_id p"
    and "us_revision (squash_states s p) = us_revision p"
    and "fm_ok (old_values (squash_states s p))"
    and "fm_ok (removed_values (squash_states s p))"
    and "fs_ok (new_ids (squash_states s p))"
proof -
  let ?p1 = "fold squash_old (old_values s) p"
  let ?p2 = "fold squash_new (new_ids s) ?p1"
  have d: "distinct (map fst (old_values s))"
    using s by (simp add: wf_undo_def fm_ok_distinct)
  have ok: "fm_ok (old_values p)" "fm_ok (removed_values p)" "fs_ok (new_ids p)"
    using p by (simp_all add: wf_undo_def)
  note c1 = fold_squash_old [where p = p, OF d refl]
    and c2 = fold_squash_new [where l = "new_ids s" and p = ?p1, OF refl]
  show "old_next_id (squash_states s p) = old_next_id p"
    "us_revision (squash_states s p) = us_revision p"
    "fm_ok (old_values (squash_states s p))"
    "fm_ok (removed_values (squash_states s p))"
    "fs_ok (new_ids (squash_states s p))"
    using fold_squash_removed_frame [of "removed_values s" ?p2] ok
    by (simp_all add: squash_states_def c1 c2)
qed

lemma squash_states_kept:
  assumes s: "wf_undo s m n" and k: "fm_find k (removed_values s) = None"
  shows "k \<in> set (new_ids (squash_states s p)) \<longleftrightarrow> k \<in> set (new_ids s) \<or> k \<in> set (new_ids p)"
    and "fm_find k (old_values (squash_states s p)) =
      (case fm_find k (old_values p) of Some v \<Rightarrow> Some v
       | None \<Rightarrow> if k \<in> set (new_ids p) then None else fm_find k (old_values s))"
    and "fm_find k (removed_values (squash_states s p)) = fm_find k (removed_values p)"
proof -
  let ?p1 = "fold squash_old (old_values s) p"
  have d: "distinct (map fst (old_values s))"
    using s by (simp add: wf_undo_def fm_ok_distinct)
  note c1 = fold_squash_old [where p = p, OF d refl]
    and c2 = fold_squash_new [where l = "new_ids s" and p = ?p1, OF refl]
  note o = fold_squash_removed_other [OF k, of "fold squash_new (new_ids s) ?p1"]
  show "k \<in> set (new_ids (squash_states s p)) \<longleftrightarrow> k \<in> set (new_ids s) \<or> k \<in> set (new_ids p)"
    using o by (simp add: squash_states_def c1 c2)
  show "fm_find k (old_values (squash_states s p)) =
      (case fm_find k (old_values p) of Some v \<Rightarrow> Some v
       | None \<Rightarrow> if k \<in> set (new_ids p) then None else fm_find k (old_values s))"
    using o by (simp add: squash_states_def c1(1-5) c1(6) [of k] c2)
  show "fm_find k (removed_values (squash_states s p)) = fm_find k (removed_values p)"
    using o by (simp add: squash_states_def c1 c2)
qed

lemma squash_states_removed:
  assumes s: "wf_undo s m n" and p: "wf_undo p (apply_undo s m) (old_next_id s)"
    and k: "fm_find k (removed_values s) = Some w"
  shows "k \<notin> set (new_ids (squash_states s p))"
    and "fm_find k (old_values (squash_states s p)) = None"
    and "fm_find k (removed_values (squash_states s p)) =
      (if k \<in> set (new_ids p) then None
       else case fm_find k (old_values p) of Some v \<Rightarrow> Some v | None \<Rightarrow> Some w)"
proof -
  let ?p1 = "fold squash_old (old_values s) p"
  let ?p2 = "fold squash_new (new_ids s) ?p1"
  have d: "distinct (map fst (old_values s))" "distinct (map fst (removed_values s))"
    using s by (simp_all add: wf_undo_def fm_ok_distinct)
  have dis: "fm_find k (old_values s) = None"
    using s k unfolding wf_undo_def by (metis option.distinct(1))
  have "fm_find k (apply_undo s m) = Some w"
    using k by (simp add: find_apply_undo [OF s])
  then have nokey: "fm_find k (removed_values p) = None"
    using p unfolding wf_undo_def by (metis option.distinct(1))
  have nonew: "k \<notin> set (new_ids s)"
    using wf_undo_new_fresh [OF s] k by auto
  have nold: "k \<in> set (new_ids p) \<longrightarrow> fm_find k (old_values p) = None"
    using wf_undo_new_fresh [OF p] by blast
  note c1 = fold_squash_old(1,2) [where p = p, OF d(1) refl]
    and c2 = fold_squash_new(1-3) [where l = "new_ids s" and p = ?p1, OF refl]
  have old: "fm_find k (old_values ?p2) = fm_find k (old_values p)"
    by (simp add: c2 fold_squash_old(6) [where p = p and k = k, OF d(1) refl] dis split: option.split)
  have new: "k \<in> set (new_ids ?p2) \<longleftrightarrow> k \<in> set (new_ids p)"
    using nonew by (simp add: c1 c2)
  have "fm_find k (removed_values ?p2) = None"
    using nokey by (simp add: c1 c2)
  note fold_squash_removed_hit [OF d(2) k this, unfolded old new, OF nold]
  then show "k \<notin> set (new_ids (squash_states s p))"
    and "fm_find k (old_values (squash_states s p)) = None"
    and "fm_find k (removed_values (squash_states s p)) =
      (if k \<in> set (new_ids p) then None
       else case fm_find k (old_values p) of Some v \<Rightarrow> Some v | None \<Rightarrow> Some w)"
    by (simp_all add: squash_states_def)
qed

lemma wf_undo_squash:
  assumes s: "wf_undo s m n" and p: "wf_undo p (apply_undo s m) (old_next_id s)"
  shows "wf_undo (squash_states s p) m n"
proof -
  note fr = squash_states_frame [OF s p]
  have s': "old_next_id s \<le> n" "\<And>k. k \<in> set (new_ids s) \<Longrightarrow> old_next_id s \<le> k \<and> fm_find k m \<noteq> None"
    "\<And>k. fm_find k (old_values s) \<noteq> None \<Longrightarrow> fm_find k m \<noteq> None \<and> k < old_next_id s"
    "\<And>k. fm_find k (removed_values s) \<noteq> None \<Longrightarrow> fm_find k m = None \<and> k < old_next_id s"
    "\<And>k. fm_find k m \<noteq> None \<Longrightarrow> k \<notin> set (new_ids s) \<Longrightarrow> k < old_next_id s"
    using s by (auto simp: wf_undo_def)
  have p': "old_next_id p \<le> old_next_id s"
    "\<And>k. k \<in> set (new_ids p) \<Longrightarrow> old_next_id p \<le> k \<and> fm_find k (apply_undo s m) \<noteq> None"
    "\<And>k. fm_find k (old_values p) \<noteq> None \<Longrightarrow> fm_find k (apply_undo s m) \<noteq> None \<and> k < old_next_id p"
    "\<And>k. fm_find k (removed_values p) \<noteq> None \<Longrightarrow> fm_find k (apply_undo s m) = None \<and> k < old_next_id p"
    "\<And>k. fm_find k (apply_undo s m) \<noteq> None \<Longrightarrow> k \<notin> set (new_ids p) \<Longrightarrow> k < old_next_id p"
    using p by (auto simp: wf_undo_def)
  note f = find_apply_undo [OF s]
  have key: "(k \<in> set (new_ids (squash_states s p)) \<longrightarrow> old_next_id p \<le> k \<and> fm_find k m \<noteq> None) \<and>
     (fm_find k (old_values (squash_states s p)) \<noteq> None \<longrightarrow> fm_find k m \<noteq> None \<and> k < old_next_id p) \<and>
     (fm_find k (removed_values (squash_states s p)) \<noteq> None \<longrightarrow> fm_find k m = None \<and> k < old_next_id p) \<and>
     (fm_find k m \<noteq> None \<longrightarrow> k \<notin> set (new_ids (squash_states s p)) \<longrightarrow> k < old_next_id p)" for k
  proof (cases "fm_find k (removed_values s)")
    case None
    then show ?thesis
      using s'(2,3,5) [of k] p'(2-5) [of k] p'(1)
      unfolding squash_states_kept [OF s None] f by (auto split: option.splits if_splits)
  next
    case (Some w)
    then show ?thesis
      using squash_states_removed(1) [OF s p Some] s'(4) [of k] p'(2-5) [of k]
      unfolding squash_states_removed(2,3) [OF s p Some] f by (auto split: option.splits if_splits)
  qed
  with fr p'(1) s'(1) show ?thesis
    unfolding wf_undo_def by auto
qed

lemma apply_undo_squash:
  assumes s: "wf_undo s m n" and p: "wf_undo p (apply_undo s m) (old_next_id s)" and m: "fm_ok m"
  shows "apply_undo (squash_states s p) m = apply_undo p (apply_undo s m)"
proof (rule apply_undo_eqI [OF wf_undo_squash [OF s p] p m ok_apply_undo [OF m]], goal_cases)
  case (1 k)
  have fs: "k \<in> set (new_ids s) \<Longrightarrow> fm_find k (old_values s) = None \<and> fm_find k (removed_values s) = None"
    using wf_undo_new_fresh [OF s] by blast
  have fp: "k \<in> set (new_ids p) \<Longrightarrow> fm_find k (old_values p) = None \<and> fm_find k (removed_values p) = None"
    using wf_undo_new_fresh [OF p] by blast
  have rs: "fm_find k (removed_values s) \<noteq> None \<Longrightarrow> fm_find k m = None"
    using s unfolding wf_undo_def by blast
  have rp: "fm_find k (removed_values p) \<noteq> None \<Longrightarrow> fm_find k (apply_undo s m) = None"
    "fm_find k (old_values p) \<noteq> None \<Longrightarrow> fm_find k (apply_undo s m) \<noteq> None"
    using p unfolding wf_undo_def by blast+
  note f = find_apply_undo [OF s]
  show ?case
  proof (cases "fm_find k (removed_values s)")
    case None
    then show ?thesis
      using fs fp rp rs
      unfolding squash_states_kept [OF s None] f by (auto split: option.splits if_splits)
  next
    case (Some w)
    then show ?thesis
      using squash_states_removed(1) [OF s p Some] fs fp rp rs
      unfolding squash_states_removed(2,3) [OF s p Some] f by (auto split: option.splits if_splits)
  qed
qed

lemma foldR_eq_fold:
  "(\<And>x m m'. f x m = Inr m' \<Longrightarrow> m' = h x m) \<Longrightarrow> foldR f xs m = Inr m' \<Longrightarrow> m' = fold h xs m"
  by (induction xs arbitrary: m) (fastforce simp: bindR_Inr)+

lemma undo_loops_apply:
  assumes "undo sk g = Inr g'" and "stack g = u # us"
  shows "g' = g\<lparr>indices := apply_undo u (indices g), next_id := old_next_id u, stack := us,
                revision := revision g - 1\<rparr>"
proof -
  obtain m1 m2 m3 where
    1: "foldR undo_new (new_ids u) (indices g) = Inr m1" and
    2: "foldR (undo_old sk) (old_values u) m1 = Inr m2" and
    3: "foldR (undo_removed sk) (removed_values u) m2 = Inr m3" and
    g': "g' = g\<lparr>indices := m3, next_id := old_next_id u, stack := us, revision := revision g - 1\<rparr>"
    using assms by (auto simp: undo_def bindR_Inr)
  have "m1 = fold fm_erase (new_ids u) (indices g)"
    by (rule foldR_eq_fold [OF _ 1]) (simp add: undo_new_def bindR_Inr)
  moreover have "m2 = fold (\<lambda>p. fm_set (fst p) (snd p)) (old_values u) m1"
    by (rule foldR_eq_fold [OF _ 2]) (simp add: undo_old_def bindR_Inr split: if_splits)
  moreover have "m3 = fold (\<lambda>p. fm_set (fst p) (snd p)) (removed_values u) m2"
    by (rule foldR_eq_fold [OF _ 3]) (simp add: undo_removed_def split: if_splits)
  ultimately show ?thesis
    by (simp add: g' apply_undo_def)
qed

section \<open>The snapshot store\<close>

record 'v snapshot_store =
  cur :: "(int \<times> 'v) list"
  nxt :: int
  rvn :: int
  saved :: "((int \<times> 'v) list \<times> int \<times> int) list"

fun snapshots :: "'v undo_state list \<Rightarrow> (int \<times> 'v) list \<Rightarrow> ((int \<times> 'v) list \<times> int \<times> int) list" where
  "snapshots [] m = []"
| "snapshots (u # us) m = (apply_undo u m, old_next_id u, us_revision u) # snapshots us (apply_undo u m)"

definition abs_store :: "'v generic_index \<Rightarrow> 'v snapshot_store" where
  "abs_store g = \<lparr>cur = indices g, nxt = next_id g, rvn = revision g,
                  saved = snapshots (stack g) (indices g)\<rparr>"

definition index_ok :: "'v generic_index \<Rightarrow> bool" where
  "index_ok g \<longleftrightarrow> chain_ok (stack g) (indices g) (next_id g)"

text \<open>An object that the newest record changes or removes has not been removed by the record before it.\<close>

lemma squash_asserts_hold:
  assumes "index_ok g" "stack g = state # prev # rest"
    and "fm_find i (old_values state) \<noteq> None \<or> fm_find i (removed_values state) \<noteq> None"
  shows "fm_find i (removed_values prev) = None"
proof -
  have wf: "wf_undo state (indices g) (next_id g)" "wf_undo prev (apply_undo state (indices g)) (old_next_id state)"
    using assms(1, 2) by (simp_all add: index_ok_def)
  have "fm_find i (apply_undo state (indices g)) \<noteq> None"
    using assms(3) find_apply_undo [OF wf(1)] by (auto split: option.split)
  then show ?thesis using wf(2) by (auto simp: wf_undo_def)
qed

datatype 'v store_op =
    Emplace "int \<Rightarrow> 'v" | Modify int "'v \<Rightarrow> 'v" | Remove int
  | Start | Undo | Squash | Commit int

primrec exec :: "('v, 'k) skeys \<Rightarrow> 'v store_op \<Rightarrow> 'v generic_index \<Rightarrow> 'v generic_index result" where
  "exec sk (Emplace c) g = bindR (emplace sk c g) (\<lambda>r. Inr (fst r))"
| "exec sk (Modify i f) g = modify sk i f g"
| "exec sk (Remove i) g = remove_obj i g"
| "exec sk Start g = Inr (fst (start_undo_session True g))"
| "exec sk Undo g = undo sk g"
| "exec sk Squash g = Inr (squash g)"
| "exec sk (Commit rv) g = Inr (commit rv g)"

primrec spec_exec :: "('v, 'k) skeys \<Rightarrow> 'v store_op \<Rightarrow> 'v snapshot_store \<Rightarrow> 'v snapshot_store result" where
  "spec_exec sk (Emplace c) s =
     (if collides sk (cur s) (nxt s) (c (nxt s)) then Inl std_logic_error
      else Inr (s\<lparr>cur := fm_set (nxt s) (c (nxt s)) (cur s), nxt := nxt s + 1\<rparr>))"
| "spec_exec sk (Modify i f) s =
     (case fm_find i (cur s) of
        None \<Rightarrow> Inl undefined_behaviour
      | Some v \<Rightarrow> if collides sk (cur s) i (f v) then Inl process_abort
                  else Inr (s\<lparr>cur := fm_set i (f v) (cur s)\<rparr>))"
| "spec_exec sk (Remove i) s =
     (case fm_find i (cur s) of
        None \<Rightarrow> Inl undefined_behaviour
      | Some v \<Rightarrow> Inr (s\<lparr>cur := fm_erase i (cur s)\<rparr>))"
| "spec_exec sk Start s =
     Inr (s\<lparr>saved := (cur s, nxt s, rvn s + 1) # saved s, rvn := rvn s + 1\<rparr>)"
| "spec_exec sk Undo s =
     (case saved s of
        [] \<Rightarrow> Inr s
      | (m, n, r) # rest \<Rightarrow> Inr \<lparr>cur = m, nxt = n, rvn = rvn s - 1, saved = rest\<rparr>)"
| "spec_exec sk Squash s =
     (case saved s of [] \<Rightarrow> Inr s | _ # rest \<Rightarrow> Inr (s\<lparr>saved := rest, rvn := rvn s - 1\<rparr>))"
| "spec_exec sk (Commit rv) s =
     Inr (s\<lparr>saved := rev (dropWhile (\<lambda>x. snd (snd x) \<le> rv) (rev (saved s)))\<rparr>)"

lemma chain_ok_take: "chain_ok us m n \<Longrightarrow> chain_ok (take j us) m n"
  by (induction us arbitrary: j m n) (auto simp: take_Cons split: nat.splits)

lemma snapshots_revisions: "map (\<lambda>x. snd (snd x)) (snapshots us m) = map us_revision us"
  by (induction us arbitrary: m) auto

lemma snapshots_take: "snapshots (take j us) m = take j (snapshots us m)"
  by (induction us arbitrary: j m) (auto simp: take_Cons split: nat.splits)

lemma rev_dropWhile_take:
  "rev (dropWhile P (rev xs)) = take (length xs - length (takeWhile P (rev xs))) xs"
proof -
  have "rev xs = takeWhile P (rev xs) @ dropWhile P (rev xs)" by simp
  then have "xs = rev (dropWhile P (rev xs)) @ rev (takeWhile P (rev xs))"
    by (metis rev_append rev_rev_ident)
  then show ?thesis
    by (metis append_eq_conv_conj diff_diff_cancel diff_le_self length_append length_rev add_diff_cancel_right')
qed

lemma length_takeWhile_map: "length (takeWhile P (map f xs)) = length (takeWhile (P \<circ> f) xs)"
  by (simp add: takeWhile_map)

lemma snapshots_commit:
  "rev (dropWhile (\<lambda>x. snd (snd x) \<le> rv) (rev (snapshots us m))) =
   snapshots (rev (dropWhile (\<lambda>u. us_revision u \<le> rv) (rev us))) m"
proof -
  have len: "length (snapshots us m) = length us"
    by (metis length_map snapshots_revisions)
  have "length (takeWhile (\<lambda>x. snd (snd x) \<le> rv) (rev (snapshots us m))) =
        length (takeWhile (\<lambda>r. r \<le> rv) (rev (map (\<lambda>x. snd (snd x)) (snapshots us m))))"
    by (simp add: rev_map length_takeWhile_map comp_def)
  also have "\<dots> = length (takeWhile (\<lambda>u. us_revision u \<le> rv) (rev us))"
    by (simp add: snapshots_revisions rev_map length_takeWhile_map comp_def)
  finally show ?thesis
    by (simp add: rev_dropWhile_take len snapshots_take)
qed

lemma on_head_simps [simp]:
  "indices (on_head f g) = indices g" "next_id (on_head f g) = next_id g"
  "revision (on_head f g) = revision g"
  "stack (on_head f g) = (case stack g of [] \<Rightarrow> [] | u # us \<Rightarrow> f u # us)"
  by (auto simp: on_head_def split: list.split)

definition keeps_snapshot :: "('v undo_state \<Rightarrow> 'v undo_state) \<Rightarrow> 'v undo_state \<Rightarrow> (int \<times> 'v) list \<Rightarrow>
    (int \<times> 'v) list \<Rightarrow> int \<Rightarrow> bool" where
  "keeps_snapshot f u m m' n' \<longleftrightarrow>
     wf_undo (f u) m' n' \<and> apply_undo (f u) m' = apply_undo u m \<and>
     old_next_id (f u) = old_next_id u \<and> us_revision (f u) = us_revision u"

lemma on_head_refines:
  assumes "index_ok g" and "ids_below m' n'"
    and "\<And>u. wf_undo u (indices g) (next_id g) \<Longrightarrow> keeps_snapshot f u (indices g) m' n'"
    and "stack g' = stack (on_head f g)" "indices g' = m'" "next_id g' = n'" "revision g' = revision g"
  shows "index_ok g' \<and> abs_store g' = (abs_store g)\<lparr>cur := m', nxt := n'\<rparr>"
  using assms
  by (cases "stack g") (auto simp: index_ok_def abs_store_def keeps_snapshot_def)

lemma keeps_create:
  "wf_undo u m n \<Longrightarrow> ids_below m n \<Longrightarrow> keeps_snapshot (on_create n) u m (fm_set n v m) (n + 1)"
  by (simp add: keeps_snapshot_def wf_undo_create apply_undo_create) (simp add: on_create_def)

lemma keeps_modify:
  "wf_undo u m n \<Longrightarrow> ids_below m n \<Longrightarrow> fm_find i m = Some v \<Longrightarrow>
   keeps_snapshot (on_modify i v) u m (fm_set i w m) n"
  by (simp add: keeps_snapshot_def wf_undo_modify apply_undo_modify ids_below_def)
    (simp add: on_modify_def)

lemma keeps_remove:
  "wf_undo u m n \<Longrightarrow> ids_below m n \<Longrightarrow> fm_find i m = Some v \<Longrightarrow>
   keeps_snapshot (on_remove i v) u m (fm_erase i m) n"
  by (simp add: keeps_snapshot_def wf_undo_remove apply_undo_remove ids_below_def)
    (simp add: on_remove_def split: option.split)

lemma ids_below_changes:
  "ids_below m n \<Longrightarrow> ids_below (fm_set n v m) (n + 1)"
  "ids_below m n \<Longrightarrow> fm_find i m = Some w \<Longrightarrow> ids_below (fm_set i v m) n"
  "ids_below m n \<Longrightarrow> ids_below (fm_erase i m) n"
  by (auto simp: ids_below_def fm_laws)

lemma index_ok_ids_below: "index_ok g \<Longrightarrow> ids_below (indices g) (next_id g)"
  by (simp add: index_ok_def chain_ok_ids_below)

lemma emplace_refines:
  assumes "index_ok g"
  shows "(case emplace sk c g of Inl e \<Rightarrow> Inl e | Inr (g', i) \<Rightarrow> Inr (abs_store g')) =
         spec_exec sk (Emplace c) (abs_store g)"
    and "emplace sk c g = Inr (g', i) \<Longrightarrow> index_ok g' \<and> i = next_id g"
proof -
  note b = index_ok_ids_below [OF assms]
  let ?m = "fm_set (next_id g) (c (next_id g)) (indices g)"
  let ?g' = "on_head (on_create (next_id g)) (g\<lparr>indices := ?m, next_id := next_id g + 1\<rparr>)"
  have r: "index_ok ?g' \<and> abs_store ?g' = (abs_store g)\<lparr>cur := ?m, nxt := next_id g + 1\<rparr>"
    by (rule on_head_refines [OF assms ids_below_changes(1) [OF b]])
      (simp_all add: keeps_create [OF _ b])
  show "(case emplace sk c g of Inl e \<Rightarrow> Inl e | Inr (g', i) \<Rightarrow> Inr (abs_store g')) =
         spec_exec sk (Emplace c) (abs_store g)"
    using r ids_below_fresh [OF b] by (simp add: emplace_def Let_def) (simp add: abs_store_def)
  show "emplace sk c g = Inr (g', i) \<Longrightarrow> index_ok g' \<and> i = next_id g"
    using r by (auto simp: emplace_def Let_def split: if_splits)
qed

lemma modify_refines:
  assumes "index_ok g"
  shows "map_sum id abs_store (modify sk i f g) = spec_exec sk (Modify i f) (abs_store g)"
    and "modify sk i f g = Inr g' \<Longrightarrow> index_ok g'"
proof -
  note b = index_ok_ids_below [OF assms]
  have r: "index_ok g' \<and> abs_store g' = (abs_store g)\<lparr>cur := fm_set i w (indices g)\<rparr>"
    if "fm_find i (indices g) = Some v" "g' = (on_head (on_modify i v) g)\<lparr>indices := fm_set i w (indices g)\<rparr>"
    for v w g'
    using on_head_refines [OF assms ids_below_changes(2) [OF b that(1)] keeps_modify [OF _ b that(1)], of g'] that
    by (simp add: abs_store_def)
  show "map_sum id abs_store (modify sk i f g) = spec_exec sk (Modify i f) (abs_store g)"
    using r [OF _ refl] by (cases "fm_find i (indices g)")
      (auto simp: modify_def deref_def bindR_def abs_store_def)
  show "modify sk i f g = Inr g' \<Longrightarrow> index_ok g'"
    using r by (auto simp: modify_def bindR_Inr split: if_splits)
qed

lemma remove_refines:
  assumes "index_ok g"
  shows "map_sum id abs_store (remove_obj i g) = spec_exec sk (Remove i) (abs_store g)"
    and "remove_obj i g = Inr g' \<Longrightarrow> index_ok g'"
proof -
  note b = index_ok_ids_below [OF assms]
  have r: "index_ok g' \<and> abs_store g' = (abs_store g)\<lparr>cur := fm_erase i (indices g)\<rparr>"
    if "fm_find i (indices g) = Some v" "g' = (on_head (on_remove i v) g)\<lparr>indices := fm_erase i (indices g)\<rparr>"
    for v g'
    using on_head_refines [OF assms ids_below_changes(3) [OF b] keeps_remove [OF _ b that(1)], of g'] that
    by (simp add: abs_store_def)
  show "map_sum id abs_store (remove_obj i g) = spec_exec sk (Remove i) (abs_store g)"
    using r [OF _ refl] by (cases "fm_find i (indices g)")
      (auto simp: remove_obj_def deref_def bindR_def abs_store_def)
  show "remove_obj i g = Inr g' \<Longrightarrow> index_ok g'"
    using r by (auto simp: remove_obj_def bindR_Inr split: if_splits)
qed

lemma apply_undo_nothing:
  "old_values u = [] \<Longrightarrow> removed_values u = [] \<Longrightarrow> new_ids u = [] \<Longrightarrow> apply_undo u m = m"
  by (simp add: apply_undo_def)

lemma start_refines:
  assumes "index_ok g"
  shows "Inr (abs_store (fst (start_undo_session True g))) = spec_exec sk Start (abs_store g)"
    and "index_ok (fst (start_undo_session True g))"
proof -
  show "Inr (abs_store (fst (start_undo_session True g))) = spec_exec sk Start (abs_store g)"
    by (simp add: start_undo_session_def abs_store_def apply_undo_nothing)
  show "index_ok (fst (start_undo_session True g))"
    using assms index_ok_ids_below [OF assms]
    by (auto simp: start_undo_session_def index_ok_def apply_undo_nothing wf_undo_def ids_below_def
        fm_ok_def fs_ok_def)
qed

lemma undo_refines:
  assumes "index_ok g" and "undo sk g = Inr g'"
  shows "index_ok g' \<and> spec_exec sk Undo (abs_store g) = Inr (abs_store g')"
proof (cases "stack g")
  case Nil
  then show ?thesis using assms by (simp add: undo_def abs_store_def)
next
  case (Cons u us)
  then show ?thesis
    using assms(1) undo_loops_apply [OF assms(2) Cons] by (simp add: abs_store_def index_ok_def)
qed

lemma squash_refines:
  assumes "index_ok g"
  shows "index_ok (squash g)" and "spec_exec sk Squash (abs_store g) = Inr (abs_store (squash g))"
proof -
  have "index_ok (squash g) \<and> spec_exec sk Squash (abs_store g) = Inr (abs_store (squash g))"
  proof (cases "stack g" rule: remdups_adj.cases)
    case (3 s p us)
    then have s: "wf_undo s (indices g) (next_id g)" and
      p: "wf_undo p (apply_undo s (indices g)) (old_next_id s)" and
      m: "ids_below (indices g) (next_id g)"
      using assms by (simp_all add: index_ok_def)
    have "fm_ok (indices g)" using m by (simp add: ids_below_def)
    note e = apply_undo_squash [OF s p this] squash_states_frame [OF s p] wf_undo_squash [OF s p]
    show ?thesis
      using assms 3 by (simp add: index_ok_def squash_def abs_store_def e)
  qed (use assms in \<open>auto simp: index_ok_def squash_def abs_store_def\<close>)
  then show "index_ok (squash g)" and "spec_exec sk Squash (abs_store g) = Inr (abs_store (squash g))"
    by auto
qed

lemma commit_refines:
  assumes "index_ok g"
  shows "index_ok (commit rv g)" and "spec_exec sk (Commit rv) (abs_store g) = Inr (abs_store (commit rv g))"
  using assms
  by (simp_all add: index_ok_def commit_def abs_store_def snapshots_commit)
    (simp add: rev_dropWhile_take chain_ok_take)

lemma exec_refines:
  assumes "index_ok g" and "exec sk op g = Inr g'"
  shows "index_ok g'" and "spec_exec sk op (abs_store g) = Inr (abs_store g')"
proof -
  have "index_ok g' \<and> spec_exec sk op (abs_store g) = Inr (abs_store g')"
  proof (cases op)
    case (Emplace c)
    then show ?thesis
      using assms emplace_refines [OF assms(1), of sk c] by (auto simp: bindR_Inr)
  next
    case (Modify i f)
    then show ?thesis
      using assms modify_refines [OF assms(1), of sk i f] by auto
  next
    case (Remove i)
    then show ?thesis
      using assms remove_refines [OF assms(1), of i] by auto
  next
    case Start
    then show ?thesis
      using assms start_refines [OF assms(1)] by auto
  next
    case Undo
    then show ?thesis using assms by (auto dest: undo_refines)
  next
    case Squash
    then show ?thesis
      using assms squash_refines [OF assms(1)] by auto
  next
    case (Commit rv)
    then show ?thesis
      using assms commit_refines [OF assms(1)] by auto
  qed
  then show "index_ok g'" and "spec_exec sk op (abs_store g) = Inr (abs_store g')" by auto
qed

lemma index_ok_empty: "index_ok generic_index_empty"
  by (simp add: index_ok_def generic_index_empty_def ids_below_def fm_ok_def)

lemma run_refines:
  assumes "index_ok g" and "foldR (exec sk) ops g = Inr g'"
  shows "index_ok g' \<and> foldR (spec_exec sk) ops (abs_store g) = Inr (abs_store g')"
  using assms by (induction ops arbitrary: g) (fastforce simp: bindR_Inr dest: exec_refines)+

section \<open>When undo cannot fail\<close>

definition share :: "('v, 'k) skeys \<Rightarrow> 'v \<Rightarrow> 'v \<Rightarrow> bool" where
  "share sk v w \<longleftrightarrow> (\<exists>k \<in> set (sk v). k \<in> set (sk w))"

definition unique_keys :: "('v, 'k) skeys \<Rightarrow> (int \<times> 'v) list \<Rightarrow> bool" where
  "unique_keys sk m \<longleftrightarrow>
     (\<forall>i j v w. fm_find i m = Some v \<longrightarrow> fm_find j m = Some w \<longrightarrow> i \<noteq> j \<longrightarrow> \<not> share sk v w)"

definition stable_keys :: "('v, 'k) skeys \<Rightarrow> 'v undo_state \<Rightarrow> (int \<times> 'v) list \<Rightarrow> bool" where
  "stable_keys sk u m \<longleftrightarrow>
     (\<forall>i v w. fm_find i (old_values u) = Some v \<longrightarrow> fm_find i m = Some w \<longrightarrow> sk v = sk w)"

definition keys_within :: "('v, 'k) skeys \<Rightarrow> (int \<times> 'v) list \<Rightarrow> (int \<times> 'v) list \<Rightarrow> bool" where
  "keys_within sk m m0 \<longleftrightarrow>
     (\<forall>i w. fm_find i m = Some w \<longrightarrow> (\<exists>v. fm_find i m0 = Some v \<and> sk v = sk w))"

fun keys_ok :: "('v, 'k) skeys \<Rightarrow> 'v undo_state list \<Rightarrow> (int \<times> 'v) list \<Rightarrow> bool" where
  "keys_ok sk [] m = unique_keys sk m"
| "keys_ok sk (u # us) m =
     (unique_keys sk m \<and> stable_keys sk u m \<and> keys_ok sk us (apply_undo u m))"

lemma keys_ok_unique: "keys_ok sk us m \<Longrightarrow> unique_keys sk m"
  by (cases us) auto

lemma keys_ok_take: "keys_ok sk us m \<Longrightarrow> keys_ok sk (take j us) m"
  by (induction us arbitrary: j m) (auto simp: take_Cons split: nat.splits)

lemma collides_find:
  "fm_ok m \<Longrightarrow> collides sk m i v \<longleftrightarrow> (\<exists>j w. fm_find j m = Some w \<and> j \<noteq> i \<and> share sk v w)"
  unfolding collides_def share_def
  by (auto dest: fm_find_Some_in_set fm_in_set_find)

lemma no_collision_within:
  assumes "fm_ok m" and "unique_keys sk m0" and "keys_within sk m m0" and "fm_find i m0 = Some v"
  shows "\<not> collides sk m i v"
proof
  assume "collides sk m i v"
  then obtain j w where j: "fm_find j m = Some w" "j \<noteq> i" "share sk v w"
    using collides_find [OF assms(1)] by blast
  then obtain w' where w': "fm_find j m0 = Some w'" "sk w' = sk w"
    using assms(3) by (auto simp: keys_within_def)
  then have "share sk v w'" using j(3) by (simp add: share_def)
  then show False
    using assms(2,4) w'(1) j(2) by (auto simp: unique_keys_def)
qed

lemma keys_within_set:
  "keys_within sk m m0 \<Longrightarrow> fm_find i m0 = Some v \<Longrightarrow> keys_within sk (fm_set i v m) m0"
  by (simp add: keys_within_def fm_find_set)

lemma foldR_undo_new:
  "distinct l \<Longrightarrow> \<forall>i \<in> set l. fm_find i m \<noteq> None \<Longrightarrow>
   foldR undo_new l m = Inr (fold fm_erase l m)"
proof (induction l arbitrary: m)
  case (Cons i l)
  then obtain v where "fm_find i m = Some v" by auto
  moreover from this have "undo_new i m = Inr (fm_erase i m)"
    by (simp add: undo_new_def deref_def bindR_def)
  moreover have "\<forall>j \<in> set l. fm_find j (fm_erase i m) \<noteq> None"
    using Cons.prems by (metis distinct.simps(2) fm_find_erase list.set_intros(2))
  ultimately show ?case
    using Cons.IH [of "fm_erase i m"] Cons.prems(1) by (simp add: bindR_def)
qed simp

lemma foldR_undo_old:
  "fm_ok m \<Longrightarrow> unique_keys sk m0 \<Longrightarrow> keys_within sk m m0 \<Longrightarrow>
   \<forall>(i, v) \<in> set l. fm_find i m \<noteq> None \<and> fm_find i m0 = Some v \<Longrightarrow>
   foldR (undo_old sk) l m = Inr (fold (\<lambda>p. fm_set (fst p) (snd p)) l m) \<and>
   keys_within sk (fold (\<lambda>p. fm_set (fst p) (snd p)) l m) m0"
proof (induction l arbitrary: m)
  case (Cons p l)
  obtain i v where p: "p = (i, v)" by force
  obtain w where w: "fm_find i m = Some w" "fm_find i m0 = Some v" using Cons.prems p by auto
  have "undo_old sk p m = Inr (fm_set i v m)"
    using no_collision_within [OF Cons.prems(1-3) w(2)] w
    by (simp add: undo_old_def p deref_def bindR_def)
  moreover have "\<forall>(j, x) \<in> set l. fm_find j (fm_set i v m) \<noteq> None \<and> fm_find j m0 = Some x"
    using Cons.prems(4) by (auto simp: fm_find_set)
  ultimately show ?case
    using Cons.IH [OF fm_ok_set [OF Cons.prems(1)] Cons.prems(2) keys_within_set [OF Cons.prems(3) w(2)]]
    by (simp add: p bindR_def)
qed simp

lemma foldR_undo_removed:
  "fm_ok m \<Longrightarrow> unique_keys sk m0 \<Longrightarrow> keys_within sk m m0 \<Longrightarrow> distinct (map fst l) \<Longrightarrow>
   \<forall>(i, v) \<in> set l. fm_find i m = None \<and> fm_find i m0 = Some v \<Longrightarrow>
   foldR (undo_removed sk) l m = Inr (fold (\<lambda>p. fm_set (fst p) (snd p)) l m)"
proof (induction l arbitrary: m)
  case (Cons p l)
  obtain i v where p: "p = (i, v)" by force
  have w: "fm_find i m = None" "fm_find i m0 = Some v" using Cons.prems p by auto
  have "undo_removed sk p m = Inr (fm_set i v m)"
    using no_collision_within [OF Cons.prems(1-3) w(2)] w
    by (simp add: undo_removed_def p)
  moreover have "\<forall>(j, x) \<in> set l. fm_find j (fm_set i v m) = None \<and> fm_find j m0 = Some x"
    using Cons.prems(4,5) by (force simp: fm_find_set p)
  ultimately show ?case
    using Cons.IH [OF fm_ok_set [OF Cons.prems(1)] Cons.prems(2) keys_within_set [OF Cons.prems(3) w(2)]]
      Cons.prems(4)
    by (simp add: p bindR_def)
qed simp

lemma undo_succeeds:
  assumes "index_ok g" and "keys_ok sk (stack g) (indices g)"
  shows "\<exists>g'. undo sk g = Inr g'"
proof (cases "stack g")
  case (Cons u us)
  let ?m = "indices g" and ?snap = "apply_undo u (indices g)"
  let ?first = "fold fm_erase (new_ids u) ?m"
  let ?second = "fold (\<lambda>p. fm_set (fst p) (snd p)) (old_values u) ?first"
  have wf: "wf_undo u ?m (next_id g)" and b: "ids_below ?m (next_id g)"
    using assms(1) Cons by (simp_all add: index_ok_def)
  note f = find_apply_undo [OF wf]
  have ok: "fm_ok ?m" "fm_ok (old_values u)" "fm_ok (removed_values u)" "fs_ok (new_ids u)"
    using b wf by (simp_all add: ids_below_def wf_undo_def)
  have wf': "\<And>i v. fm_find i (old_values u) = Some v \<Longrightarrow> fm_find i ?m \<noteq> None"
    "\<And>i v. fm_find i (removed_values u) = Some v \<Longrightarrow> fm_find i ?m = None"
    "\<And>i. i \<in> set (new_ids u) \<Longrightarrow> fm_find i ?m \<noteq> None"
    "\<And>i. i \<in> set (new_ids u) \<Longrightarrow> fm_find i (old_values u) = None \<and> fm_find i (removed_values u) = None"
    using wf wf_undo_new_fresh [OF wf] by (auto simp: wf_undo_def)
  have u: "unique_keys sk ?snap" and st: "stable_keys sk u ?m"
    using assms(2) Cons keys_ok_unique by auto
  have dl: "distinct (new_ids u)" using ok(4) by (simp add: fs_ok_def strict_sorted_iff)
  have 1: "foldR undo_new (new_ids u) ?m = Inr ?first"
    using wf'(3) dl by (simp add: foldR_undo_new)
  have w1: "keys_within sk ?first ?snap"
    unfolding keys_within_def
  proof (intro allI impI)
    fix i w
    assume "fm_find i ?first = Some w"
    then have i: "i \<notin> set (new_ids u)" "fm_find i ?m = Some w"
      by (simp_all add: find_fold_erase split: if_splits)
    then have "fm_find i (removed_values u) = None"
      using wf'(2) [of i] by (cases "fm_find i (removed_values u)") auto
    then show "\<exists>v. fm_find i ?snap = Some v \<and> sk v = sk w"
      using i st by (cases "fm_find i (old_values u)") (auto simp: f stable_keys_def)
  qed
  have "\<forall>(i, v) \<in> set (old_values u). fm_find i ?first \<noteq> None \<and> fm_find i ?snap = Some v"
  proof clarify
    fix i v
    assume "(i, v) \<in> set (old_values u)"
    then have o: "fm_find i (old_values u) = Some v" using ok(2) by (simp add: fm_in_set_find)
    then have "fm_find i (removed_values u) = None" "i \<notin> set (new_ids u)" "fm_find i ?m \<noteq> None"
      using wf'(1,2,4) [of i] by (cases "fm_find i (removed_values u)"; auto)+
    with o show "fm_find i ?first \<noteq> None \<and> fm_find i ?snap = Some v"
      by (simp add: f find_fold_erase)
  qed
  note 2 = foldR_undo_old [OF ok_fold_erase [OF ok(1)] u w1 this]
  have "\<forall>(i, v) \<in> set (removed_values u). fm_find i ?second = None \<and> fm_find i ?snap = Some v"
  proof clarify
    fix i v
    assume "(i, v) \<in> set (removed_values u)"
    then have o: "fm_find i (removed_values u) = Some v" using ok(3) by (simp add: fm_in_set_find)
    then have "fm_find i (old_values u) = None" "fm_find i ?m = None"
      using wf'(1,2) [of i] by (cases "fm_find i (old_values u)"; auto)+
    with o show "fm_find i ?second = None \<and> fm_find i ?snap = Some v"
      by (simp add: f find_fold_set [OF fm_ok_distinct [OF ok(2)]] find_fold_erase)
  qed
  note 3 = foldR_undo_removed [OF ok_fold_set [OF ok_fold_erase [OF ok(1)]] u conjunct2 [OF 2]
      fm_ok_distinct [OF ok(3)] this]
  show ?thesis
    using 1 2 3 Cons by (simp add: undo_def bindR_def)
qed (simp add: undo_def)

lemma unique_keys_set:
  assumes "fm_ok m" and "unique_keys sk m" and "\<not> collides sk m i v"
  shows "unique_keys sk (fm_set i v m)"
proof -
  have "\<And>j w. fm_find j m = Some w \<Longrightarrow> j \<noteq> i \<Longrightarrow> \<not> share sk v w \<and> \<not> share sk w v"
    using assms(3) by (auto simp: collides_find [OF assms(1)] share_def)
  then show ?thesis
    using assms(2) by (auto simp: unique_keys_def fm_find_set)
qed

lemma unique_keys_erase: "unique_keys sk m \<Longrightarrow> unique_keys sk (fm_erase i m)"
  by (auto simp: unique_keys_def fm_find_erase split: if_splits)

lemma keys_ok_on_head:
  assumes "index_ok g" and "keys_ok sk (stack g) (indices g)" and "unique_keys sk m'"
    and "\<And>u. wf_undo u (indices g) (next_id g) \<Longrightarrow> keeps_snapshot f u (indices g) m' n'"
    and "\<And>u. wf_undo u (indices g) (next_id g) \<Longrightarrow> stable_keys sk u (indices g) \<Longrightarrow>
           stable_keys sk (f u) m'"
  shows "keys_ok sk (case stack g of [] \<Rightarrow> [] | u # us \<Rightarrow> f u # us) m'"
  using assms by (cases "stack g") (auto simp: index_ok_def keeps_snapshot_def)

definition stable_op :: "('v, 'k) skeys \<Rightarrow> 'v store_op \<Rightarrow> bool" where
  "stable_op sk op = (case op of Modify i f \<Rightarrow> \<forall>v. sk (f v) = sk v | _ \<Rightarrow> True)"

definition store_ok :: "('v, 'k) skeys \<Rightarrow> 'v generic_index \<Rightarrow> bool" where
  "store_ok sk g \<longleftrightarrow> index_ok g \<and> keys_ok sk (stack g) (indices g)"

lemma keys_emplace:
  assumes "store_ok sk g" and "emplace sk c g = Inr (g', i)"
  shows "keys_ok sk (stack g') (indices g')"
proof -
  let ?n = "next_id g" and ?v = "c (next_id g)"
  have ok: "index_ok g" "keys_ok sk (stack g) (indices g)" using assms by (simp_all add: store_ok_def)
  note b = index_ok_ids_below [OF ok(1)]
  have g': "g' = on_head (on_create ?n) (g\<lparr>indices := fm_set ?n ?v (indices g), next_id := ?n + 1\<rparr>)"
    and c: "\<not> collides sk (indices g) ?n ?v"
    using assms(2) by (auto simp: emplace_def Let_def split: if_splits)
  have "unique_keys sk (fm_set ?n ?v (indices g))"
    using b c ok(2) by (simp add: unique_keys_set ids_below_def keys_ok_unique)
  moreover have "stable_keys sk (on_create ?n u) (fm_set ?n ?v (indices g))"
    if "wf_undo u (indices g) ?n" "stable_keys sk u (indices g)" for u
  proof -
    have "fm_find ?n (old_values u) = None"
      using that(1) ids_below_fresh [OF b] unfolding wf_undo_def by metis
    with that(2) show ?thesis
      by (simp add: stable_keys_def on_create_def fm_find_set)
  qed
  ultimately show ?thesis
    using keys_ok_on_head [OF ok _ keeps_create [OF _ b]] by (simp add: g')
qed

lemma keys_modify:
  assumes "store_ok sk g" and "modify sk i f g = Inr g'" and "\<forall>v. sk (f v) = sk v"
  shows "keys_ok sk (stack g') (indices g')"
proof -
  have ok: "index_ok g" "keys_ok sk (stack g) (indices g)" using assms by (simp_all add: store_ok_def)
  note b = index_ok_ids_below [OF ok(1)]
  obtain v where v: "fm_find i (indices g) = Some v" and c: "\<not> collides sk (indices g) i (f v)"
    and g': "g' = (on_head (on_modify i v) g)\<lparr>indices := fm_set i (f v) (indices g)\<rparr>"
    using assms(2) by (auto simp: modify_def bindR_Inr split: if_splits)
  have "unique_keys sk (fm_set i (f v) (indices g))"
    using b c ok(2) by (simp add: unique_keys_set ids_below_def keys_ok_unique)
  moreover have "stable_keys sk (on_modify i v u) (fm_set i (f v) (indices g))"
    if "wf_undo u (indices g) (next_id g)" "stable_keys sk u (indices g)" for u
    using that assms(3) v
    by (auto simp: stable_keys_def on_modify_def fm_find_set fm_find_emplace)
  ultimately show ?thesis
    using keys_ok_on_head [OF ok _ keeps_modify [OF _ b v]] by (simp add: g')
qed

lemma keys_remove:
  assumes "store_ok sk g" and "remove_obj i g = Inr g'"
  shows "keys_ok sk (stack g') (indices g')"
proof -
  have ok: "index_ok g" "keys_ok sk (stack g) (indices g)" using assms by (simp_all add: store_ok_def)
  note b = index_ok_ids_below [OF ok(1)]
  obtain v where v: "fm_find i (indices g) = Some v"
    and g': "g' = (on_head (on_remove i v) g)\<lparr>indices := fm_erase i (indices g)\<rparr>"
    using assms(2) by (auto simp: remove_obj_def bindR_Inr)
  have "unique_keys sk (fm_erase i (indices g))"
    using ok(2) by (simp add: unique_keys_erase keys_ok_unique)
  moreover have "stable_keys sk (on_remove i v u) (fm_erase i (indices g))"
    if "wf_undo u (indices g) (next_id g)" "stable_keys sk u (indices g)" for u
    using that(2) v
    by (auto simp: stable_keys_def on_remove_def fm_find_erase split: option.split if_splits)
  ultimately show ?thesis
    using keys_ok_on_head [OF ok _ keeps_remove [OF _ b v]] by (simp add: g')
qed

lemma stable_keys_squash:
  assumes s: "wf_undo s m n" and p: "wf_undo p (apply_undo s m) (old_next_id s)"
    and "stable_keys sk s m" and "stable_keys sk p (apply_undo s m)"
  shows "stable_keys sk (squash_states s p) m"
  unfolding stable_keys_def
proof (intro allI impI)
  fix i v w
  assume v: "fm_find i (old_values (squash_states s p)) = Some v" and w: "fm_find i m = Some w"
  have none: "fm_find i (removed_values s) = None"
    using s w unfolding wf_undo_def by (metis option.distinct(1))
  note f = find_apply_undo [OF s, of i]
  have fs: "i \<in> set (new_ids s) \<Longrightarrow> old_next_id s \<le> i"
    and fp: "fm_find i (old_values p) \<noteq> None \<Longrightarrow> i < old_next_id p" "old_next_id p \<le> old_next_id s"
    using s p by (auto simp: wf_undo_def)
  show "sk v = sk w"
    using v w none f assms(3,4) fs fp unfolding squash_states_kept [OF s none]
    by (auto simp: stable_keys_def split: option.splits if_splits)
qed

lemma keys_squash: "store_ok sk g \<Longrightarrow> keys_ok sk (stack (squash g)) (indices (squash g))"
proof (cases "stack g" rule: remdups_adj.cases)
  case (3 s p us)
  assume "store_ok sk g"
  then have s: "wf_undo s (indices g) (next_id g)" and
    p: "wf_undo p (apply_undo s (indices g)) (old_next_id s)" and
    m: "fm_ok (indices g)" and k: "keys_ok sk (s # p # us) (indices g)"
    using 3 by (simp_all add: store_ok_def index_ok_def ids_below_def)
  show ?thesis
    using k by (simp add: squash_def 3 apply_undo_squash [OF s p m] stable_keys_squash [OF s p])
qed (auto simp: store_ok_def squash_def)

lemma exec_complete:
  assumes "store_ok sk g" and "stable_op sk op" and "spec_exec sk op (abs_store g) = Inr s"
  shows "\<exists>g'. exec sk op g = Inr g' \<and> store_ok sk g' \<and> abs_store g' = s"
proof -
  have ok: "index_ok g" "keys_ok sk (stack g) (indices g)" using assms by (simp_all add: store_ok_def)
  have "\<exists>g'. exec sk op g = Inr g' \<and> keys_ok sk (stack g') (indices g')"
  proof (cases op)
    case (Emplace c)
    then show ?thesis
      using assms emplace_refines(1) [OF ok(1), of sk c]
      by (auto simp: bindR_def keys_emplace split: sum.splits prod.splits)
  next
    case (Modify i f)
    then obtain g' where g': "modify sk i f g = Inr g'"
      using assms modify_refines(1) [OF ok(1), of sk i f] by (cases "modify sk i f g") auto
    then show ?thesis
      using keys_modify [OF assms(1) g'] assms(2) Modify by (simp add: stable_op_def)
  next
    case (Remove i)
    then obtain g' where g': "remove_obj i g = Inr g'"
      using assms remove_refines(1) [OF ok(1), of i] by (cases "remove_obj i g") auto
    then show ?thesis
      using keys_remove [OF assms(1) g'] Remove by simp
  next
    case Start
    then show ?thesis
      using ok(2) by (simp add: start_undo_session_def stable_keys_def apply_undo_nothing keys_ok_unique)
  next
    case Undo
    obtain g' where g': "undo sk g = Inr g'" using undo_succeeds [OF ok] by auto
    then show ?thesis
      using Undo ok(2) undo_loops_apply [OF g'] by (cases "stack g") (auto simp: undo_def)
  next
    case Squash
    then show ?thesis using keys_squash [OF assms(1)] by simp
  next
    case (Commit rv)
    then show ?thesis
      using ok(2) by (simp add: commit_def rev_dropWhile_take keys_ok_take)
  qed
  then show ?thesis
    using exec_refines [OF ok(1), of sk op] assms(3) by (fastforce simp: store_ok_def)
qed

lemma run_complete:
  assumes "store_ok sk g" and "list_all (stable_op sk) ops"
    and "foldR (spec_exec sk) ops (abs_store g) = Inr s"
  shows "\<exists>g'. foldR (exec sk) ops g = Inr g' \<and> store_ok sk g' \<and> abs_store g' = s"
  using assms
proof (induction ops arbitrary: g)
  case (Cons op ops)
  then obtain s' where s': "spec_exec sk op (abs_store g) = Inr s'"
    "foldR (spec_exec sk) ops s' = Inr s"
    by (auto simp: bindR_Inr)
  obtain g1 where "exec sk op g = Inr g1" "store_ok sk g1" "abs_store g1 = s'"
    using exec_complete [OF Cons.prems(1) _ s'(1)] Cons.prems(2) by auto
  then show ?case
    using Cons.IH [of g1] Cons.prems(2) s'(2) by (auto simp: bindR_def)
qed simp

lemma store_ok_empty: "store_ok sk generic_index_empty"
  by (simp add: store_ok_def index_ok_empty) (simp add: generic_index_empty_def unique_keys_def)

definition snapshot_empty :: "'v snapshot_store" where
  "snapshot_empty = \<lparr>cur = [], nxt = 0, rvn = 0, saved = []\<rparr>"

lemma abs_store_empty: "abs_store generic_index_empty = snapshot_empty"
  by (simp add: abs_store_def generic_index_empty_def snapshot_empty_def)

text \<open>
  C1: any sequence of creations, modifications, removals, session starts, undos, squashes and commits
  that runs to its end on an empty index leaves the state that the snapshot store reaches with the
  same operations: the change records restore exactly the copies a naive implementation would keep.
\<close>

theorem index_run_refines_snapshots:
  "foldR (exec sk) ops generic_index_empty = Inr g \<Longrightarrow>
   foldR (spec_exec sk) ops snapshot_empty = Inr (abs_store g)"
  using run_refines [OF index_ok_empty, of sk ops g] by (simp add: abs_store_empty)

theorem index_run_refines_snapshots_witness:
  "foldR (spec_exec (\<lambda>v :: nat. [v]))
     [Emplace (\<lambda>_. 7), Start, Modify 0 (\<lambda>v. v + 1), Emplace (\<lambda>_. 7), Start, Remove 1, Squash, Undo]
     snapshot_empty = Inr \<lparr>cur = [(0, 7)], nxt = 1, rvn = 0, saved = []\<rparr>"
proof -
  let ?ops = "[Emplace (\<lambda>_. 7), Start, Modify 0 (\<lambda>v. v + 1), Emplace (\<lambda>_. 7), Start, Remove 1, Squash, Undo]"
  let ?g = "\<lparr>stack = [], revision = 0, next_id = 1, indices = [(0, 7)]\<rparr> :: nat generic_index"
  have "foldR (exec (\<lambda>v. [v])) ?ops generic_index_empty = Inr ?g"
    by code_simp
  from index_run_refines_snapshots [OF this] show ?thesis
    by (simp add: abs_store_def)
qed

text \<open>
  C13: when no modifier changes the unique keys of an object, the index succeeds wherever the snapshot
  store does: undo never runs into the uniqueness abort, and the two stores agree.
\<close>

theorem index_run_complete:
  "list_all (stable_op sk) ops \<Longrightarrow> foldR (spec_exec sk) ops snapshot_empty = Inr s \<Longrightarrow>
   \<exists>g. foldR (exec sk) ops generic_index_empty = Inr g \<and> abs_store g = s"
  using run_complete [OF store_ok_empty, of sk ops s] by (auto simp: abs_store_empty)

theorem index_run_complete_witness:
  "\<exists>g. foldR (exec (\<lambda>v :: nat \<times> nat. [fst v]))
     [Emplace (\<lambda>_. (1, 5)), Start, Modify 0 (\<lambda>v. (fst v, 6)), Remove 0, Emplace (\<lambda>_. (1, 9)), Undo]
     generic_index_empty = Inr g \<and>
     abs_store g = \<lparr>cur = [(0, (1, 5))], nxt = 1, rvn = 0, saved = []\<rparr>"
  by (rule index_run_complete) (simp add: stable_op_def, code_simp)

end
