(* ===== verification/Database.thy ===== *)
theory Database
  imports Chainbase
begin

text \<open>
  The database that drives all indices together (\<^verbatim>\<open>chainbase.hpp\<close>, \<^verbatim>\<open>chainbase.cpp\<close>): it opens
  and closes sessions on every index at once, and adds an index so that its undo stack has the
  revisions of the others. The objects of different indices are taken from one value type; the
  segment manager that finds a stored index by its type name is outside the model, and what it
  found is an argument of \<open>add_index\<close>.
\<close>

section \<open>Sessions of one index\<close>

record ix_session =
  s_apply :: bool
  s_revision :: int

definition ix_session_ctor :: "int \<Rightarrow> ix_session" where
  "ix_session_ctor rv = \<lparr>s_apply = (rv \<noteq> -1), s_revision = rv\<rparr>"

text \<open>
  Moving a session hands over the duty to undo. The move constructor does not name
  \<^verbatim>\<open>_revision\<close>, so the new object has the default 0. The pair is the new and the old object.
\<close>

definition ix_session_move :: "ix_session \<Rightarrow> ix_session \<times> ix_session" where
  "ix_session_move mv = (\<lparr>s_apply = s_apply mv, s_revision = 0\<rparr>, mv\<lparr>s_apply := False\<rparr>)"

definition ix_push :: "ix_session \<Rightarrow> ix_session" where
  "ix_push s = s\<lparr>s_apply := False\<rparr>"

definition ix_squash :: "ix_session \<Rightarrow> 'v generic_index \<Rightarrow> ix_session \<times> 'v generic_index" where
  "ix_squash s g = (s\<lparr>s_apply := False\<rparr>, if s_apply s then squash g else g)"

definition ix_undo :: "('v, 'k) skeys \<Rightarrow> ix_session \<Rightarrow> 'v generic_index \<Rightarrow> (ix_session \<times> 'v generic_index) result" where
  "ix_undo sk s g =
     bindR (if s_apply s then undo sk g else Inr g) (\<lambda>g'. Inr (s\<lparr>s_apply := False\<rparr>, g'))"

text \<open>Move assignment undoes what the target session still held.\<close>

definition ix_assign :: "('v, 'k) skeys \<Rightarrow> ix_session \<Rightarrow> ix_session \<Rightarrow> 'v generic_index \<Rightarrow>
    (ix_session \<times> ix_session \<times> 'v generic_index) result" where
  "ix_assign sk s mv g =
     bindR (if s_apply s then undo sk g else Inr g) (\<lambda>g'.
       Inr (s\<lparr>s_apply := s_apply mv\<rparr>, mv\<lparr>s_apply := False\<rparr>, g'))"

text \<open>\<^verbatim>\<open>index_impl::start_undo_session\<close> wraps the session, which moves it once.\<close>

definition impl_start_undo_session :: "bool \<Rightarrow> 'v generic_index \<Rightarrow> 'v generic_index \<times> ix_session" where
  "impl_start_undo_session enable g =
     (let (g', rv) = start_undo_session enable g
      in (g', fst (ix_session_move (ix_session_ctor rv))))"

section \<open>The database\<close>

record 'v database =
  read_only :: bool
  index_list :: "(nat \<times> 'v generic_index) list"

record db_session =
  index_sessions :: "ix_session list"
  db_session_revision :: int

definition on_indices :: "('v generic_index \<Rightarrow> 'v generic_index result) \<Rightarrow> 'v database \<Rightarrow> 'v database result" where
  "on_indices f db =
     bindR (mapR (\<lambda>(t, g). bindR (f g) (\<lambda>g'. Inr (t, g'))) (index_list db))
       (\<lambda>l. Inr (db\<lparr>index_list := l\<rparr>))"

definition on_indices_of :: "nat \<Rightarrow> ('v generic_index \<Rightarrow> 'v generic_index result) \<Rightarrow> 'v database \<Rightarrow>
    'v database result" where
  "on_indices_of t f db =
     bindR (mapR (\<lambda>(t', g). if t' = t then bindR (f g) (\<lambda>g'. Inr (t', g')) else Inr (t', g)) (index_list db))
       (\<lambda>l. Inr (db\<lparr>index_list := l\<rparr>))"

definition db_undo :: "('v, 'k) skeys \<Rightarrow> 'v database \<Rightarrow> 'v database result" where
  "db_undo sk = on_indices (undo sk)"

definition db_squash :: "'v database \<Rightarrow> 'v database result" where
  "db_squash = on_indices (\<lambda>g. Inr (squash g))"

definition db_commit :: "int \<Rightarrow> 'v database \<Rightarrow> 'v database result" where
  "db_commit rv = on_indices (\<lambda>g. Inr (commit rv g))"

definition db_undo_all :: "('v, 'k) skeys \<Rightarrow> 'v database \<Rightarrow> 'v database result" where
  "db_undo_all sk = on_indices (undo_all sk)"

definition db_set_revision :: "int \<Rightarrow> 'v database \<Rightarrow> 'v database result" where
  "db_set_revision rv = on_indices (set_revision rv)"

definition db_revision :: "'v database \<Rightarrow> int" where
  "db_revision db = (case index_list db of [] \<Rightarrow> -1 | (t, g) # rest \<Rightarrow> revision g)"

definition db_session_ctor :: "ix_session list \<Rightarrow> db_session" where
  "db_session_ctor ss =
     \<lparr>index_sessions = ss,
      db_session_revision = (case ss of [] \<Rightarrow> -1 | s # rest \<Rightarrow> s_revision s)\<rparr>"

definition db_start_undo_session :: "bool \<Rightarrow> 'v database \<Rightarrow> 'v database \<times> db_session" where
  "db_start_undo_session enable db =
     (if enable then
        (let rs = map (\<lambda>(t, g). (t, impl_start_undo_session enable g)) (index_list db)
         in (db\<lparr>index_list := map (\<lambda>(t, g, s). (t, g)) rs\<rparr>, db_session_ctor (map (\<lambda>(t, g, s). s) rs)))
      else (db, \<lparr>index_sessions = [], db_session_revision = -1\<rparr>))"

definition session_push :: "db_session \<Rightarrow> db_session" where
  "session_push s = s\<lparr>index_sessions := []\<rparr>"

definition session_squash :: "db_session \<Rightarrow> 'v database \<Rightarrow> db_session \<times> 'v database" where
  "session_squash s db =
     (s\<lparr>index_sessions := []\<rparr>,
      db\<lparr>index_list := map (\<lambda>(x, t, g). (t, snd (ix_squash x g))) (zip (index_sessions s) (index_list db))
           @ drop (length (index_sessions s)) (index_list db)\<rparr>)"

text \<open>Also the destructor of the session.\<close>

definition session_undo :: "('v, 'k) skeys \<Rightarrow> db_session \<Rightarrow> 'v database \<Rightarrow> (db_session \<times> 'v database) result" where
  "session_undo sk s db =
     bindR (mapR (\<lambda>(x, t, g). bindR (ix_undo sk x g) (\<lambda>r. Inr (t, snd r)))
         (zip (index_sessions s) (index_list db)))
       (\<lambda>l. Inr (s\<lparr>index_sessions := []\<rparr>,
                 db\<lparr>index_list := l @ drop (length (index_sessions s)) (index_list db)\<rparr>))"

text \<open>The loop of \<^verbatim>\<open>add_index\<close>: open and push sessions until the revision is reached.\<close>

function catch_up :: "int \<Rightarrow> 'v generic_index \<Rightarrow> 'v generic_index" where
  "catch_up rv g = (if revision g < rv then catch_up rv (fst (start_undo_session True g)) else g)"
  by pat_completeness auto
termination
  by (relation "measure (\<lambda>(rv, g). nat (rv - revision g))") (auto simp: start_undo_session_def)

declare catch_up.simps [simp del]

text \<open>The cast \<^verbatim>\<open>static_cast<uint64_t>\<close> of an \<^verbatim>\<open>int64_t\<close>.\<close>

definition int64_to_u64 :: "int \<Rightarrow> int" where
  "int64_to_u64 x = (if x < 0 then x + 2 ^ 64 else x)"

definition add_index :: "nat \<Rightarrow> 'v generic_index option \<Rightarrow> 'v database \<Rightarrow> 'v database result" where
  "add_index type_id found db =
     (if \<exists>(t, g) \<in> set (index_list db). t = type_id then Inl std_logic_error
      else if found = None \<and> read_only db then Inl std_runtime_error
      else
        let idx = (case found of Some g \<Rightarrow> g | None \<Rightarrow> generic_index_empty)
        in bindR
          (case index_list db of
             [] \<Rightarrow> Inr idx
           | (t0, front) # rest \<Rightarrow>
               let expected = undo_stack_revision_range front; added = undo_stack_revision_range idx
               in if added = expected then Inr idx
                  else if found \<noteq> None then Inl std_logic_error
                  else if read_only db then Inl std_logic_error
                  else bindR (set_revision (int64_to_u64 (fst expected)) idx) (\<lambda>g.
                    Inr (catch_up (snd expected) g)))
          (\<lambda>g. Inr (db\<lparr>index_list := index_list db @ [(type_id, g)]\<rparr>)))"

section \<open>All indices carry the same revisions\<close>

definition sync_with :: "int \<Rightarrow> nat \<Rightarrow> 'v generic_index \<Rightarrow> bool" where
  "sync_with r n g \<longleftrightarrow>
     revision g = r \<and> length (stack g) = n \<and> int n \<le> r \<and>
     map us_revision (stack g) = map (\<lambda>i. r - int i) [0..<n]"

definition in_sync :: "'v database \<Rightarrow> bool" where
  "in_sync db = (case index_list db of
       [] \<Rightarrow> True
     | (t, g0) # rest \<Rightarrow> list_all (\<lambda>(t, g). sync_with (revision g0) (length (stack g0)) g) (index_list db))"

lemma in_sync_iff: "in_sync db \<longleftrightarrow> (\<exists>r n. \<forall>(t, g) \<in> set (index_list db). sync_with r n g)"
  by (auto simp: in_sync_def list_all_iff sync_with_def split: list.splits)

lemma upt_shift: "map (\<lambda>i. r - int i) [0..<Suc n] = r # map (\<lambda>i. r - 1 - int i) [0..<n]"
  by (subst upt_conv_Cons) (simp_all add: map_Suc_upt [symmetric] del: upt_Suc)

lemma sync_start: "sync_with r n g \<Longrightarrow> sync_with (r + 1) (Suc n) (fst (start_undo_session True g))"
  unfolding sync_with_def upt_shift by (simp add: start_undo_session_def)

lemma sync_pop:
  assumes "sync_with r n g" and "map us_revision (stack g') = tl (map us_revision (stack g))"
    and "revision g' = (if stack g = [] then r else r - 1)"
  shows "sync_with (if n = 0 then r else r - 1) (n - 1) g'"
proof (cases n)
  case (Suc k)
  then have m: "map us_revision (stack g) = r # map (\<lambda>i. r - 1 - int i) [0..<k]"
    using assms(1) unfolding sync_with_def upt_shift [symmetric] by simp
  then have m': "map us_revision (stack g') = map (\<lambda>i. r - 1 - int i) [0..<k]"
    using assms(2) by simp
  then have "length (stack g') = k"
    by (metis diff_zero length_map length_upt)
  moreover have "stack g \<noteq> []" using m by auto
  moreover have "int k \<le> r - 1" using assms(1) Suc by (simp add: sync_with_def)
  ultimately show ?thesis
    using assms(3) m' Suc by (simp add: sync_with_def)
qed (use assms in \<open>auto simp: sync_with_def\<close>)

lemma sync_undo:
  assumes "sync_with r n g" and "undo sk g = Inr g'"
  shows "sync_with (if n = 0 then r else r - 1) (n - 1) g'"
  by (rule sync_pop [OF assms(1)])
    (use assms in \<open>auto simp: sync_with_def undo_def bindR_Inr split: list.splits\<close>)

lemma fold_squash_revision:
  "us_revision (fold squash_old l p) = us_revision p"
  "us_revision (fold squash_new l' p) = us_revision p"
  "us_revision (fold squash_removed l p) = us_revision p"
proof -
  show "us_revision (fold squash_old l p) = us_revision p"
    by (induction l arbitrary: p) (auto simp: squash_old_def)
qed (simp_all add: fold_squash_removed_frame fold_squash_new(5) [OF refl])

lemma squash_states_revision [simp]: "us_revision (squash_states s p) = us_revision p"
  by (simp add: squash_states_def fold_squash_revision)

lemma sync_squash:
  assumes "sync_with r n g"
  shows "sync_with (if n = 0 then r else r - 1) (n - 1) (squash g)"
proof (rule sync_pop [OF assms])
  have "revision g = r" using assms by (simp add: sync_with_def)
  then show "revision (squash g) = (if stack g = [] then r else r - 1)"
    by (simp add: squash_def split: list.split)
qed (simp add: squash_def split: list.split)

definition commit_depth :: "int \<Rightarrow> int \<Rightarrow> nat \<Rightarrow> nat" where
  "commit_depth rv r n = length (dropWhile (\<lambda>x. x \<le> rv) (rev (map (\<lambda>i. r - int i) [0..<n])))"

lemma sync_take:
  assumes "sync_with r n g" and "stack g' = take j (stack g)" and "revision g' = revision g"
  shows "sync_with r (length (stack g')) g'"
proof -
  have "map us_revision (stack g') = take j (map (\<lambda>i. r - int i) [0..<n])"
    using assms(1,2) by (simp add: sync_with_def flip: take_map)
  also have "\<dots> = map (\<lambda>i. r - int i) [0..<length (stack g')]"
    using assms(1,2) by (auto simp: sync_with_def take_map min_def)
  finally show ?thesis
    using assms by (auto simp: sync_with_def)
qed

lemma sync_commit:
  assumes "sync_with r n g"
  shows "sync_with r (commit_depth rv r n) (commit rv g)"
proof -
  have "length (stack (commit rv g)) = length (dropWhile (\<lambda>x. x \<le> rv) (rev (map us_revision (stack g))))"
    by (simp add: commit_def rev_map dropWhile_map comp_def)
  also have "\<dots> = commit_depth rv r n"
    using assms by (simp add: commit_depth_def sync_with_def)
  finally have len: "length (stack (commit rv g)) = commit_depth rv r n" .
  have "sync_with r (length (stack (commit rv g))) (commit rv g)"
    by (rule sync_take [OF assms, where j = "length (stack g) -
          length (takeWhile (\<lambda>u. us_revision u \<le> rv) (rev (stack g)))"])
      (simp_all add: commit_def rev_dropWhile_take)
  then show ?thesis by (simp only: len)
qed

lemma sync_undo_all:
  "sync_with r n g \<Longrightarrow> undo_all sk g = Inr g' \<Longrightarrow> sync_with (r - int n) 0 g'"
proof (induction n arbitrary: r g)
  case 0
  then show ?case by (simp add: sync_with_def undo_all.simps [of sk g])
next
  case (Suc n)
  then have "stack g \<noteq> []" by (auto simp: sync_with_def)
  then obtain g1 where g1: "undo sk g = Inr g1" "undo_all sk g1 = Inr g'"
    using Suc.prems(2) by (subst (asm) undo_all.simps) (auto simp: bindR_Inr)
  then show ?case
    using Suc.IH [of "r - 1" g1] sync_undo [OF Suc.prems(1) g1(1)] by (simp add: algebra_simps)
qed

lemma sync_set_revision:
  "sync_with r n g \<Longrightarrow> 0 \<le> rv \<Longrightarrow> set_revision rv g = Inr g' \<Longrightarrow> sync_with rv 0 g' \<and> n = 0"
  by (auto simp: set_revision_def sync_with_def split: if_splits)

lemma sync_range: "sync_with r n g \<Longrightarrow> undo_stack_revision_range g = (r - int n, r)"
proof (cases "stack g")
  case (Cons u us)
  assume s: "sync_with r n g"
  then have "us_revision (last (stack g)) = last (map (\<lambda>i. r - int i) [0..<n])"
    using Cons by (metis last_map list.distinct(1) sync_with_def)
  moreover have "us_revision u = hd (map (\<lambda>i. r - int i) [0..<n])"
    using s Cons by (metis list.sel(1) list.simps(9) sync_with_def)
  moreover have "n = Suc (length us)" using s Cons by (simp add: sync_with_def)
  ultimately show ?thesis
    using Cons by (simp add: undo_stack_revision_range_def hd_map hd_append)
qed (simp add: undo_stack_revision_range_def sync_with_def)

lemma sync_catch_up:
  "sync_with r n g \<Longrightarrow> r \<le> rv \<Longrightarrow> sync_with rv (n + nat (rv - r)) (catch_up rv g)"
proof (induction rv g arbitrary: r n rule: catch_up.induct)
  case (1 rv g)
  show ?case
  proof (cases "r < rv")
    case True
    then have "revision g < rv" using 1 by (simp add: sync_with_def)
    moreover have "Suc n + nat (rv - (r + 1)) = n + nat (rv - r)" using True by simp
    ultimately show ?thesis
      using 1(1) [OF _ sync_start [OF 1(2)]] True by (metis catch_up.simps zless_imp_add1_zle)
  next
    case False
    then show ?thesis
      using 1(2,3) by (subst catch_up.simps) (auto simp: sync_with_def)
  qed
qed

lemma sync_empty: "sync_with 0 0 generic_index_empty"
  by (simp add: sync_with_def generic_index_empty_def)

section \<open>Sequences of database operations\<close>

text \<open>Work on one index between sessions does not touch its stack of revisions.\<close>

definition is_work :: "'v store_op \<Rightarrow> bool" where
  "is_work op = (case op of Emplace c \<Rightarrow> True | Modify i f \<Rightarrow> True | Remove i \<Rightarrow> True | _ \<Rightarrow> False)"

datatype 'v db_op =
    DbWork nat "'v store_op"
  | DbStart | DbUndo | DbSquash | DbCommit int | DbUndoAll | DbSetRevision int
  | DbAddIndex nat "'v generic_index option"

primrec db_exec :: "('v, 'k) skeys \<Rightarrow> 'v db_op \<Rightarrow> 'v database \<Rightarrow> 'v database result" where
  "db_exec sk (DbWork t op) db =
     (case map_of (index_list db) t of
        None \<Rightarrow> Inl undefined_behaviour
      | Some g \<Rightarrow> if is_work op
          then on_indices_of t (exec sk op) db else Inl undefined_behaviour)"
| "db_exec sk DbStart db = Inr (fst (db_start_undo_session True db))"
| "db_exec sk DbUndo db = db_undo sk db"
| "db_exec sk DbSquash db = db_squash db"
| "db_exec sk (DbCommit rv) db = db_commit rv db"
| "db_exec sk DbUndoAll db = db_undo_all sk db"
| "db_exec sk (DbSetRevision rv) db = db_set_revision rv db"
| "db_exec sk (DbAddIndex t found) db = add_index t found db"

definition db_op_ok :: "'v db_op \<Rightarrow> bool" where
  "db_op_ok op = (case op of
       DbSetRevision rv \<Rightarrow> 0 \<le> rv
     | DbAddIndex t (Some g) \<Rightarrow> sync_with (revision g) (length (stack g)) g
     | _ \<Rightarrow> True)"

definition all_sync :: "int \<Rightarrow> nat \<Rightarrow> 'v database \<Rightarrow> bool" where
  "all_sync r n db \<longleftrightarrow> (\<forall>(t, g) \<in> set (index_list db). sync_with r n g)"

lemma in_syncI: "all_sync r n db \<Longrightarrow> in_sync db"
  unfolding in_sync_iff all_sync_def by blast

lemma on_indices_sync:
  assumes "on_indices f db = Inr db'" and "all_sync r n db"
    and "\<And>g g'. sync_with r n g \<Longrightarrow> f g = Inr g' \<Longrightarrow> sync_with r' n' g'"
  shows "all_sync r' n' db'"
proof -
  have "list_all2 (\<lambda>x y. \<exists>g'. f (snd x) = Inr g' \<and> y = (fst x, g')) (index_list db) (index_list db')"
    using assms(1)
    by (auto simp: on_indices_def bindR_Inr mapR_Inr case_prod_beta elim!: list_all2_mono)
  then show ?thesis
    using assms(2) unfolding all_sync_def
    by (rule list_all2_pointwise) (use assms(3) in auto)
qed

lemma work_keeps_stack:
  assumes "is_work op" and "exec sk op g = Inr g'"
  shows "revision g' = revision g" and "map us_revision (stack g') = map us_revision (stack g)"
proof -
  have "revision g' = revision g \<and> map us_revision (stack g') = map us_revision (stack g)"
    using assms
    by (cases op)
      (auto simp: is_work_def emplace_def modify_def remove_obj_def bindR_Inr Let_def on_create_def
        on_modify_def on_remove_def split: if_splits list.split option.split)
  then show "revision g' = revision g" and "map us_revision (stack g') = map us_revision (stack g)"
    by auto
qed

lemma work_sync:
  assumes "is_work op" and "exec sk op g = Inr g'" and "sync_with r n g"
  shows "sync_with r n g'"
  using assms(3) work_keeps_stack [OF assms(1,2)] unfolding sync_with_def
  by (metis length_map)

lemma on_indices_of_sync:
  assumes "on_indices_of t f db = Inr db'" and "all_sync r n db"
    and "\<And>g g'. sync_with r n g \<Longrightarrow> f g = Inr g' \<Longrightarrow> sync_with r n g'"
  shows "all_sync r n db'"
proof -
  have "list_all2 (\<lambda>x y. x = y \<or> (\<exists>g'. f (snd x) = Inr g' \<and> y = (fst x, g'))) (index_list db) (index_list db')"
    using assms(1)
    by (auto simp: on_indices_of_def bindR_Inr mapR_Inr case_prod_beta elim!: list_all2_mono split: if_splits)
  then show ?thesis
    using assms(2) unfolding all_sync_def
    by (rule list_all2_pointwise) (use assms(3) in auto)
qed

lemma db_start_indices:
  "index_list (fst (db_start_undo_session True db)) =
   map (\<lambda>(t, g). (t, fst (start_undo_session True g))) (index_list db)"
  by (simp add: db_start_undo_session_def Let_def impl_start_undo_session_def case_prod_beta)

lemma db_start_sessions:
  "index_sessions (snd (db_start_undo_session True db)) =
   map (\<lambda>(t, g). \<lparr>s_apply = (revision g + 1 \<noteq> -1), s_revision = 0\<rparr>) (index_list db)"
  by (simp add: db_start_undo_session_def Let_def impl_start_undo_session_def case_prod_beta
      db_session_ctor_def ix_session_move_def ix_session_ctor_def start_undo_session_def)

lemma add_index_sync:
  assumes "add_index t found db = Inr db'" and "all_sync r n db"
    and "case found of Some g \<Rightarrow> sync_with (revision g) (length (stack g)) g | None \<Rightarrow> True"
  shows "\<exists>r n. all_sync r n db'"
proof -
  define idx where "idx = (case found of Some g \<Rightarrow> g | None \<Rightarrow> generic_index_empty)"
  have idx: "sync_with (revision idx) (length (stack idx)) idx"
    using assms(3) sync_empty by (auto simp: idx_def generic_index_empty_def split: option.splits)
  show ?thesis
  proof (cases "index_list db")
    case Nil
    then have "index_list db' = [(t, idx)]"
      using assms(1) by (auto simp: add_index_def idx_def Let_def split: if_splits)
    then show ?thesis using idx unfolding all_sync_def by auto
  next
    case (Cons p rest)
    obtain t0 front where p: "p = (t0, front)" by force
    have front: "sync_with r n front" using assms(2) Cons p by (auto simp: all_sync_def)
    note range = sync_range [OF front] and range' = sync_range [OF idx]
    have n: "int n \<le> r" using front by (simp add: sync_with_def)
    obtain g where g: "index_list db' = index_list db @ [(t, g)]" and
      c: "undo_stack_revision_range idx = undo_stack_revision_range front \<and> g = idx \<or>
          (\<exists>g0. found = None \<and> set_revision (int64_to_u64 (r - int n)) idx = Inr g0 \<and> g = catch_up r g0)"
      using assms(1)
      by (auto simp: add_index_def Cons p Let_def range bindR_Inr idx_def [symmetric] split: if_splits)
    have "sync_with r n g"
      using c
    proof (elim disjE exE conjE)
      assume "undo_stack_revision_range idx = undo_stack_revision_range front" "g = idx"
      then show ?thesis using idx unfolding range range' by auto
    next
      fix g0
      assume g0: "set_revision (int64_to_u64 (r - int n)) idx = Inr g0" "g = catch_up r g0"
      have "sync_with (r - int n) 0 g0"
        using sync_set_revision [OF idx _ g0(1)] n by (simp add: int64_to_u64_def)
      from sync_catch_up [OF this, of r] show ?thesis by (simp add: g0(2))
    qed
    then have "all_sync r n db'" using assms(2) by (auto simp: all_sync_def g)
    then show ?thesis by blast
  qed
qed

lemma db_exec_sync:
  assumes "db_exec sk op db = Inr db'" and "in_sync db" and "db_op_ok op"
  shows "in_sync db'"
proof -
  obtain r n where s: "all_sync r n db" using assms(2) by (auto simp: in_sync_iff all_sync_def)
  show ?thesis
  proof (cases op)
    case (DbWork t w)
    then have "is_work w" "on_indices_of t (exec sk w) db = Inr db'"
      using assms(1) by (auto split: option.splits if_splits)
    then show ?thesis by (meson in_syncI on_indices_of_sync s work_sync)
  next
    case DbStart
    then have "all_sync (r + 1) (Suc n) db'"
      using assms(1) s by (auto simp: all_sync_def db_start_indices intro!: sync_start)
    then show ?thesis by (rule in_syncI)
  next
    case DbUndo
    then have "on_indices (undo sk) db = Inr db'" using assms(1) by (simp add: db_undo_def)
    from in_syncI [OF on_indices_sync [OF this s]] show ?thesis by (blast intro: sync_undo)
  next
    case DbSquash
    then have "on_indices (\<lambda>g. Inr (squash g)) db = Inr db'" using assms(1) by (simp add: db_squash_def)
    from in_syncI [OF on_indices_sync [OF this s]] show ?thesis by (auto intro: sync_squash)
  next
    case (DbCommit rv)
    then have "on_indices (\<lambda>g. Inr (commit rv g)) db = Inr db'" using assms(1) by (simp add: db_commit_def)
    from in_syncI [OF on_indices_sync [OF this s]] show ?thesis by (auto intro: sync_commit)
  next
    case DbUndoAll
    then have "on_indices (undo_all sk) db = Inr db'" using assms(1) by (simp add: db_undo_all_def)
    from in_syncI [OF on_indices_sync [OF this s]] show ?thesis by (blast intro: sync_undo_all)
  next
    case (DbSetRevision rv)
    then have "on_indices (set_revision rv) db = Inr db'" "0 \<le> rv"
      using assms(1,3) by (simp_all add: db_set_revision_def db_op_ok_def)
    from in_syncI [OF on_indices_sync [OF this(1) s, of rv 0]] this(2) show ?thesis
      using sync_set_revision by blast
  next
    case (DbAddIndex t found)
    then have "\<exists>r n. all_sync r n db'"
      using add_index_sync [OF _ s] assms(1,3) by (auto simp: db_op_ok_def split: option.splits)
    then show ?thesis using in_syncI by blast
  qed
qed

section \<open>Sessions as an interface\<close>

text \<open>
  What the code that opens sessions relies on: a session start saves the visible state, work does
  not reach what is saved, undo returns to it and squash forgets it.
\<close>

locale session_store =
  fixes inv :: "'g \<Rightarrow> bool"
    and view :: "'g \<Rightarrow> 'a"
    and kept :: "'g \<Rightarrow> 'a list"
    and start :: "'g \<Rightarrow> 'g"
    and work :: "'g \<Rightarrow> 'g \<Rightarrow> bool"
    and undo_to :: "'g \<Rightarrow> 'g \<Rightarrow> bool"
    and squash_to :: "'g \<Rightarrow> 'g"
  assumes start: "inv g \<Longrightarrow> inv (start g) \<and> view (start g) = view g \<and> kept (start g) = view g # kept g"
    and work: "inv g \<Longrightarrow> work g g' \<Longrightarrow> inv g' \<and> kept g' = kept g"
    and undo_to: "inv g \<Longrightarrow> kept g = a # as \<Longrightarrow> undo_to g g' \<Longrightarrow> inv g' \<and> view g' = a \<and> kept g' = as"
    and squash_to: "inv g \<Longrightarrow> kept g = a # as \<Longrightarrow>
      inv (squash_to g) \<and> view (squash_to g) = view g \<and> kept (squash_to g) = as"
begin

lemma work_star: "work\<^sup>*\<^sup>* g g' \<Longrightarrow> inv g \<Longrightarrow> inv g' \<and> kept g' = kept g"
  by (induction rule: rtranclp_induct) (auto dest: work)

lemma rollback:
  assumes "inv g" and "work\<^sup>*\<^sup>* (start g) g1" and "undo_to g1 g2"
  shows "inv g2 \<and> view g2 = view g \<and> kept g2 = kept g"
  using work_star [OF assms(2)] start [OF assms(1)] undo_to [OF _ _ assms(3)] by auto

lemma merge:
  assumes "inv g" and "work\<^sup>*\<^sup>* (start g) g1"
  shows "inv (squash_to g1) \<and> view (squash_to g1) = view g1 \<and> kept (squash_to g1) = kept g"
  using work_star [OF assms(2)] start [OF assms(1)] squash_to [of g1] by auto

text \<open>A session inside a session: what the inner one did is undone with the outer one.\<close>

lemma nested_rollback:
  assumes "inv g" and "work\<^sup>*\<^sup>* (start g) g1" and "work\<^sup>*\<^sup>* (start g1) g2"
    and "work\<^sup>*\<^sup>* (squash_to g2) g3" and "undo_to g3 g4"
  shows "view g4 = view g"
proof -
  have 1: "inv g1" "kept g1 = view g # kept g"
    using work_star [OF assms(2)] start [OF assms(1)] by auto
  have "inv (squash_to g2)" "kept (squash_to g2) = kept g1"
    using merge [OF 1(1) assms(3)] by auto
  then show ?thesis
    using work_star [OF assms(4)] undo_to [OF _ _ assms(5)] 1(2) by auto
qed

end

definition view_of :: "'v generic_index \<Rightarrow> (int \<times> 'v) list \<times> int" where
  "view_of g = (indices g, next_id g)"

definition kept_of :: "'v generic_index \<Rightarrow> ((int \<times> 'v) list \<times> int) list" where
  "kept_of g = map (\<lambda>(m, n, r). (m, n)) (snapshots (stack g) (indices g))"

definition work_step :: "('v, 'k) skeys \<Rightarrow> 'v generic_index \<Rightarrow> 'v generic_index \<Rightarrow> bool" where
  "work_step sk g g' \<longleftrightarrow> (\<exists>op. is_work op \<and> exec sk op g = Inr g')"

lemma view_abs: "view_of g = (cur (abs_store g), nxt (abs_store g))"
  by (simp add: view_of_def abs_store_def)

lemma kept_abs: "kept_of g = map (\<lambda>(m, n, r). (m, n)) (saved (abs_store g))"
  by (simp add: kept_of_def abs_store_def)

lemma spec_work_saved: "spec_exec sk op s = Inr s' \<Longrightarrow> is_work op \<Longrightarrow> saved s' = saved s"
  by (cases op) (auto simp: is_work_def split: if_splits option.splits)

lemma spec_undo_saved:
  "spec_exec sk Undo s = Inr s' \<Longrightarrow> saved s = (m, n, r) # rest \<Longrightarrow>
   cur s' = m \<and> nxt s' = n \<and> saved s' = rest"
  by auto

lemma spec_squash_saved:
  "spec_exec sk Squash s = Inr s' \<Longrightarrow> saved s = x # rest \<Longrightarrow>
   cur s' = cur s \<and> nxt s' = nxt s \<and> saved s' = rest"
  by auto

interpretation ixs: session_store index_ok view_of kept_of "\<lambda>g. fst (start_undo_session True g)"
  "work_step sk" "\<lambda>g g'. undo sk g = Inr g'" squash for sk
proof
  fix g :: "'a generic_index"
  assume ok: "index_ok g"
  show "index_ok (fst (start_undo_session True g)) \<and>
    view_of (fst (start_undo_session True g)) = view_of g \<and>
    kept_of (fst (start_undo_session True g)) = view_of g # kept_of g"
    using start_refines(2) [OF ok]
    by (simp add: view_of_def kept_of_def start_undo_session_def apply_undo_nothing)
next
  fix g g' :: "'a generic_index"
  assume ok: "index_ok g" and "work_step sk g g'"
  then obtain op where op: "is_work op" "exec sk op g = Inr g'" by (auto simp: work_step_def)
  then have "saved (abs_store g') = saved (abs_store g)"
    using spec_work_saved [OF exec_refines(2) [OF ok op(2)]] by simp
  then show "index_ok g' \<and> kept_of g' = kept_of g"
    using exec_refines(1) [OF ok op(2)] by (simp add: kept_abs)
next
  fix g g' :: "'a generic_index" and a as
  assume ok: "index_ok g" and k: "kept_of g = a # as" and u: "undo sk g = Inr g'"
  show "index_ok g' \<and> view_of g' = a \<and> kept_of g' = as"
    using undo_refines [OF ok u] k spec_undo_saved [of sk "abs_store g" "abs_store g'"]
    by (auto simp: kept_abs view_abs simp del: spec_exec.simps)
next
  fix g :: "'a generic_index" and a as
  assume ok: "index_ok g" and k: "kept_of g = a # as"
  show "index_ok (squash g) \<and> view_of (squash g) = view_of g \<and> kept_of (squash g) = as"
    using squash_refines(1) [OF ok] spec_squash_saved [OF squash_refines(2) [OF ok]] k
    by (auto simp: kept_abs view_abs simp del: spec_exec.simps)
qed

lemma work_star_foldR:
  "list_all is_work ops \<Longrightarrow> foldR (exec sk) ops g = Inr g' \<Longrightarrow> (work_step sk)\<^sup>*\<^sup>* g g'"
proof (induction ops arbitrary: g)
  case (Cons op ops)
  then obtain g1 where "exec sk op g = Inr g1" "foldR (exec sk) ops g1 = Inr g'" by (auto simp: bindR_Inr)
  then show ?case
    using Cons by (auto simp: work_step_def intro: converse_rtranclp_into_rtranclp)
qed simp

section \<open>Properties\<close>

text \<open>
  C12: the indices of a database stay in step: after any sequence of work, session starts, undos,
  squashes, commits, revision settings and index additions, all indices have the same revision, the
  same undo depth, and undo records numbered without gaps down from that revision. An index that is
  found in the segment is assumed to be numbered that way itself.
\<close>

theorem database_in_sync:
  assumes "foldR (db_exec sk) ops \<lparr>read_only = False, index_list = []\<rparr> = Inr db"
    and "list_all db_op_ok ops"
  shows "in_sync db"
proof (rule foldR_invariant [OF assms(1)])
  show "in_sync \<lparr>read_only = False, index_list = []\<rparr>" by (simp add: in_sync_def)
  show "\<And>op db db'. op \<in> set ops \<Longrightarrow> in_sync db \<Longrightarrow> db_exec sk op db = Inr db' \<Longrightarrow> in_sync db'"
    using assms(2) db_exec_sync by (metis list_all_iff)
qed

theorem database_in_sync_witness:
  "in_sync \<lparr>read_only = False, index_list =
     [(3, \<lparr>stack = [\<lparr>old_values = [], removed_values = [], new_ids = [0], old_next_id = 0, us_revision = 5\<rparr>],
           revision = 5, next_id = 1, indices = [(0, 7 :: nat)]\<rparr>),
      (8, \<lparr>stack = [\<lparr>old_values = [], removed_values = [], new_ids = [], old_next_id = 0, us_revision = 5\<rparr>],
           revision = 5, next_id = 0, indices = []\<rparr>)]\<rparr>"
proof -
  let ?ops = "[DbAddIndex 3 None, DbSetRevision 4, DbStart, DbWork 3 (Emplace (\<lambda>_. 7)), DbAddIndex 8 None]"
  show ?thesis
    by (rule database_in_sync [where sk = "\<lambda>v. [v]" and ops = ?ops]) (code_simp, simp add: db_op_ok_def)
qed

text \<open>
  C14: a session that is neither pushed nor squashed undoes everything: whatever work was done on each
  index after \<^verbatim>\<open>start_undo_session\<close>, when the destructor of the session has run every index shows the
  objects and the next id it had before.
\<close>

theorem session_destructor_restores:
  assumes ok: "\<forall>(t, g) \<in> set (index_list db). index_ok g" and sync: "in_sync db"
    and work: "list_all2 (\<lambda>(t, g) (t', g'). t' = t \<and> (\<exists>ops. list_all is_work ops \<and> foldR (exec sk) ops g = Inr g'))
       (index_list (fst (db_start_undo_session True db))) (index_list db1)"
    and undone: "session_undo sk (snd (db_start_undo_session True db)) db1 = Inr (s', db2)"
  shows "map (\<lambda>(t, g). (t, view_of g)) (index_list db2) = map (\<lambda>(t, g). (t, view_of g)) (index_list db)"
proof -
  let ?l = "index_list db" and ?la = "index_list db1" and ?lb = "index_list db2"
  let ?ss = "index_sessions (snd (db_start_undo_session True db))"
  have len: "length ?la = length ?l" "length ?ss = length ?l"
    using list_all2_lengthD [OF work] by (simp_all add: db_start_indices db_start_sessions)
  have undone': "list_all2 (\<lambda>(s, t, g) y. \<exists>r. ix_undo sk s g = Inr r \<and> y = (t, snd r)) (zip ?ss ?la) ?lb"
    using undone len
    by (auto simp: session_undo_def bindR_Inr mapR_Inr elim!: list_all2_mono)
  then have len': "length ?lb = length ?l" using len by (simp add: list_all2_lengthD [symmetric])
  have "fst (?lb ! i) = fst (?l ! i) \<and> view_of (snd (?lb ! i)) = view_of (snd (?l ! i))"
    if i: "i < length ?l" for i
  proof -
    obtain t g where g: "?l ! i = (t, g)" by force
    have mem: "(t, g) \<in> set ?l" using i g by (metis nth_mem)
    have "0 \<le> revision g" using sync mem by (force simp: in_sync_iff sync_with_def)
    then have ap: "s_apply (?ss ! i)" using i g by (simp add: db_start_sessions)
    obtain ga where ga: "?la ! i = (t, ga)" "(work_step sk)\<^sup>*\<^sup>* (fst (start_undo_session True g)) ga"
      using list_all2_nthD2 [OF work, of i] i g len
      by (auto simp: db_start_indices intro: work_star_foldR)
    obtain gb where gb: "?lb ! i = (t, gb)" "undo sk ga = Inr gb"
      using list_all2_nthD [OF undone', of i] i ga(1) ap len
      by (auto simp: ix_undo_def bindR_Inr)
    have "index_ok g" using ok mem by auto
    from ixs.rollback [OF this ga(2) gb(2)] gb(1) g show ?thesis by simp
  qed
  then show ?thesis
    using len' by (auto intro!: nth_equalityI simp: case_prod_beta)
qed

theorem session_destructor_restores_witness:
  "\<exists>db2 s'. session_undo (\<lambda>v :: nat. [v]) \<lparr>index_sessions = [\<lparr>s_apply = True, s_revision = 0\<rparr>], db_session_revision = 0\<rparr>
     \<lparr>read_only = False, index_list = [(3,
        \<lparr>stack = [\<lparr>old_values = [], removed_values = [], new_ids = [0], old_next_id = 0, us_revision = 1\<rparr>],
         revision = 1, next_id = 1, indices = [(0, 7)]\<rparr>)]\<rparr> = Inr (s', db2) \<and>
     map (\<lambda>(t, g). (t, view_of g)) (index_list db2) = [(3, ([], 0))]"
proof -
  let ?db = "\<lparr>read_only = False, index_list = [(3, generic_index_empty)]\<rparr> :: nat database"
  let ?g = "\<lparr>stack = [\<lparr>old_values = [], removed_values = [], new_ids = [0], old_next_id = 0, us_revision = 1\<rparr>],
         revision = 1, next_id = 1, indices = [(0, 7 :: nat)]\<rparr>"
  let ?dba = "\<lparr>read_only = False, index_list = [(3, ?g)]\<rparr>"
  let ?dbb = "\<lparr>read_only = False, index_list = [(3, generic_index_empty)]\<rparr> :: nat database"
  let ?s = "\<lparr>index_sessions = [\<lparr>s_apply = True, s_revision = 0\<rparr>], db_session_revision = 0\<rparr>"
  have st: "snd (db_start_undo_session True ?db) = ?s"
    and fs: "fst (db_start_undo_session True ?db) =
       ?db\<lparr>index_list := [(3, fst (start_undo_session True generic_index_empty))]\<rparr>"
    by code_simp+
  have un: "session_undo (\<lambda>v. [v]) ?s ?dba = Inr (?s\<lparr>index_sessions := []\<rparr>, ?dbb)"
    by code_simp
  have "foldR (exec (\<lambda>v. [v])) [Emplace (\<lambda>_. 7)] (fst (start_undo_session True generic_index_empty)) = Inr ?g"
    by code_simp
  then have w: "list_all is_work [Emplace (\<lambda>_. 7)] \<and>
      foldR (exec (\<lambda>v. [v])) [Emplace (\<lambda>_. 7)] (fst (start_undo_session True generic_index_empty)) = Inr ?g"
    by (simp add: is_work_def)
  have "map (\<lambda>(t, g). (t, view_of g)) (index_list ?dbb) = map (\<lambda>(t, g). (t, view_of g)) (index_list ?db)"
  proof (rule session_destructor_restores [where sk = "\<lambda>v. [v]"])
    show "session_undo (\<lambda>v. [v]) (snd (db_start_undo_session True ?db)) ?dba =
        Inr (?s\<lparr>index_sessions := []\<rparr>, ?dbb)"
      using un by (simp only: st)
    show "in_sync ?db" by (simp add: in_sync_def sync_with_def generic_index_empty_def)
  qed (use w in \<open>auto simp: index_ok_empty fs intro!: exI [of _ "[Emplace (\<lambda>_. 7)]"]\<close>)
  then show ?thesis
    using un by (auto simp: view_of_def generic_index_empty_def)
qed

text \<open>
  The revision a database session reports is lost: the session objects are moved once on their
  way into the database session, and the move constructor drops the number. A fresh session on a
  database with at least one index reports 0, whatever the revision of the database.
\<close>

theorem database_session_revision_lost:
  assumes "index_list db \<noteq> []"
  shows "db_session_revision (snd (db_start_undo_session True db)) = 0 \<and>
    db_revision (fst (db_start_undo_session True db)) = db_revision db + 1"
  using assms
  by (cases "index_list db")
    (auto simp: db_start_undo_session_def db_revision_def Let_def db_session_ctor_def
      impl_start_undo_session_def ix_session_move_def start_undo_session_def)

theorem database_session_revision_lost_witness:
  "let db = \<lparr>read_only = False, index_list = [(3, generic_index_empty\<lparr>revision := 41\<rparr>)]\<rparr> :: nat database
   in db_session_revision (snd (db_start_undo_session True db)) = 0 \<and>
      db_revision (fst (db_start_undo_session True db)) = 42"
  using database_session_revision_lost
    [of "\<lparr>read_only = False, index_list = [(3, generic_index_empty\<lparr>revision := 41\<rparr>)]\<rparr> :: nat database"]
  by (simp add: Let_def db_revision_def)

end
