(* ===== verification/Resource_Limits.thy ===== *)
theory Resource_Limits
  imports Ordered_Map "HOL-Library.Product_Lexorder"
begin

text \<open>
  Accounting of CPU time, network bandwidth and RAM (\<^verbatim>\<open>resource_limits.cpp\<close>,
  \<^verbatim>\<open>resource_limits.hpp\<close>, \<^verbatim>\<open>resource_limits_private.hpp\<close>). Unsigned quantities are words of the
  code's width, including the 128-bit intermediate products; the signed weights and limits, which
  the code only stores, compares and casts, are integers. A raised exception discards the state, as
  the enclosing undo session does.
\<close>

section \<open>Numbers\<close>

definition rate_limiting_precision :: u32 where
  "rate_limiting_precision = 1000 * 1000"

definition maximum_elastic_resource_multiplier :: u32 where
  "maximum_elastic_resource_multiplier = 1000"

record ratio =
  numerator :: u64
  denominator :: u64

text \<open>The product with a ratio; dividing by zero has no defined behaviour.\<close>

definition ratio_times :: "u64 \<Rightarrow> ratio \<Rightarrow> u64 result" where
  "ratio_times v r =
     EOS_ASSERT (numerator r = 0 \<or> - 1 div numerator r \<ge> v) rate_limiting_state_inconsistent
       (if denominator r = 0 then Inl undefined_behaviour
        else Inr ((v * numerator r) div denominator r))"

definition integer_divide_ceil :: "'a :: len word \<Rightarrow> 'a word \<Rightarrow> 'a word" where
  "integer_divide_ceil num den = num div den + (if num mod den > 0 then 1 else 0)"

text \<open>The casts of a 128-bit value to an unsigned and to a signed 64-bit value.\<close>

definition downgrade_cast_u64 :: "u128 \<Rightarrow> u64 result" where
  "downgrade_cast_u64 v =
     EOS_ASSERT (v \<le> 2 ^ 64 - 1) rate_limiting_state_inconsistent (Inr (ucast v))"

definition downgrade_cast_i64 :: "u128 \<Rightarrow> int result" where
  "downgrade_cast_i64 v =
     EOS_ASSERT (v \<le> 2 ^ 63 - 1) rate_limiting_state_inconsistent (Inr (uint v))"

section \<open>The moving average\<close>

record usage_accumulator =
  last_ordinal :: u32
  value_ex :: u64
  consumed :: u64

definition usage_accumulator_empty :: usage_accumulator where
  "usage_accumulator_empty = \<lparr>last_ordinal = 0, value_ex = 0, consumed = 0\<rparr>"

definition precision_u64 :: u64 where
  "precision_u64 = ucast rate_limiting_precision"

definition max_raw_value :: u64 where
  "max_raw_value = - 1 div precision_u64"

definition average :: "usage_accumulator \<Rightarrow> u64" where
  "average a = integer_divide_ceil (value_ex a) precision_u64"

text \<open>The decay when a new period begins; a window of zero periods would divide by zero.\<close>

definition advance :: "u32 \<Rightarrow> u32 \<Rightarrow> usage_accumulator \<Rightarrow> usage_accumulator result" where
  "advance ordinal window_size a =
     (if last_ordinal a \<noteq> ordinal then
        EOS_ASSERT (ordinal > last_ordinal a) resource_limit_exception
          (bindR
            (if (ucast (last_ordinal a) :: u64) + ucast window_size > ucast ordinal
             then ratio_times (value_ex a)
               \<lparr>numerator = ucast window_size - ucast (ordinal - last_ordinal a), denominator = ucast window_size\<rparr>
             else Inr 0)
            (\<lambda>v. let a' = a\<lparr>value_ex := v, last_ordinal := ordinal\<rparr> in Inr (a'\<lparr>consumed := average a'\<rparr>)))
      else Inr a)"

definition add_usage :: "u64 \<Rightarrow> u32 \<Rightarrow> u32 \<Rightarrow> usage_accumulator \<Rightarrow> usage_accumulator result" where
  "add_usage units ordinal window_size a =
     EOS_ASSERT (units \<le> max_raw_value) rate_limiting_state_inconsistent
     (EOS_ASSERT (- 1 - consumed a \<ge> units) rate_limiting_state_inconsistent
     (if window_size = 0 then Inl undefined_behaviour else
      bindR (downgrade_cast_u64
          (integer_divide_ceil (ucast units * ucast precision_u64) (ucast window_size))) (\<lambda>value_ex_contrib.
      EOS_ASSERT (- 1 - value_ex a \<ge> value_ex_contrib) rate_limiting_state_inconsistent
      (bindR (advance ordinal window_size a) (\<lambda>a'.
        Inr (a'\<lparr>consumed := consumed a' + units, value_ex := value_ex a' + value_ex_contrib\<rparr>))))))"

section \<open>Stored objects\<close>

record elastic_limit_parameters =
  el_target :: u64
  el_max :: u64
  periods :: u32
  max_multiplier :: u32
  contract_rate :: ratio
  expand_rate :: ratio

record limits_object =
  net_weight :: int
  cpu_weight :: int
  ram_bytes :: int

record usage_object =
  net_usage :: usage_accumulator
  cpu_usage :: usage_accumulator
  ram_usage :: u64

record config_object =
  cpu_limit_parameters :: elastic_limit_parameters
  net_limit_parameters :: elastic_limit_parameters
  account_cpu_usage_average_window :: u32
  account_net_usage_average_window :: u32

record state_object =
  average_block_net_usage :: usage_accumulator
  average_block_cpu_usage :: usage_accumulator
  pending_net_usage :: u64
  pending_cpu_usage :: u64
  total_net_weight :: u64
  total_cpu_weight :: u64
  total_ram_bytes :: u64
  virtual_net_limit :: u64
  virtual_cpu_limit :: u64

text \<open>Limit objects are indexed by the pair of the pending flag and the owner.\<close>

record resource_db =
  limits :: "((bool \<times> u64) \<times> limits_object) list"
  usages :: "(u64 \<times> usage_object) list"
  rl_config :: config_object
  rl_state :: state_object

definition db_get :: "'k :: linorder \<Rightarrow> ('k \<times> 'v) list \<Rightarrow> 'v result" where
  "db_get k m = (case fm_find k m of None \<Rightarrow> Inl std_out_of_range | Some v \<Rightarrow> Inr v)"

definition db_create :: "'k :: linorder \<Rightarrow> 'v \<Rightarrow> ('k \<times> 'v) list \<Rightarrow> ('k \<times> 'v) list result" where
  "db_create k v m = (if fm_find k m \<noteq> None then Inl std_logic_error else Inr (fm_set k v m))"

section \<open>Elastic limits\<close>

definition EOS_PERCENT :: "u64 \<Rightarrow> u32 \<Rightarrow> u64" where
  "EOS_PERCENT v percentage = (v * ucast percentage) div 10000"

definition config_object_default :: config_object where
  "config_object_default =
     \<lparr>cpu_limit_parameters =
        \<lparr>el_target = EOS_PERCENT 500000 1000, el_max = 500000, periods = 60000 div 500,
         max_multiplier = 1000, contract_rate = \<lparr>numerator = 99, denominator = 100\<rparr>,
         expand_rate = \<lparr>numerator = 1000, denominator = 999\<rparr>\<rparr>,
      net_limit_parameters =
        \<lparr>el_target = EOS_PERCENT (1024 * 1024) 1000, el_max = 1024 * 1024, periods = 60000 div 500,
         max_multiplier = 1000, contract_rate = \<lparr>numerator = 99, denominator = 100\<rparr>,
         expand_rate = \<lparr>numerator = 1000, denominator = 999\<rparr>\<rparr>,
      account_cpu_usage_average_window = 86400000 div 500,
      account_net_usage_average_window = 86400000 div 500\<rparr>"

definition update_elastic_limit :: "u64 \<Rightarrow> u64 \<Rightarrow> elastic_limit_parameters \<Rightarrow> u64 result" where
  "update_elastic_limit current_limit average_usage params =
     bindR (if average_usage > el_target params then ratio_times current_limit (contract_rate params)
            else ratio_times current_limit (expand_rate params)) (\<lambda>r.
       Inr (min (max r (el_max params)) (el_max params * ucast (max_multiplier params))))"

definition elastic_validate :: "elastic_limit_parameters \<Rightarrow> unit result" where
  "elastic_validate p =
     EOS_ASSERT (periods p > 0) resource_limit_exception
     (EOS_ASSERT (denominator (contract_rate p) > 0) resource_limit_exception
     (EOS_ASSERT (denominator (expand_rate p) > 0) resource_limit_exception (Inr ())))"

definition update_virtual_cpu_limit :: "config_object \<Rightarrow> state_object \<Rightarrow> state_object result" where
  "update_virtual_cpu_limit cfg s =
     bindR (update_elastic_limit (virtual_cpu_limit s) (average (average_block_cpu_usage s)) (cpu_limit_parameters cfg))
       (\<lambda>v. Inr (s\<lparr>virtual_cpu_limit := v\<rparr>))"

definition update_virtual_net_limit :: "config_object \<Rightarrow> state_object \<Rightarrow> state_object result" where
  "update_virtual_net_limit cfg s =
     bindR (update_elastic_limit (virtual_net_limit s) (average (average_block_net_usage s)) (net_limit_parameters cfg))
       (\<lambda>v. Inr (s\<lparr>virtual_net_limit := v\<rparr>))"

section \<open>The manager\<close>

definition initialize_database :: resource_db where
  "initialize_database =
     \<lparr>limits = [], usages = [], rl_config = config_object_default,
      rl_state = \<lparr>average_block_net_usage = usage_accumulator_empty, average_block_cpu_usage = usage_accumulator_empty,
        pending_net_usage = 0, pending_cpu_usage = 0, total_net_weight = 0, total_cpu_weight = 0, total_ram_bytes = 0,
        virtual_net_limit = el_max (net_limit_parameters config_object_default),
        virtual_cpu_limit = el_max (cpu_limit_parameters config_object_default)\<rparr>\<rparr>"

definition initialize_account :: "u64 \<Rightarrow> resource_db \<Rightarrow> resource_db result" where
  "initialize_account account db =
     bindR (db_create (False, account) \<lparr>net_weight = -1, cpu_weight = -1, ram_bytes = -1\<rparr> (limits db)) (\<lambda>l.
     bindR (db_create account \<lparr>net_usage = usage_accumulator_empty, cpu_usage = usage_accumulator_empty, ram_usage = 0\<rparr>
         (usages db)) (\<lambda>u.
       Inr (db\<lparr>limits := l, usages := u\<rparr>)))"

definition set_block_parameters :: "elastic_limit_parameters \<Rightarrow> elastic_limit_parameters \<Rightarrow> resource_db \<Rightarrow>
    resource_db result" where
  "set_block_parameters cpu net db =
     bindR (elastic_validate cpu) (\<lambda>_. bindR (elastic_validate net) (\<lambda>_.
       if cpu_limit_parameters (rl_config db) = cpu \<and> net_limit_parameters (rl_config db) = net then Inr db
       else Inr (db\<lparr>rl_config := (rl_config db)\<lparr>cpu_limit_parameters := cpu, net_limit_parameters := net\<rparr>\<rparr>)))"

text \<open>Charging one account for network and CPU usage.\<close>

definition charge :: "config_object \<Rightarrow> u64 \<Rightarrow> u64 \<Rightarrow> u32 \<Rightarrow> usage_object \<Rightarrow> usage_object result" where
  "charge cfg cpu net time_slot bu =
     bindR (add_usage net time_slot (account_net_usage_average_window cfg) (net_usage bu)) (\<lambda>n.
     bindR (add_usage cpu time_slot (account_cpu_usage_average_window cfg) (cpu_usage bu)) (\<lambda>c.
       Inr (bu\<lparr>net_usage := n, cpu_usage := c\<rparr>)))"

definition update_account_usage :: "u64 list \<Rightarrow> u32 \<Rightarrow> resource_db \<Rightarrow> resource_db result" where
  "update_account_usage accounts time_slot =
     foldR (\<lambda>a db. bindR (db_get a (usages db)) (\<lambda>bu. bindR (charge (rl_config db) 0 0 time_slot bu) (\<lambda>bu'.
       Inr (db\<lparr>usages := fm_set a bu' (usages db)\<rparr>)))) accounts"

definition get_account_limits :: "u64 \<Rightarrow> resource_db \<Rightarrow> limits_object result" where
  "get_account_limits account db =
     (case fm_find (True, account) (limits db) of
        Some pending_buo \<Rightarrow> Inr pending_buo
      | None \<Rightarrow> db_get (False, account) (limits db))"

text \<open>What an account has used of a window, and the share its weight gives it.\<close>

definition max_user_use_in_window :: "u64 \<Rightarrow> u32 \<Rightarrow> int \<Rightarrow> u64 \<Rightarrow> u128" where
  "max_user_use_in_window virtual_limit window weight all_weight =
     (ucast virtual_limit * ucast window * of_int weight) div ucast all_weight"

definition used_in_window :: "u64 \<Rightarrow> u32 \<Rightarrow> u128" where
  "used_in_window v window = (ucast v * ucast window) div ucast rate_limiting_precision"

definition add_transaction_usage_for :: "u64 \<Rightarrow> u64 \<Rightarrow> u32 \<Rightarrow> u64 \<Rightarrow> resource_db \<Rightarrow> resource_db result" where
  "add_transaction_usage_for cpu net time_slot a db =
     bindR (db_get a (usages db)) (\<lambda>bu.
     bindR (get_account_limits a db) (\<lambda>l.
     bindR (charge (rl_config db) cpu net time_slot bu) (\<lambda>bu'.
       let state = rl_state db; cfg = rl_config db
       in EOS_ASSERT (\<not> (cpu_weight l \<ge> 0 \<and> total_cpu_weight state > 0) \<or>
              used_in_window (value_ex (cpu_usage bu')) (account_cpu_usage_average_window cfg) \<le>
              max_user_use_in_window (virtual_cpu_limit state) (account_cpu_usage_average_window cfg)
                (cpu_weight l) (total_cpu_weight state)) tx_cpu_usage_exceeded
          (EOS_ASSERT (\<not> (net_weight l \<ge> 0 \<and> total_net_weight state > 0) \<or>
              used_in_window (value_ex (net_usage bu')) (account_net_usage_average_window cfg) \<le>
              max_user_use_in_window (virtual_net_limit state) (account_net_usage_average_window cfg)
                (net_weight l) (total_net_weight state)) tx_net_usage_exceeded
          (Inr (db\<lparr>usages := fm_set a bu' (usages db)\<rparr>))))))"

definition add_transaction_usage :: "u64 list \<Rightarrow> u64 \<Rightarrow> u64 \<Rightarrow> u32 \<Rightarrow> resource_db \<Rightarrow> resource_db result" where
  "add_transaction_usage accounts cpu net time_slot db =
     bindR (foldR (add_transaction_usage_for cpu net time_slot) accounts db) (\<lambda>db'.
       let state = (rl_state db')\<lparr>pending_cpu_usage := pending_cpu_usage (rl_state db') + cpu,
                                 pending_net_usage := pending_net_usage (rl_state db') + net\<rparr>
       in EOS_ASSERT (pending_cpu_usage state \<le> el_max (cpu_limit_parameters (rl_config db'))) block_resource_exhausted
          (EOS_ASSERT (pending_net_usage state \<le> el_max (net_limit_parameters (rl_config db'))) block_resource_exhausted
          (Inr (db'\<lparr>rl_state := state\<rparr>))))"

text \<open>The second comparison negates the change in 64 bits, which is undefined for the least value.\<close>

definition add_pending_ram_usage :: "u64 \<Rightarrow> int \<Rightarrow> resource_db \<Rightarrow> resource_db result" where
  "add_pending_ram_usage account ram_delta db =
     (if ram_delta = 0 then Inr db else
      bindR (db_get account (usages db)) (\<lambda>u.
      EOS_ASSERT (ram_delta \<le> 0 \<or> - 1 - ram_usage u \<ge> of_int ram_delta) transaction_exception
      (EOS_ASSERT (ram_delta \<noteq> - (2 ^ 63)) undefined_behaviour
      (EOS_ASSERT (ram_delta \<ge> 0 \<or> ram_usage u \<ge> of_int (- ram_delta)) transaction_exception
      (Inr (db\<lparr>usages := fm_set account (u\<lparr>ram_usage := ram_usage u + of_int ram_delta\<rparr>) (usages db)\<rparr>))))))"

definition verify_account_ram_usage :: "u64 \<Rightarrow> resource_db \<Rightarrow> unit result" where
  "verify_account_ram_usage account db =
     bindR (get_account_limits account db) (\<lambda>l.
     bindR (db_get account (usages db)) (\<lambda>u.
       if ram_bytes l \<ge> 0
       then EOS_ASSERT (ram_usage u \<le> of_int (ram_bytes l)) ram_usage_exceeded (Inr ())
       else Inr ()))"

definition get_account_ram_usage :: "u64 \<Rightarrow> resource_db \<Rightarrow> int result" where
  "get_account_ram_usage account db = bindR (db_get account (usages db)) (\<lambda>u. Inr (sint (ram_usage u)))"

definition set_account_limits :: "u64 \<Rightarrow> int \<Rightarrow> int \<Rightarrow> int \<Rightarrow> resource_db \<Rightarrow> (resource_db \<times> bool) result" where
  "set_account_limits account ram net cpu db =
     bindR (case fm_find (True, account) (limits db) of
              Some l \<Rightarrow> Inr (l, limits db)
            | None \<Rightarrow> bindR (db_get (False, account) (limits db)) (\<lambda>l.
                bindR (db_create (True, account) l (limits db)) (\<lambda>m. Inr (l, m)))) (\<lambda>(l, m).
       let decreased_limit = (ram \<ge> 0 \<and> (ram_bytes l < 0 \<or> ram < ram_bytes l))
       in Inr (db\<lparr>limits := fm_set (True, account) (l\<lparr>ram_bytes := ram, net_weight := net, cpu_weight := cpu\<rparr>) m\<rparr>,
               decreased_limit))"

definition update_state_and_value :: "u64 \<Rightarrow> int \<Rightarrow> int \<Rightarrow> u64 result" where
  "update_state_and_value tot v pending_value =
     bindR (if v > 0 then
              EOS_ASSERT (tot \<ge> of_int v) rate_limiting_state_inconsistent (Inr (tot - of_int v))
            else Inr tot) (\<lambda>t.
       if pending_value > 0 then
         EOS_ASSERT (- 1 - t \<ge> of_int pending_value) rate_limiting_state_inconsistent (Inr (t + of_int pending_value))
       else Inr t)"

text \<open>\<^verbatim>\<open>lower_bound(true)\<close> in the owner index is the first pending object, if there is one.\<close>

definition first_pending :: "((bool \<times> u64) \<times> limits_object) list \<Rightarrow> (u64 \<times> limits_object) option" where
  "first_pending m = (case dropWhile (\<lambda>x. \<not> fst (fst x)) m of [] \<Rightarrow> None | x # xs \<Rightarrow> Some (snd (fst x), snd x))"

definition apply_pending :: "u64 \<Rightarrow> limits_object \<Rightarrow> resource_db \<Rightarrow> resource_db result" where
  "apply_pending owner p db =
     bindR (db_get (False, owner) (limits db)) (\<lambda>l.
     bindR (update_state_and_value (total_ram_bytes (rl_state db)) (ram_bytes l) (ram_bytes p)) (\<lambda>r.
     bindR (update_state_and_value (total_cpu_weight (rl_state db)) (cpu_weight l) (cpu_weight p)) (\<lambda>c.
     bindR (update_state_and_value (total_net_weight (rl_state db)) (net_weight l) (net_weight p)) (\<lambda>n.
       Inr (db\<lparr>rl_state := (rl_state db)\<lparr>total_ram_bytes := r, total_cpu_weight := c, total_net_weight := n\<rparr>,
               limits := fm_erase (True, owner)
                 (fm_set (False, owner) (l\<lparr>ram_bytes := ram_bytes p, cpu_weight := cpu_weight p, net_weight := net_weight p\<rparr>)
                   (limits db))\<rparr>)))))"

definition pending_rows :: "resource_db \<Rightarrow> ((bool \<times> u64) \<times> limits_object) list" where
  "pending_rows db = filter (\<lambda>x. fst (fst x)) (limits db)"

lemma first_pending_rows:
  "first_pending m =
     (case filter (\<lambda>x. fst (fst x)) m of [] \<Rightarrow> None | x # xs \<Rightarrow> Some (snd (fst x), snd x))"
  by (induction m) (auto simp: first_pending_def split: list.splits)

lemma first_pending_Some:
  assumes "first_pending (limits db) = Some (owner, p)"
  shows "\<exists>rest. pending_rows db = ((True, owner), p) # rest"
proof (cases "pending_rows db")
  case (Cons x xs)
  then have "x \<in> set (filter (\<lambda>x. fst (fst x)) (limits db))" by (simp add: pending_rows_def)
  then have "fst (fst x)" by (simp only: set_filter mem_Collect_eq)
  moreover have "owner = snd (fst x)" "p = snd x"
    using assms Cons by (simp_all add: first_pending_rows pending_rows_def)
  ultimately have "x = ((True, owner), p)" by (simp add: prod_eq_iff)
  then show ?thesis using Cons by simp
qed (use assms in \<open>simp add: first_pending_rows pending_rows_def\<close>)

lemma first_pending_None: "first_pending (limits db) = None \<longleftrightarrow> pending_rows db = []"
  by (auto simp: first_pending_rows pending_rows_def split: list.split)

lemma apply_pending_rows:
  assumes "apply_pending owner p db = Inr db'"
  shows "pending_rows db' = filter (\<lambda>x. fst x \<noteq> (True, owner)) (pending_rows db)"
proof -
  have "filter (\<lambda>x. fst (fst x)) (fm_erase (True, owner) (fm_set (False, owner) l m)) =
      filter (\<lambda>x. fst x \<noteq> (True, owner)) (filter (\<lambda>x. fst (fst x)) m)" for l m
  proof -
    have "filter (\<lambda>x. fst (fst x)) (fm_erase (True, owner) (fm_set (False, owner) l m)) =
      filter (\<lambda>x. fst x \<noteq> (True, owner)) (filter (\<lambda>x. fst (fst x)) (fm_set (False, owner) l m))"
      by (simp add: fm_erase_def conj_commute)
    then show ?thesis by (simp only: filter_fm_set [of fst "(False, owner)", simplified])
  qed
  then show ?thesis
    using assms by (auto simp: apply_pending_def pending_rows_def)
qed

function process_account_limit_updates :: "resource_db \<Rightarrow> resource_db result" where
  "process_account_limit_updates db =
     (case first_pending (limits db) of
        None \<Rightarrow> Inr db
      | Some (owner, p) \<Rightarrow> bindR (apply_pending owner p db) process_account_limit_updates)"
  by pat_completeness auto
termination
proof (relation "measure (\<lambda>db. length (pending_rows db))", goal_cases)
  case (2 db x owner p db')
  then obtain rest where "pending_rows db = ((True, owner), p) # rest"
    using first_pending_Some [of db owner p] by auto
  with apply_pending_rows [of owner p db db'] 2 show ?case
    by (simp add: le_imp_less_Suc)
qed simp

declare process_account_limit_updates.simps [simp del]

definition process_block_usage :: "u32 \<Rightarrow> resource_db \<Rightarrow> resource_db result" where
  "process_block_usage block_num db =
     (let cfg = rl_config db; s = rl_state db
      in bindR (add_usage (pending_cpu_usage s) block_num (periods (cpu_limit_parameters cfg)) (average_block_cpu_usage s)) (\<lambda>c.
         bindR (update_virtual_cpu_limit cfg (s\<lparr>average_block_cpu_usage := c\<rparr>)) (\<lambda>s1.
         let s2 = s1\<lparr>pending_cpu_usage := 0\<rparr>
         in bindR (add_usage (pending_net_usage s2) block_num (periods (net_limit_parameters cfg)) (average_block_net_usage s2)) (\<lambda>n.
            bindR (update_virtual_net_limit cfg (s2\<lparr>average_block_net_usage := n\<rparr>)) (\<lambda>s3.
              Inr (db\<lparr>rl_state := s3\<lparr>pending_net_usage := 0\<rparr>\<rparr>))))))"

definition get_virtual_block_cpu_limit :: "resource_db \<Rightarrow> u64" where
  "get_virtual_block_cpu_limit db = virtual_cpu_limit (rl_state db)"

definition get_virtual_block_net_limit :: "resource_db \<Rightarrow> u64" where
  "get_virtual_block_net_limit db = virtual_net_limit (rl_state db)"

definition get_block_cpu_limit :: "resource_db \<Rightarrow> u64" where
  "get_block_cpu_limit db = el_max (cpu_limit_parameters (rl_config db)) - pending_cpu_usage (rl_state db)"

definition get_block_net_limit :: "resource_db \<Rightarrow> u64" where
  "get_block_net_limit db = el_max (net_limit_parameters (rl_config db)) - pending_net_usage (rl_state db)"

record account_resource_limit =
  arl_used :: int
  arl_available :: int
  arl_max :: int

text \<open>
  The capacity of a window under a greylist limit, and whether that limit is what binds. The code
  has the same text for CPU and for NET.
\<close>

definition greylisted_capacity :: "u64 \<Rightarrow> u32 \<Rightarrow> u32 \<Rightarrow> u64 \<Rightarrow> u64 \<times> bool" where
  "greylisted_capacity block_max greylist_limit window virtual_limit =
     (if greylist_limit < maximum_elastic_resource_multiplier \<and> block_max * ucast greylist_limit < virtual_limit
      then (block_max * ucast greylist_limit, True) else (virtual_limit, False))"

definition limit_of_window :: "u64 \<Rightarrow> u32 \<Rightarrow> int \<Rightarrow> u64 \<Rightarrow> u64 \<Rightarrow> account_resource_limit result" where
  "limit_of_window capacity window weight all_weight value_ex_used =
     (let max_use = max_user_use_in_window capacity window weight all_weight;
          used = integer_divide_ceil (ucast value_ex_used * ucast window) (ucast rate_limiting_precision)
      in bindR (if max_use \<le> used then Inr 0 else downgrade_cast_i64 (max_use - used)) (\<lambda>available.
         bindR (downgrade_cast_i64 used) (\<lambda>u. bindR (downgrade_cast_i64 max_use) (\<lambda>m.
           Inr \<lparr>arl_used = u, arl_available = available, arl_max = m\<rparr>))))"

definition unlimited :: account_resource_limit where
  "unlimited = \<lparr>arl_used = -1, arl_available = -1, arl_max = -1\<rparr>"

definition get_account_cpu_limit_ex :: "u64 \<Rightarrow> u32 \<Rightarrow> resource_db \<Rightarrow> (account_resource_limit \<times> bool) result" where
  "get_account_cpu_limit_ex account greylist_limit db =
     bindR (db_get account (usages db)) (\<lambda>usage. bindR (get_account_limits account db) (\<lambda>l.
       let state = rl_state db; cfg = rl_config db; window = account_cpu_usage_average_window cfg
       in if cpu_weight l < 0 \<or> total_cpu_weight state = 0 then Inr (unlimited, False)
          else let (capacity, greylisted) = greylisted_capacity (el_max (cpu_limit_parameters cfg)) greylist_limit window
                     (virtual_cpu_limit state)
               in bindR (limit_of_window capacity window (cpu_weight l) (total_cpu_weight state)
                    (value_ex (cpu_usage usage))) (\<lambda>arl. Inr (arl, greylisted))))"

definition get_account_net_limit_ex :: "u64 \<Rightarrow> u32 \<Rightarrow> resource_db \<Rightarrow> (account_resource_limit \<times> bool) result" where
  "get_account_net_limit_ex account greylist_limit db =
     bindR (db_get account (usages db)) (\<lambda>usage. bindR (get_account_limits account db) (\<lambda>l.
       let state = rl_state db; cfg = rl_config db; window = account_net_usage_average_window cfg
       in if net_weight l < 0 \<or> total_net_weight state = 0 then Inr (unlimited, False)
          else let (capacity, greylisted) = greylisted_capacity (el_max (net_limit_parameters cfg)) greylist_limit window
                     (virtual_net_limit state)
               in bindR (limit_of_window capacity window (net_weight l) (total_net_weight state)
                    (value_ex (net_usage usage))) (\<lambda>arl. Inr (arl, greylisted))))"

definition get_account_cpu_limit :: "u64 \<Rightarrow> u32 \<Rightarrow> resource_db \<Rightarrow> (int \<times> bool) result" where
  "get_account_cpu_limit account greylist_limit db =
     bindR (get_account_cpu_limit_ex account greylist_limit db) (\<lambda>(arl, g). Inr (arl_available arl, g))"

definition get_account_net_limit :: "u64 \<Rightarrow> u32 \<Rightarrow> resource_db \<Rightarrow> (int \<times> bool) result" where
  "get_account_net_limit account greylist_limit db =
     bindR (get_account_net_limit_ex account greylist_limit db) (\<lambda>(arl, g). Inr (arl_available arl, g))"

section \<open>Totals\<close>

text \<open>
  A weight counts when it is positive and stands in an object that is not pending. The invariant:
  each total is the sum of the weights that count, and every pending object has an actual one.
\<close>

definition counted :: "(limits_object \<Rightarrow> int) \<Rightarrow> bool \<times> u64 \<Rightarrow> limits_object \<Rightarrow> nat" where
  "counted f k l = (if fst k then 0 else nat (f l))"

definition committed :: "(limits_object \<Rightarrow> int) \<Rightarrow> resource_db \<Rightarrow> nat" where
  "committed f db = fm_sum (counted f) (limits db)"

definition int64 :: "int \<Rightarrow> bool" where
  "int64 x \<longleftrightarrow> - (2 ^ 63) \<le> x \<and> x < 2 ^ 63"

definition limits_in_range :: "limits_object \<Rightarrow> bool" where
  "limits_in_range l \<longleftrightarrow> int64 (ram_bytes l) \<and> int64 (net_weight l) \<and> int64 (cpu_weight l)"

definition totals_ok :: "resource_db \<Rightarrow> bool" where
  "totals_ok db \<longleftrightarrow>
     fm_ok (limits db) \<and>
     (\<forall>k l. fm_find k (limits db) = Some l \<longrightarrow> limits_in_range l) \<and>
     (\<forall>a. fm_find (True, a) (limits db) \<noteq> None \<longrightarrow> fm_find (False, a) (limits db) \<noteq> None) \<and>
     unat (total_ram_bytes (rl_state db)) = committed ram_bytes db \<and>
     unat (total_cpu_weight (rl_state db)) = committed cpu_weight db \<and>
     unat (total_net_weight (rl_state db)) = committed net_weight db"

lemma unat_of_int_u64: "0 \<le> v \<Longrightarrow> v < 2 ^ 64 \<Longrightarrow> unat (of_int v :: u64) = nat v"
  by (simp add: unsigned_of_int take_bit_int_eq_self)

lemma update_state_and_value_exact:
  assumes "int64 v" and "int64 p" and "nat v \<le> unat tot"
  shows "update_state_and_value tot v p =
    (if unat tot - nat v + nat p < 2 ^ 64 then Inr (of_nat (unat tot - nat v + nat p))
     else Inl rate_limiting_state_inconsistent)"
proof -
  have v: "v > 0 \<Longrightarrow> unat (of_int v :: u64) = nat v" and p: "p > 0 \<Longrightarrow> unat (of_int p :: u64) = nat p"
    using assms by (auto simp: int64_def intro!: unat_of_int_u64)
  define t where "t = (if v > 0 then tot - of_int v else tot)"
  have ut: "unat t = unat tot - nat v"
    using assms(3) v by (auto simp: t_def unat_sub word_le_nat_alt)
  have 1: "update_state_and_value tot v p =
     (if p > 0 then EOS_ASSERT (- 1 - t \<ge> of_int p) rate_limiting_state_inconsistent (Inr (t + of_int p))
      else Inr t)"
    using assms(3) v by (auto simp: update_state_and_value_def t_def EOS_ASSERT_def word_le_nat_alt bindR_def)
  have 2: "- 1 - t \<ge> of_int p \<longleftrightarrow> unat t + unat (of_int p :: u64) < 2 ^ 64"
    using room_left_iff [of "of_int p" t] by simp
  have "t = of_nat (unat t)" "t + of_int p = of_nat (unat t + unat (of_int p :: u64))" by simp_all
  moreover have "unat t < 2 ^ 64" using unsigned_less [of t, where ?'a = nat] by simp
  ultimately show ?thesis
    unfolding 1 2 ut [symmetric] using p by (auto simp: EOS_ASSERT_def)
qed

text \<open>Applying a pending object.\<close>

definition limits_applied :: "u64 \<Rightarrow> limits_object \<Rightarrow> resource_db \<Rightarrow> ((bool \<times> u64) \<times> limits_object) list" where
  "limits_applied owner p db = fm_erase (True, owner) (fm_set (False, owner) p (limits db))"

lemma limits_overwrite:
  "l\<lparr>ram_bytes := ram_bytes p, cpu_weight := cpu_weight p, net_weight := net_weight p\<rparr> = (p :: limits_object)"
  by (rule limits_object.equality) simp_all

lemma apply_pending_limits:
  assumes "apply_pending owner p db = Inr db'"
  shows "limits db' = limits_applied owner p db" and "usages db' = usages db" and "rl_config db' = rl_config db"
  using assms by (auto simp: apply_pending_def limits_applied_def limits_overwrite)

lemma committed_applied:
  assumes "fm_ok (limits db)" and "fm_find (False, owner) (limits db) = Some l"
  shows "fm_sum (counted f) (limits_applied owner p db) = committed f db - nat (f l) + nat (f p)"
proof -
  let ?m = "fm_set (False, owner) p (limits db)"
  have ok: "fm_ok ?m" using assms(1) by (rule fm_ok_set)
  have "fm_sum (counted f) (fm_erase (True, owner) ?m) = fm_sum (counted f) ?m"
    using fm_sum_erase [OF ok, of "counted f" "(True, owner)"] by (auto simp: counted_def split: option.splits)
  moreover have "fm_sum (counted f) ?m + nat (f l) = committed f db + nat (f p)"
    using fm_sum_set [OF assms(1), of "counted f" "(False, owner)" p] assms(2)
    by (simp add: counted_def committed_def)
  moreover have "nat (f l) \<le> committed f db"
    using fm_sum_member [OF assms(2), of "counted f"] by (simp add: counted_def committed_def)
  ultimately show ?thesis unfolding limits_applied_def by linarith
qed

definition totals_fit :: "((bool \<times> u64) \<times> limits_object) list \<Rightarrow> bool" where
  "totals_fit m \<longleftrightarrow> fm_sum (counted ram_bytes) m < 2 ^ 64 \<and> fm_sum (counted cpu_weight) m < 2 ^ 64 \<and>
     fm_sum (counted net_weight) m < 2 ^ 64"

definition with_limits :: "((bool \<times> u64) \<times> limits_object) list \<Rightarrow> resource_db \<Rightarrow> resource_db" where
  "with_limits m db = db\<lparr>rl_state := (rl_state db)\<lparr>total_ram_bytes := of_nat (fm_sum (counted ram_bytes) m),
     total_cpu_weight := of_nat (fm_sum (counted cpu_weight) m),
     total_net_weight := of_nat (fm_sum (counted net_weight) m)\<rparr>, limits := m\<rparr>"

lemma apply_pending_exact:
  assumes ok: "totals_ok db" and p: "fm_find (True, owner) (limits db) = Some p"
  shows "apply_pending owner p db =
    (if totals_fit (limits_applied owner p db) then Inr (with_limits (limits_applied owner p db) db)
     else Inl rate_limiting_state_inconsistent)"
proof -
  obtain l where l: "fm_find (False, owner) (limits db) = Some l"
    using ok p by (fastforce simp: totals_ok_def)
  have fmok: "fm_ok (limits db)" using ok by (simp add: totals_ok_def)
  have range: "limits_in_range l" "limits_in_range p" using ok l p by (auto simp: totals_ok_def)
  have le: "nat (f l) \<le> committed f db" for f
    using fm_sum_member [OF l, of "counted f"] by (simp add: counted_def committed_def)
  have tot: "unat (total_ram_bytes (rl_state db)) = committed ram_bytes db"
    "unat (total_cpu_weight (rl_state db)) = committed cpu_weight db"
    "unat (total_net_weight (rl_state db)) = committed net_weight db"
    using ok by (simp_all add: totals_ok_def)
  note u = update_state_and_value_exact [where tot = "total_ram_bytes (rl_state db)" and v = "ram_bytes l" and p = "ram_bytes p"]
    update_state_and_value_exact [where tot = "total_cpu_weight (rl_state db)" and v = "cpu_weight l" and p = "cpu_weight p"]
    update_state_and_value_exact [where tot = "total_net_weight (rl_state db)" and v = "net_weight l" and p = "net_weight p"]
  show ?thesis
    using range le [of ram_bytes] le [of cpu_weight] le [of net_weight]
    by (simp add: apply_pending_def db_get_def l bindR_def u limits_in_range_def tot limits_overwrite
        totals_fit_def with_limits_def committed_applied [OF fmok l] flip: limits_applied_def)
qed

lemma find_applied:
  "fm_find k (limits_applied owner p db) =
     (if k = (True, owner) then None else if k = (False, owner) then Some p else fm_find k (limits db))"
  by (simp add: limits_applied_def fm_laws)

lemma apply_pending_ok:
  assumes ok: "totals_ok db" and p: "fm_find (True, owner) (limits db) = Some p"
    and a: "apply_pending owner p db = Inr db'"
  shows "totals_ok db'" and "get_account_limits acc db' = get_account_limits acc db"
proof -
  have fit: "totals_fit (limits_applied owner p db)" and db': "db' = with_limits (limits_applied owner p db) db"
    using a by (simp_all add: apply_pending_exact [OF ok p] split: if_splits)
  have u: "x < 2 ^ 64 \<Longrightarrow> unat (of_nat x :: u64) = x" for x
    by (simp add: unsigned_of_nat take_bit_nat_eq_self)
  have "fm_ok (limits_applied owner p db)"
    using ok by (simp add: totals_ok_def limits_applied_def fm_ok_set fm_ok_erase)
  moreover have "limits_in_range p" using ok p by (auto simp: totals_ok_def)
  ultimately show "totals_ok db'"
    using ok fit
    by (auto simp: totals_ok_def db' with_limits_def totals_fit_def committed_def u find_applied split: if_splits)
  show "get_account_limits acc db' = get_account_limits acc db"
    by (auto simp: get_account_limits_def db' with_limits_def find_applied db_get_def p split: option.split)
qed

lemma pending_find:
  assumes "totals_ok db" and "first_pending (limits db) = Some (owner, p)"
  shows "fm_find (True, owner) (limits db) = Some p"
proof -
  have "((True, owner), p) \<in> set (pending_rows db)"
    using first_pending_Some [OF assms(2)] by auto
  then show ?thesis using assms(1) by (auto simp: pending_rows_def totals_ok_def intro: fm_in_set_find)
qed

lemma process_account_limit_updates_ok:
  "totals_ok db \<Longrightarrow> process_account_limit_updates db = Inr db' \<Longrightarrow>
   totals_ok db' \<and> pending_rows db' = [] \<and> (\<forall>a. get_account_limits a db' = get_account_limits a db)"
proof (induction db rule: process_account_limit_updates.induct)
  case (1 db)
  show ?case
  proof (cases "first_pending (limits db)")
    case None
    then show ?thesis
      using 1(2,3) None [unfolded first_pending_None] by (simp add: process_account_limit_updates.simps [of db])
  next
    case (Some x)
    obtain owner p where x: "x = (owner, p)" by force
    obtain db1 where db1: "apply_pending owner p db = Inr db1" "process_account_limit_updates db1 = Inr db'"
      using 1(3) Some x by (auto simp: process_account_limit_updates.simps [of db])
    note f = pending_find [OF 1(2) Some [unfolded x]]
    show ?thesis
      using 1(1) [OF Some x [symmetric] db1(1) apply_pending_ok(1) [OF 1(2) f db1(1)] db1(2)]
        apply_pending_ok(2) [OF 1(2) f db1(1)] by simp
  qed
qed

text \<open>
  The rows after each step of the collapse: a pending row replaces the actual row of its account. The
  collapse succeeds exactly when all totals fit 64 bits after every step.
\<close>

fun collapse_steps :: "((bool \<times> u64) \<times> limits_object) list \<Rightarrow> ((bool \<times> u64) \<times> limits_object) list \<Rightarrow>
    ((bool \<times> u64) \<times> limits_object) list list" where
  "collapse_steps [] m = []"
| "collapse_steps ((k, p) # rows) m =
     (let m' = fm_erase (True, snd k) (fm_set (False, snd k) p m) in m' # collapse_steps rows m')"

lemma with_limits_same: "totals_ok db \<Longrightarrow> with_limits (limits db) db = db"
proof -
  have u: "unat t = n \<Longrightarrow> of_nat n = (t :: u64)" for t n by auto
  assume "totals_ok db"
  then have "of_nat (fm_sum (counted ram_bytes) (limits db)) = total_ram_bytes (rl_state db)"
    "of_nat (fm_sum (counted cpu_weight) (limits db)) = total_cpu_weight (rl_state db)"
    "of_nat (fm_sum (counted net_weight) (limits db)) = total_net_weight (rl_state db)"
    by (auto simp: totals_ok_def committed_def intro!: u)
  then show ?thesis by (cases db, cases "rl_state db") (simp add: with_limits_def)
qed

lemma with_limits_twice: "with_limits m (with_limits m' db) = with_limits m db"
  by (simp add: with_limits_def)

lemma pending_rows_step:
  assumes "totals_ok db" "pending_rows db = ((True, owner), p) # rest" "apply_pending owner p db = Inr db'"
  shows "pending_rows db' = rest"
proof -
  have "distinct (map fst (limits db))"
    using assms(1) by (auto simp: totals_ok_def fm_ok_def strict_sorted_iff)
  then have "distinct (map fst (pending_rows db))" unfolding pending_rows_def by (rule distinct_map_filter)
  then have "(True, owner) \<notin> fst ` set rest" by (simp add: assms(2))
  then have "filter (\<lambda>x. fst x \<noteq> (True, owner)) rest = rest" by (force simp: filter_id_conv)
  then show ?thesis using apply_pending_rows [OF assms(3)] by (simp add: assms(2))
qed

lemma process_account_limit_updates_exact:
  "totals_ok db \<Longrightarrow> process_account_limit_updates db =
    (let steps = collapse_steps (pending_rows db) (limits db)
     in if list_all totals_fit steps then Inr (with_limits (last (limits db # steps)) db)
        else Inl rate_limiting_state_inconsistent)"
proof (induction db rule: process_account_limit_updates.induct)
  case (1 db)
  show ?case
  proof (cases "first_pending (limits db)")
    case None
    then show ?thesis
      using None [unfolded first_pending_None] with_limits_same [OF 1(2)]
      by (simp add: process_account_limit_updates.simps [of db])
  next
    case (Some x)
    obtain owner p where x: "x = (owner, p)" by force
    note f = pending_find [OF 1(2) Some [unfolded x]]
    obtain rest where rows: "pending_rows db = ((True, owner), p) # rest"
      using first_pending_Some Some x by blast
    let ?m = "limits_applied owner p db"
    have steps: "collapse_steps (pending_rows db) (limits db) = ?m # collapse_steps rest ?m"
      by (simp add: rows limits_applied_def Let_def)
    show ?thesis
    proof (cases "totals_fit ?m")
      case True
      then have a: "apply_pending owner p db = Inr (with_limits ?m db)" using apply_pending_exact [OF 1(2) f] by simp
      have "limits (with_limits ?m db) = ?m" by (simp add: with_limits_def)
      then have "process_account_limit_updates (with_limits ?m db) =
          (if list_all totals_fit (collapse_steps rest ?m) then Inr (with_limits (last (?m # collapse_steps rest ?m)) db)
           else Inl rate_limiting_state_inconsistent)"
        using 1(1) [OF Some x [symmetric] a apply_pending_ok(1) [OF 1(2) f a]] pending_rows_step [OF 1(2) rows a]
        by (simp add: Let_def with_limits_twice)
      then show ?thesis
        unfolding Let_def steps using True
        by (simp add: process_account_limit_updates.simps [of db] Some x a del: last.simps) simp
    next
      case False
      then have "apply_pending owner p db = Inl rate_limiting_state_inconsistent" using apply_pending_exact [OF 1(2) f] by simp
      then show ?thesis
        using False by (simp add: process_account_limit_updates.simps [of db] Some x steps bindR_def)
    qed
  qed
qed

section \<open>Sequences of operations\<close>

datatype rl_op =
    Initialize_Account u64
  | Set_Block_Parameters elastic_limit_parameters elastic_limit_parameters
  | Update_Account_Usage "u64 list" u32
  | Add_Transaction_Usage "u64 list" u64 u64 u32
  | Add_Pending_Ram_Usage u64 int
  | Set_Account_Limits u64 int int int
  | Process_Account_Limit_Updates
  | Process_Block_Usage u32

fun rl_exec :: "rl_op \<Rightarrow> resource_db \<Rightarrow> resource_db result" where
  "rl_exec (Initialize_Account a) db = initialize_account a db"
| "rl_exec (Set_Block_Parameters cpu net) db = set_block_parameters cpu net db"
| "rl_exec (Update_Account_Usage as slot) db = update_account_usage as slot db"
| "rl_exec (Add_Transaction_Usage as cpu net slot) db = add_transaction_usage as cpu net slot db"
| "rl_exec (Add_Pending_Ram_Usage a d) db = add_pending_ram_usage a d db"
| "rl_exec (Set_Account_Limits a ram net cpu) db = bindR (set_account_limits a ram net cpu db) (\<lambda>(db', _). Inr db')"
| "rl_exec Process_Account_Limit_Updates db = process_account_limit_updates db"
| "rl_exec (Process_Block_Usage n) db = process_block_usage n db"

fun rl_op_ok :: "rl_op \<Rightarrow> bool" where
  "rl_op_ok (Set_Account_Limits a ram net cpu) = (int64 ram \<and> int64 net \<and> int64 cpu)"
| "rl_op_ok _ = True"

text \<open>Operations that leave the limit objects and the totals alone.\<close>

definition same_totals :: "resource_db \<Rightarrow> resource_db \<Rightarrow> bool" where
  "same_totals db db' \<longleftrightarrow>
     limits db' = limits db \<and> total_ram_bytes (rl_state db') = total_ram_bytes (rl_state db) \<and>
     total_cpu_weight (rl_state db') = total_cpu_weight (rl_state db) \<and>
     total_net_weight (rl_state db') = total_net_weight (rl_state db)"

lemma same_totals_ok: "same_totals db db' \<Longrightarrow> totals_ok db \<Longrightarrow> totals_ok db'"
  by (simp add: same_totals_def totals_ok_def committed_def)

lemma same_totals_refl [simp]: "same_totals db db"
  by (simp add: same_totals_def)

lemma same_totals_trans: "same_totals a b \<Longrightarrow> same_totals b c \<Longrightarrow> same_totals a c"
  by (simp add: same_totals_def)

lemma foldR_same_totals:
  assumes "foldR f xs db = Inr db'" and "\<And>x d d'. f x d = Inr d' \<Longrightarrow> same_totals d d'"
  shows "same_totals db db'"
proof (rule foldR_invariant [OF assms(1), where P = "same_totals db"])
  show "same_totals db db" by simp
  show "\<And>x s s'. x \<in> set xs \<Longrightarrow> same_totals db s \<Longrightarrow> f x s = Inr s' \<Longrightarrow> same_totals db s'"
    using assms(2) same_totals_trans by blast
qed

lemma EOS_ASSERT_Inr_iff: "EOS_ASSERT b e k = Inr x \<longleftrightarrow> b \<and> k = Inr x"
  by (simp add: EOS_ASSERT_def)

lemma update_account_usage_same: "update_account_usage as slot db = Inr db' \<Longrightarrow> same_totals db db'"
  unfolding update_account_usage_def by (erule foldR_same_totals) (auto simp: same_totals_def)

lemma add_transaction_usage_for_same:
  "add_transaction_usage_for cpu net slot a db = Inr db' \<Longrightarrow> same_totals db db'"
  by (auto simp: add_transaction_usage_for_def Let_def EOS_ASSERT_Inr_iff same_totals_def)

lemma add_transaction_usage_same:
  assumes "add_transaction_usage as cpu net slot db = Inr db'"
  shows "same_totals db db'"
proof -
  obtain d where d: "foldR (add_transaction_usage_for cpu net slot) as db = Inr d"
    and "same_totals d db'"
    using assms by (auto simp: add_transaction_usage_def Let_def EOS_ASSERT_Inr_iff same_totals_def)
  then show ?thesis
    using foldR_same_totals [OF d] add_transaction_usage_for_same same_totals_trans by blast
qed

lemma process_block_usage_same: "process_block_usage n db = Inr db' \<Longrightarrow> same_totals db db'"
  by (auto simp: process_block_usage_def Let_def update_virtual_cpu_limit_def update_virtual_net_limit_def
      same_totals_def)

lemma set_block_parameters_same: "set_block_parameters c n db = Inr db' \<Longrightarrow> same_totals db db'"
  by (auto simp: set_block_parameters_def same_totals_def split: if_splits)

lemma add_pending_ram_usage_same: "add_pending_ram_usage a d db = Inr db' \<Longrightarrow> same_totals db db'"
  by (auto simp: add_pending_ram_usage_def EOS_ASSERT_Inr_iff same_totals_def split: if_splits)

text \<open>Adding or replacing an object that counts nothing.\<close>

lemma totals_ok_set:
  assumes ok: "totals_ok db" and range: "limits_in_range l"
    and none: "\<And>f. f \<in> {ram_bytes, cpu_weight, net_weight} \<Longrightarrow>
      counted f k l = 0 \<and> (case fm_find k (limits db) of Some l' \<Rightarrow> counted f k l' | None \<Rightarrow> 0) = 0"
    and actual: "fst k \<Longrightarrow> fm_find (False, snd k) (limits db) \<noteq> None"
  shows "totals_ok (db\<lparr>limits := fm_set k l (limits db)\<rparr>)"
proof -
  have fmok: "fm_ok (limits db)" using ok by (simp add: totals_ok_def)
  have "fm_sum (counted f) (fm_set k l (limits db)) = committed f db"
    if "f \<in> {ram_bytes, cpu_weight, net_weight}" for f
    using fm_sum_set [OF fmok, of "counted f" k l] none [OF that] by (simp add: committed_def)
  moreover have "fm_find (True, a) (fm_set k l (limits db)) \<noteq> None \<Longrightarrow>
      fm_find (False, a) (fm_set k l (limits db)) \<noteq> None" for a
    using ok actual by (cases k) (auto simp: totals_ok_def fm_find_set split: if_splits)
  ultimately show ?thesis
    using ok range fmok by (simp add: totals_ok_def committed_def fm_ok_set) (auto simp: fm_find_set split: if_splits)
qed

lemma initialize_account_ok:
  assumes "totals_ok db" and "initialize_account a db = Inr db'"
  shows "totals_ok db'"
proof -
  let ?l = "\<lparr>net_weight = -1, cpu_weight = -1, ram_bytes = -1\<rparr>"
  have none: "fm_find (False, a) (limits db) = None"
    and l: "limits db' = fm_set (False, a) ?l (limits db)" and s: "rl_state db' = rl_state db"
    using assms(2) by (auto simp: initialize_account_def db_create_def split: if_splits)
  have "totals_ok (db\<lparr>limits := fm_set (False, a) ?l (limits db)\<rparr>)"
    by (rule totals_ok_set [OF assms(1)]) (auto simp: none counted_def limits_in_range_def int64_def)
  then show ?thesis using l s by (simp add: totals_ok_def committed_def)
qed

lemma limits_set_all:
  "l\<lparr>ram_bytes := r, net_weight := n, cpu_weight := c\<rparr> = \<lparr>net_weight = n, cpu_weight = c, ram_bytes = (r :: int)\<rparr>"
  by (rule limits_object.equality) simp_all

lemma set_account_limits_ok:
  assumes ok: "totals_ok db" and s: "set_account_limits a ram net cpu db = Inr (db', d)"
    and range: "int64 ram" "int64 net" "int64 cpu"
  shows "totals_ok db'"
proof -
  let ?new = "\<lparr>net_weight = net, cpu_weight = cpu, ram_bytes = ram\<rparr>"
  have fmok: "fm_ok (limits db)" using ok by (simp add: totals_ok_def)
  have act: "fm_find (False, a) (limits db) \<noteq> None" and db': "db' = db\<lparr>limits := fm_set (True, a) ?new (limits db)\<rparr>"
  proof (atomize (full), cases "fm_find (True, a) (limits db)")
    case None
    then obtain l where l: "fm_find (False, a) (limits db) = Some l"
      using s by (auto simp: set_account_limits_def db_get_def split: option.splits)
    show "fm_find (False, a) (limits db) \<noteq> None \<and> db' = db\<lparr>limits := fm_set (True, a) ?new (limits db)\<rparr>"
      using s None l fmok
      by (simp add: set_account_limits_def db_get_def db_create_def bindR_def Let_def fm.put_put [OF fmok]
          limits_set_all)
  next
    case (Some l)
    show "fm_find (False, a) (limits db) \<noteq> None \<and> db' = db\<lparr>limits := fm_set (True, a) ?new (limits db)\<rparr>"
      using s Some ok by (auto simp: set_account_limits_def bindR_def Let_def totals_ok_def limits_set_all)
  qed
  show ?thesis
    unfolding db'
    by (rule totals_ok_set [OF ok]) (use act range in \<open>auto simp: counted_def limits_in_range_def split: option.split\<close>)
qed

lemma rl_exec_totals:
  assumes "totals_ok db" and "rl_op_ok op" and "rl_exec op db = Inr db'"
  shows "totals_ok db'"
proof (cases op)
  case (Set_Account_Limits a ram net cpu)
  then show ?thesis
    using assms set_account_limits_ok by (auto simp: bindR_pair_Inr)
next
  case Process_Account_Limit_Updates
  then show ?thesis using assms process_account_limit_updates_ok by simp
qed (use assms in \<open>auto intro: same_totals_ok initialize_account_ok dest!: set_block_parameters_same
      update_account_usage_same add_transaction_usage_same add_pending_ram_usage_same process_block_usage_same\<close>)

lemma totals_ok_initial: "totals_ok initialize_database"
  by (simp add: totals_ok_def initialize_database_def committed_def)

end
