(* ===== verification/Resource_Averages.thy ===== *)
theory Resource_Averages
  imports Resource_Limits
begin

text \<open>
  The arithmetic of the moving averages and elastic limits over the natural numbers: no step of
  \<open>add_usage\<close> wraps around, the average of block usage stays within its budget, and with sane block
  parameters the processing of a block cannot fail. Also the shares of a window: together they
  never exceed the window.
\<close>

section \<open>Words as numbers\<close>

definition ceil_div :: "nat \<Rightarrow> nat \<Rightarrow> nat" where
  "ceil_div n d = n div d + (if n mod d > 0 then 1 else 0)"

lemma ceil_div_bounds:
  assumes "0 < d"
  shows "n \<le> ceil_div n d * d" and "ceil_div n d * d < n + d" and "ceil_div n d \<le> n"
proof -
  obtain q r where qr: "n div d = q" "n mod d = r" by simp
  have n: "n = q * d + r" unfolding qr [symmetric] by simp
  have r: "r < d" unfolding qr [symmetric] using assms by simp
  have c: "ceil_div n d * d = q * d + (if r > 0 then d else 0)"
    by (simp add: ceil_div_def qr)
  show 1: "n \<le> ceil_div n d * d" and 2: "ceil_div n d * d < n + d"
    unfolding c using r by (simp_all add: n)
  show "ceil_div n d \<le> n"
  proof (rule ccontr)
    assume "\<not> ceil_div n d \<le> n"
    then have "(n + 1) * d \<le> ceil_div n d * d" by (intro mult_le_mono1) simp
    moreover have "n * 1 \<le> n * d" using assms by (intro mult_le_mono2) simp
    ultimately show False using 2 unfolding add_mult_distrib by linarith
  qed
qed

lemma unat_integer_divide_ceil: "unat (integer_divide_ceil n d) = ceil_div (unat n) (unat d)"
proof (cases "unat n mod unat d > 0")
  case True
  have pos: "unat n > 0" using True by (cases "unat n") auto
  have "unat n div unat d < unat n"
  proof (cases "unat d > 1")
    case False
    then consider "unat d = 0" | "unat d = 1" by linarith
    then show ?thesis using True pos by cases simp_all
  qed (use pos in simp)
  moreover have "unat n < 2 ^ LENGTH('a)" by (rule unsigned_less)
  ultimately have "unat n div unat d + 1 < 2 ^ LENGTH('a)" by linarith
  then have "unat (n div d + 1) = unat n div unat d + 1"
    using unat_plus_no_wrap [of "n div d" 1] by (simp add: unat_div)
  then show ?thesis
    using True by (simp add: integer_divide_ceil_def ceil_div_def unat_mod word_less_nat_alt)
next
  case False
  then show ?thesis
    by (simp add: integer_divide_ceil_def ceil_div_def unat_div unat_mod word_less_nat_alt)
qed

lemma unat_precision [simp]: "unat precision_u64 = 1000000"
  by (simp add: precision_u64_def rate_limiting_precision_def)

lemma unat_average: "unat (average a) = ceil_div (unat (value_ex a)) 1000000"
  by (simp add: average_def unat_integer_divide_ceil)

lemma unat_ucast_up:
  "LENGTH('a) \<le> LENGTH('b) \<Longrightarrow> unat (ucast (x :: 'a :: len word) :: 'b :: len word) = unat x"
  by (simp add: unsigned_ucast_eq take_bit_nat_eq_self unsigned_less [THEN order.strict_trans2])

lemma unat_times_no_wrap:
  "unat (a :: 'a :: len word) * unat b < 2 ^ LENGTH('a) \<Longrightarrow> unat (a * b) = unat a * unat b"
  by (simp add: unat_word_ariths)

lemma u64_bound: "unat (x :: u64) < 18446744073709551616"
  using unsigned_less [of x, where ?'a = nat] by simp

lemma u32_bound: "unat (x :: u32) < 4294967296"
  using unsigned_less [of x, where ?'a = nat] by simp

text \<open>The product with a ratio.\<close>

lemma ratio_times_exact:
  assumes "unat v * unat (numerator r) < 2 ^ 64" and "denominator r \<noteq> 0"
  shows "ratio_times v r = Inr ((v * numerator r) div denominator r)"
    and "unat ((v * numerator r) div denominator r) = unat v * unat (numerator r) div unat (denominator r)"
proof -
  have "v \<le> - 1 div numerator r" if "numerator r \<noteq> 0"
  proof -
    have "unat v * unat (numerator r) \<le> 2 ^ 64 - 1" using assms(1) by simp
    moreover have "0 < unat (numerator r)" using that by (simp add: unat_gt_0)
    ultimately have "unat v \<le> (2 ^ 64 - 1) div unat (numerator r)"
      by (simp add: less_eq_div_iff_mult_less_eq)
    then show ?thesis by (simp add: word_le_nat_alt unat_div unat_max_word)
  qed
  then show "ratio_times v r = Inr ((v * numerator r) div denominator r)"
    using assms(2) by (auto simp: ratio_times_def EOS_ASSERT_def)
  show "unat ((v * numerator r) div denominator r) = unat v * unat (numerator r) div unat (denominator r)"
    using assms(1) by (simp add: unat_div unat_times_no_wrap)
qed

section \<open>Adding usage\<close>

definition decayed :: "u32 \<Rightarrow> u32 \<Rightarrow> usage_accumulator \<Rightarrow> nat" where
  "decayed ordinal w a =
     (if last_ordinal a = ordinal then unat (value_ex a)
      else if unat (last_ordinal a) + unat w > unat ordinal
      then unat (value_ex a) * (unat w - (unat ordinal - unat (last_ordinal a))) div unat w
      else 0)"

lemma advance_exact:
  assumes lt: "last_ordinal a < ordinal" and w: "w \<noteq> 0" and fit: "unat (value_ex a) * unat w < 2 ^ 64"
  shows "\<exists>a'. advance ordinal w a = Inr a' \<and> last_ordinal a' = ordinal \<and>
    unat (value_ex a') = decayed ordinal w a \<and> unat (consumed a') = ceil_div (decayed ordinal w a) 1000000"
proof -
  have d: "unat (ordinal - last_ordinal a) = unat ordinal - unat (last_ordinal a)"
    using lt by (simp add: unat_sub order.strict_implies_order)
  have sum: "unat ((ucast (last_ordinal a) :: u64) + ucast w) = unat (last_ordinal a) + unat w"
    using u32_bound [of "last_ordinal a"] u32_bound [of w]
    by (subst unat_plus_no_wrap) (simp_all add: unat_ucast_up)
  have cond: "(ucast (last_ordinal a) :: u64) + ucast w > ucast ordinal \<longleftrightarrow>
      unat (last_ordinal a) + unat w > unat ordinal"
    by (simp add: word_less_nat_alt sum unat_ucast_up)
  have ne: "last_ordinal a \<noteq> ordinal" using lt by auto
  have step: "\<exists>a'. advance ordinal w a = Inr a' \<and> last_ordinal a' = ordinal \<and>
    unat (value_ex a') = unat v \<and> unat (consumed a') = ceil_div (unat v) 1000000"
    if "(if (ucast (last_ordinal a) :: u64) + ucast w > ucast ordinal
         then ratio_times (value_ex a)
           \<lparr>numerator = ucast w - ucast (ordinal - last_ordinal a), denominator = ucast w\<rparr>
         else Inr 0) = Inr v" for v
    using lt ne that by (simp add: advance_def EOS_ASSERT_def bindR_def Let_def unat_average)
  show ?thesis
  proof (cases "unat (last_ordinal a) + unat w > unat ordinal")
    case True
    let ?r = "\<lparr>numerator = ucast w - ucast (ordinal - last_ordinal a), denominator = ucast w\<rparr> :: ratio"
    have n: "unat (numerator ?r) = unat w - (unat ordinal - unat (last_ordinal a))"
      using True by (simp add: unat_sub word_le_nat_alt unat_ucast_up d)
    have "unat (value_ex a) * unat (numerator ?r) < 2 ^ 64"
      using fit unfolding n by (meson diff_le_self mult_le_mono2 order.strict_trans1)
    moreover have "denominator ?r \<noteq> 0"
      using w by (simp add: unat_ucast_up flip: unat_eq_zero)
    ultimately have r: "ratio_times (value_ex a) ?r = Inr ((value_ex a * numerator ?r) div denominator ?r)"
      "unat ((value_ex a * numerator ?r) div denominator ?r) =
         unat (value_ex a) * unat (numerator ?r) div unat (denominator ?r)"
      by (rule ratio_times_exact)+
    have e: "decayed ordinal w a = unat ((value_ex a * numerator ?r) div denominator ?r)"
      unfolding r(2) n using True ne by (simp add: decayed_def unat_ucast_up)
    show ?thesis
      unfolding e by (rule step) (use True cond r(1) in simp)
  next
    case False
    then have "decayed ordinal w a = unat (0 :: u64)" using ne by (simp add: decayed_def)
    then show ?thesis using step [of 0] False cond by simp
  qed
qed

lemma contribution_exact:
  assumes "w \<noteq> 0" and "unat (units :: u64) * 1000000 < 2 ^ 64"
  shows "\<exists>c. downgrade_cast_u64 (integer_divide_ceil (ucast units * ucast precision_u64) (ucast w)) = Inr c \<and>
    unat c = ceil_div (unat units * 1000000) (unat (w :: u32))"
proof -
  let ?n = "ucast units * ucast precision_u64 :: u128"
  let ?q = "integer_divide_ceil ?n (ucast w)"
  have n: "unat ?n = unat units * 1000000"
    using assms(2) by (subst unat_times_no_wrap) (simp_all add: unat_ucast_up)
  have q: "unat ?q = ceil_div (unat units * 1000000) (unat w)"
    by (simp add: unat_integer_divide_ceil n unat_ucast_up)
  have "0 < unat w" using assms(1) by (simp add: unat_gt_0)
  then have "unat ?q \<le> unat units * 1000000"
    unfolding q by (rule ceil_div_bounds)
  then have small: "unat ?q < 2 ^ 64" using assms(2) by simp
  have "unat (2 ^ 64 - 1 :: u128) = 2 ^ 64 - 1" by simp
  then have "?q \<le> 2 ^ 64 - 1" using small by (simp add: word_le_nat_alt)
  moreover have "unat (ucast ?q :: u64) = unat ?q"
    using small by (simp add: unsigned_ucast_eq take_bit_nat_eq_self)
  ultimately show ?thesis
    using q by (simp add: downgrade_cast_u64_def EOS_ASSERT_def)
qed

text \<open>
  An accumulator that is charged at most \<open>u\<close> per period over a window of \<open>w\<close> periods, once per
  period.
\<close>

definition within_budget :: "nat \<Rightarrow> nat \<Rightarrow> usage_accumulator \<Rightarrow> bool" where
  "within_budget u w a \<longleftrightarrow>
     unat (value_ex a) \<le> u * 1000000 + w \<and> unat (consumed a) \<le> 2 * u + w + 2"

lemma budget_step:
  fixes u v w x :: nat
  assumes "0 < w" and "v \<le> u * 1000000 + w" and "x \<le> u" and "k < w"
  shows "v * k div w + ceil_div (x * 1000000) w \<le> u * 1000000 + w"
proof -
  let ?b = "u * 1000000 + w"
  have "v * k div w * w \<le> v * k" by simp
  also have "\<dots> \<le> ?b * (w - 1)" using assms(2,4) by (intro mult_le_mono) simp_all
  finally have 1: "v * k div w * w \<le> ?b * (w - 1)" .
  have "ceil_div (x * 1000000) w * w < x * 1000000 + w" by (rule ceil_div_bounds [OF assms(1)])
  also have "\<dots> \<le> ?b" using assms(3) by simp
  finally have 2: "ceil_div (x * 1000000) w * w < ?b" .
  have "?b * (w - 1) + ?b = ?b * w" using assms(1) by (cases w) simp_all
  with 1 2 have "(v * k div w + ceil_div (x * 1000000) w) * w < ?b * w"
    by (simp add: add_mult_distrib)
  then show ?thesis by simp
qed

lemma decayed_budget:
  assumes "last_ordinal a < ordinal" and "w \<noteq> 0" and "unat (value_ex a) \<le> u * 1000000 + unat w" and "x \<le> u"
  shows "decayed ordinal w a + ceil_div (x * 1000000) (unat w) \<le> u * 1000000 + unat w"
    and "decayed ordinal w a \<le> u * 1000000 + unat w"
proof -
  have w: "0 < unat w" using assms(2) by (simp add: unat_gt_0)
  have lt: "unat (last_ordinal a) < unat ordinal" using assms(1) by (simp add: word_less_nat_alt)
  show 1: "decayed ordinal w a + ceil_div (x * 1000000) (unat w) \<le> u * 1000000 + unat w"
  proof (cases "unat (last_ordinal a) + unat w > unat ordinal")
    case True
    have "unat w - (unat ordinal - unat (last_ordinal a)) < unat w" using lt w by simp
    from budget_step [OF w assms(3,4) this] True lt show ?thesis by (auto simp: decayed_def)
  next
    case False
    then show ?thesis
      using budget_step [OF w, of 0 u x 0] w assms(4) lt by (auto simp: decayed_def)
  qed
  show "decayed ordinal w a \<le> u * 1000000 + unat w" using 1 by linarith
qed

lemma add_usage_within_budget:
  assumes lt: "last_ordinal a < ordinal" and w: "w \<noteq> 0" and b: "within_budget u (unat w) a"
    and x: "unat units \<le> u" and fit: "(u * 1000000 + unat w) * (unat w + 1) < 2 ^ 64"
  shows "\<exists>a'. add_usage units ordinal w a = Inr a' \<and> within_budget u (unat w) a' \<and> last_ordinal a' = ordinal \<and>
    unat (value_ex a') = decayed ordinal w a + ceil_div (unat units * 1000000) (unat w)"
proof -
  let ?b = "u * 1000000 + unat w" and ?d = "decayed ordinal w a"
  have pos: "0 < unat w" using w by (simp add: unat_gt_0)
  have v: "unat (value_ex a) \<le> ?b" and cons: "unat (consumed a) \<le> 2 * u + unat w + 2"
    using b by (simp_all add: within_budget_def)
  have "?b * 2 \<le> ?b * (unat w + 1)" using pos by (intro mult_le_mono2) simp
  with fit have b2: "?b * 2 < 2 ^ 64" by linarith
  have u32: "unat w < 4294967296" by (rule u32_bound)
  have "unat units * 1000000 < 2 ^ 64" using x b2 by simp
  then obtain c where c: "downgrade_cast_u64 (integer_divide_ceil (ucast units * ucast precision_u64) (ucast w)) = Inr c"
    "unat c = ceil_div (unat units * 1000000) (unat w)"
    using contribution_exact [OF w] by blast
  have "unat (value_ex a) * unat w \<le> ?b * (unat w + 1)" using v by (intro mult_le_mono) simp_all
  with fit have "unat (value_ex a) * unat w < 2 ^ 64" by linarith
  then obtain a1 where a1: "advance ordinal w a = Inr a1" "last_ordinal a1 = ordinal"
    "unat (value_ex a1) = ?d" "unat (consumed a1) = ceil_div ?d 1000000"
    using advance_exact [OF lt w] by blast
  note dec = decayed_budget [OF lt w v x]
  have raw: "units \<le> max_raw_value"
  proof -
    have "unat max_raw_value = (2 ^ 64 - 1) div 1000000"
      by (simp add: max_raw_value_def unat_div unat_max_word)
    moreover have "unat units \<le> (2 ^ 64 - 1) div 1000000" using x b2 by simp
    ultimately show ?thesis by (simp add: word_le_nat_alt)
  qed
  have room: "- 1 - consumed a \<ge> units"
    using cons x b2 u32 by (simp add: room_left_iff)
  have "unat c \<le> unat units * 1000000" using ceil_div_bounds(3) [OF pos] by (simp add: c(2))
  then have "unat c \<le> u * 1000000" using x by linarith
  then have room': "- 1 - value_ex a \<ge> c"
    using v b2 by (simp add: room_left_iff)
  define a2 where "a2 = a1\<lparr>consumed := consumed a1 + units, value_ex := value_ex a1 + c\<rparr>"
  have run: "add_usage units ordinal w a = Inr a2"
    using raw room room' w c(1) a1(1) by (simp add: add_usage_def EOS_ASSERT_def bindR_def a2_def)
  have v2: "unat (value_ex a2) = ?d + unat c"
    using dec(1) b2 unfolding c(2) a2_def
    by (simp add: unat_plus_no_wrap a1(3) c(2))
  have cd: "ceil_div ?d 1000000 * 1000000 < ?d + 1000000" by (rule ceil_div_bounds) simp
  then have "ceil_div ?d 1000000 \<le> u + unat w + 1" using dec(2) by linarith
  then have c2: "unat (consumed a2) \<le> 2 * u + unat w + 2"
    using x b2 u32 by (simp add: a2_def unat_plus_no_wrap a1(4))
  have "within_budget u (unat w) a2" using v2 c2 dec(1) by (simp add: within_budget_def c(2))
  then show ?thesis using run v2 c(2) a1(2) by (simp add: a2_def)
qed

section \<open>Elastic limits\<close>

definition sane_parameters :: "elastic_limit_parameters \<Rightarrow> bool" where
  "sane_parameters p \<longleftrightarrow>
     (let top = unat (el_max p) * unat (max_multiplier p)
      in periods p \<noteq> 0 \<and> 0 < unat (max_multiplier p) \<and>
         denominator (contract_rate p) \<noteq> 0 \<and> denominator (expand_rate p) \<noteq> 0 \<and>
         (unat (el_max p) * 1000000 + unat (periods p)) * (unat (periods p) + 1) < 2 ^ 64 \<and>
         top < 2 ^ 64 \<and>
         top * unat (numerator (contract_rate p)) < 2 ^ 64 \<and> top * unat (numerator (expand_rate p)) < 2 ^ 64)"

definition elastic_range :: "elastic_limit_parameters \<Rightarrow> u64 \<Rightarrow> bool" where
  "elastic_range p v \<longleftrightarrow> unat (el_max p) \<le> unat v \<and> unat v \<le> unat (el_max p) * unat (max_multiplier p)"

lemma update_elastic_limit_range:
  assumes p: "sane_parameters p" and v: "elastic_range p v"
  shows "\<exists>v'. update_elastic_limit v avg p = Inr v' \<and> elastic_range p v'"
proof -
  let ?top = "unat (el_max p) * unat (max_multiplier p)"
  let ?r = "if avg > el_target p then contract_rate p else expand_rate p"
  have top: "unat (el_max p * ucast (max_multiplier p)) = ?top"
    using p by (subst unat_times_no_wrap) (auto simp: sane_parameters_def Let_def unat_ucast_up)
  have "unat v * unat (numerator ?r) \<le> ?top * unat (numerator ?r)"
    using v by (intro mult_le_mono1) (simp add: elastic_range_def)
  moreover have "?top * unat (numerator ?r) < 2 ^ 64" using p by (simp add: sane_parameters_def Let_def)
  ultimately have "unat v * unat (numerator ?r) < 2 ^ 64" by linarith
  then obtain x where x: "ratio_times v ?r = Inr x"
    using ratio_times_exact(1) [of v ?r] p by (auto simp: sane_parameters_def Let_def)
  have "unat (el_max p) * 1 \<le> ?top" using p by (intro mult_le_mono2) (simp add: sane_parameters_def Let_def)
  then have "elastic_range p (min (max x (el_max p)) (el_max p * ucast (max_multiplier p)))"
    by (auto simp: elastic_range_def min_def max_def top word_le_nat_alt)
  moreover have "update_elastic_limit v avg p = Inr (min (max x (el_max p)) (el_max p * ucast (max_multiplier p)))"
    using x by (auto simp: update_elastic_limit_def bindR_def split: if_splits)
  ultimately show ?thesis by blast
qed

definition block_ok :: "u32 \<Rightarrow> resource_db \<Rightarrow> bool" where
  "block_ok n db \<longleftrightarrow>
     (let cpu = cpu_limit_parameters (rl_config db); net = net_limit_parameters (rl_config db); s = rl_state db
      in sane_parameters cpu \<and> sane_parameters net \<and>
         within_budget (unat (el_max cpu)) (unat (periods cpu)) (average_block_cpu_usage s) \<and>
         within_budget (unat (el_max net)) (unat (periods net)) (average_block_net_usage s) \<and>
         last_ordinal (average_block_cpu_usage s) \<le> n \<and> last_ordinal (average_block_net_usage s) \<le> n \<and>
         elastic_range cpu (virtual_cpu_limit s) \<and> elastic_range net (virtual_net_limit s) \<and>
         pending_cpu_usage s \<le> el_max cpu \<and> pending_net_usage s \<le> el_max net)"

section \<open>Shares of a window\<close>

lemma sum_of_shares:
  fixes c t :: nat
  assumes "fm_sum w m \<le> t" and "0 < t"
  shows "fm_sum (\<lambda>k l. c * w k l div t) m \<le> c"
proof -
  have "fm_sum (\<lambda>k l. c * w k l div t) m * t \<le> c * fm_sum w m"
  proof (induction m)
    case (Cons p m)
    have "c * w (fst p) (snd p) div t * t \<le> c * w (fst p) (snd p)" by simp
    from add_mono [OF this Cons] show ?case by (simp add: add_mult_distrib add_mult_distrib2)
  qed simp
  also have "\<dots> \<le> c * t" using assms(1) by (intro mult_le_mono2)
  finally show ?thesis using assms(2) by simp
qed

lemma unat_of_int_u128: "0 \<le> v \<Longrightarrow> v < 2 ^ 63 \<Longrightarrow> unat (of_int v :: u128) = nat v"
  by (simp add: unsigned_of_int take_bit_int_eq_self)

lemma max_user_use_exact:
  assumes "unat vl * unat window < 2 ^ 65" and "0 \<le> weight" and "weight < 2 ^ 63"
  shows "unat (max_user_use_in_window vl window weight tot) = unat vl * unat window * nat weight div unat tot"
proof -
  have 1: "unat (ucast vl * ucast window :: u128) = unat vl * unat window"
    using assms(1) by (subst unat_times_no_wrap) (simp_all add: unat_ucast_up)
  have "nat weight < 2 ^ 63" using assms(2,3) by (simp add: nat_less_iff)
  then have "unat vl * unat window * nat weight < 2 ^ 65 * 2 ^ 63"
    using assms(1) by (intro mult_strict_mono) simp_all
  then have 2: "unat (ucast vl * ucast window * of_int weight :: u128) = unat vl * unat window * nat weight"
    by (subst unat_times_no_wrap) (simp_all add: 1 unat_of_int_u128 [OF assms(2,3)])
  show ?thesis
    by (simp add: max_user_use_in_window_def unat_div 2 unat_ucast_up)
qed

text \<open>What is reported of a window.\<close>

lemma unat_le_i64: "v \<le> (2 ^ 63 - 1 :: u128) \<longleftrightarrow> unat v < 2 ^ 63"
  by (simp add: word_le_nat_alt) linarith

lemma limit_of_window_exact:
  assumes "unat capacity * unat window < 2 ^ 65" "0 \<le> weight" "weight < 2 ^ 63"
  shows "limit_of_window capacity window weight tot v =
    (let share = unat capacity * unat window * nat weight div unat tot;
         used = ceil_div (unat v * unat window) 1000000
     in if share < 2 ^ 63 \<and> used < 2 ^ 63
        then Inr \<lparr>arl_used = int used, arl_available = max 0 (int share - int used), arl_max = int share\<rparr>
        else Inl rate_limiting_state_inconsistent)"
proof -
  define m where "m = max_user_use_in_window capacity window weight tot"
  define u where "u = (integer_divide_ceil (ucast v * ucast window) (ucast rate_limiting_precision) :: u128)"
  have m: "unat m = unat capacity * unat window * nat weight div unat tot"
    unfolding m_def by (rule max_user_use_exact [OF assms])
  have "unat v * unat window < 2 ^ 64 * 2 ^ 32"
    using u64_bound [of v] u32_bound [of window] by (intro mult_strict_mono) simp_all
  then have "unat (ucast v * ucast window :: u128) = unat v * unat window"
    by (subst unat_times_no_wrap) (simp_all add: unat_ucast_up)
  then have u: "unat u = ceil_div (unat v * unat window) 1000000"
    by (simp add: u_def unat_integer_divide_ceil unat_ucast_up rate_limiting_precision_def)
  have diff: "unat (m - u) = unat m - unat u" if "\<not> m \<le> u"
    using that by (intro unat_sub) simp
  have int: "uint x = int (unat x)" for x :: u128 by simp
  have le: "unat m \<le> unat u \<longleftrightarrow> uint m \<le> uint u"
    by (simp only: word_le_nat_alt [symmetric]) (simp add: word_le_def)
  have "limit_of_window capacity window weight tot v =
      (if unat m < 2 ^ 63 \<and> unat u < 2 ^ 63
       then Inr \<lparr>arl_used = int (unat u), arl_available = max 0 (int (unat m) - int (unat u)), arl_max = int (unat m)\<rparr>
       else Inl rate_limiting_state_inconsistent)"
    unfolding limit_of_window_def Let_def m_def [symmetric] u_def [symmetric] downgrade_cast_i64_def unat_le_i64 int
    using diff le by (auto simp: EOS_ASSERT_def bindR_def word_le_nat_alt)
  then show ?thesis by (simp add: m u Let_def)
qed

section \<open>Properties\<close>

text \<open>
  C7: the totals that shares are computed from are right: after any sequence of operations from a
  fresh database, each of the three totals is exactly the sum of the positive limits of the accounts,
  pending changes not counted, and every pending change belongs to an account.
\<close>

theorem resource_totals_invariant:
  assumes "foldR rl_exec ops initialize_database = Inr db" and "list_all rl_op_ok ops"
  shows "totals_ok db"
proof (rule foldR_invariant [OF assms(1)])
  show "totals_ok initialize_database" by (rule totals_ok_initial)
  show "\<And>op d d'. op \<in> set ops \<Longrightarrow> totals_ok d \<Longrightarrow> rl_exec op d = Inr d' \<Longrightarrow> totals_ok d'"
    using assms(2) rl_exec_totals by (metis list_all_iff)
qed

definition example_ops :: "rl_op list" where
  "example_ops = [Initialize_Account 5, Initialize_Account 9, Set_Account_Limits 5 8192 10 30,
     Set_Account_Limits 9 (-1) 5 7, Process_Account_Limit_Updates, Add_Pending_Ram_Usage 5 100,
     Set_Account_Limits 9 77 5 70]"

definition example_db :: resource_db where
  "example_db = (case foldR rl_exec example_ops initialize_database of Inr db \<Rightarrow> db)"

theorem resource_totals_invariant_witness:
  "totals_ok example_db \<and> total_cpu_weight (rl_state example_db) = 37"
proof -
  have "isl (foldR rl_exec example_ops initialize_database) = False" by code_simp
  then have "foldR rl_exec example_ops initialize_database = Inr example_db"
    unfolding example_db_def by (cases "foldR rl_exec example_ops initialize_database") auto
  moreover have "list_all rl_op_ok example_ops" by (simp add: example_ops_def int64_def)
  ultimately have "totals_ok example_db" by (rule resource_totals_invariant)
  moreover have "total_cpu_weight (rl_state example_db) = 37" by code_simp
  ultimately show ?thesis ..
qed

text \<open>
  C25: collapsing the pending limits is exact: every pending object in turn replaces the actual one of its
  account and the totals follow; the call fails with an inconsistent state exactly when a total does
  not fit 64 bits after one of these steps. When it succeeds no pending object is left, the limits
  every account sees are the ones it saw before, and the totals are right again.
\<close>

theorem pending_limits_collapsed:
  assumes "totals_ok db"
  shows "process_account_limit_updates db =
      (let steps = collapse_steps (pending_rows db) (limits db)
       in if list_all totals_fit steps then Inr (with_limits (last (limits db # steps)) db)
          else Inl rate_limiting_state_inconsistent) \<and>
    (\<forall>db'. process_account_limit_updates db = Inr db' \<longrightarrow>
       totals_ok db' \<and> pending_rows db' = [] \<and> (\<forall>a. get_account_limits a db' = get_account_limits a db))"
  using process_account_limit_updates_exact [OF assms] process_account_limit_updates_ok [OF assms] by blast

theorem pending_limits_collapsed_witness:
  "\<exists>db'. process_account_limit_updates example_db = Inr db' \<and> totals_ok db' \<and> pending_rows db' = [] \<and>
    (\<forall>a. get_account_limits a db' = get_account_limits a example_db)"
proof -
  have e: "limits example_db =
     [((False, 5), \<lparr>net_weight = 10, cpu_weight = 30, ram_bytes = 8192\<rparr>),
      ((False, 9), \<lparr>net_weight = 5, cpu_weight = 7, ram_bytes = -1\<rparr>),
      ((True, 9), \<lparr>net_weight = 5, cpu_weight = 70, ram_bytes = 77\<rparr>)]"
    and t: "total_ram_bytes (rl_state example_db) = 8192" "total_cpu_weight (rl_state example_db) = 37"
      "total_net_weight (rl_state example_db) = 15"
    by code_simp+
  have fit: "list_all totals_fit (collapse_steps (pending_rows example_db) (limits example_db))"
    by (simp add: pending_rows_def e totals_fit_def counted_def fm_erase_def Let_def)
  have ok: "totals_ok example_db"
    by (auto simp: totals_ok_def e t committed_def counted_def fm_ok_def limits_in_range_def int64_def split: if_splits)
  show ?thesis
    using pending_limits_collapsed [OF ok, unfolded Let_def if_P [OF fit]] by blast
qed

text \<open>
  Blocks can always be accounted for: with sane block parameters, usage below the block limits
  and an increasing block number, \<^verbatim>\<open>process_block_usage\<close> does not raise, resets the pending usage,
  and keeps the averages within budget and the virtual limits between the block limit and its
  maximal multiple, so that the next block finds the same conditions.
\<close>

theorem process_block_usage_succeeds:
  assumes ok: "block_ok n db" and lt: "n < block_num"
  shows "\<exists>db'. process_block_usage block_num db = Inr db' \<and> block_ok block_num db' \<and>
    pending_cpu_usage (rl_state db') = 0 \<and> pending_net_usage (rl_state db') = 0"
proof -
  let ?cpu = "cpu_limit_parameters (rl_config db)" and ?net = "net_limit_parameters (rl_config db)"
  let ?s = "rl_state db"
  have sane: "sane_parameters ?cpu" "sane_parameters ?net" and
    budget: "within_budget (unat (el_max ?cpu)) (unat (periods ?cpu)) (average_block_cpu_usage ?s)"
      "within_budget (unat (el_max ?net)) (unat (periods ?net)) (average_block_net_usage ?s)" and
    ord: "last_ordinal (average_block_cpu_usage ?s) < block_num" "last_ordinal (average_block_net_usage ?s) < block_num" and
    range: "elastic_range ?cpu (virtual_cpu_limit ?s)" "elastic_range ?net (virtual_net_limit ?s)" and
    pending: "unat (pending_cpu_usage ?s) \<le> unat (el_max ?cpu)" "unat (pending_net_usage ?s) \<le> unat (el_max ?net)"
    using ok lt by (auto simp: block_ok_def Let_def word_le_nat_alt intro: order.strict_trans1)
  have w: "periods ?cpu \<noteq> 0" "periods ?net \<noteq> 0" and
    fit: "(unat (el_max ?cpu) * 1000000 + unat (periods ?cpu)) * (unat (periods ?cpu) + 1) < 2 ^ 64"
      "(unat (el_max ?net) * 1000000 + unat (periods ?net)) * (unat (periods ?net) + 1) < 2 ^ 64"
    using sane by (auto simp: sane_parameters_def Let_def)
  obtain c where c: "add_usage (pending_cpu_usage ?s) block_num (periods ?cpu) (average_block_cpu_usage ?s) = Inr c"
    "within_budget (unat (el_max ?cpu)) (unat (periods ?cpu)) c" "last_ordinal c = block_num"
    using add_usage_within_budget [OF ord(1) w(1) budget(1) pending(1) fit(1)] by blast
  obtain m where m: "add_usage (pending_net_usage ?s) block_num (periods ?net) (average_block_net_usage ?s) = Inr m"
    "within_budget (unat (el_max ?net)) (unat (periods ?net)) m" "last_ordinal m = block_num"
    using add_usage_within_budget [OF ord(2) w(2) budget(2) pending(2) fit(2)] by blast
  obtain vc where vc: "update_elastic_limit (virtual_cpu_limit ?s) (average c) ?cpu = Inr vc" "elastic_range ?cpu vc"
    using update_elastic_limit_range [OF sane(1) range(1)] by blast
  obtain vn where vn: "update_elastic_limit (virtual_net_limit ?s) (average m) ?net = Inr vn" "elastic_range ?net vn"
    using update_elastic_limit_range [OF sane(2) range(2)] by blast
  have "process_block_usage block_num db = Inr (db\<lparr>rl_state := ?s\<lparr>average_block_cpu_usage := c, virtual_cpu_limit := vc,
      pending_cpu_usage := 0, average_block_net_usage := m, virtual_net_limit := vn, pending_net_usage := 0\<rparr>\<rparr>)"
    using c(1) m(1) vc(1) vn(1)
    by (simp add: process_block_usage_def update_virtual_cpu_limit_def update_virtual_net_limit_def Let_def bindR_def)
  then show ?thesis
    using sane c(2,3) m(2,3) vc(2) vn(2) by (simp add: block_ok_def Let_def)
qed

theorem process_block_usage_succeeds_witness:
  "\<exists>db'. process_block_usage 1 initialize_database = Inr db' \<and> block_ok 1 db' \<and>
    pending_cpu_usage (rl_state db') = 0 \<and> pending_net_usage (rl_state db') = 0"
proof (rule process_block_usage_succeeds [of 0])
  show "block_ok 0 initialize_database"
    by (simp add: block_ok_def Let_def initialize_database_def config_object_default_def sane_parameters_def
        within_budget_def elastic_range_def usage_accumulator_empty_def EOS_PERCENT_def unat_div)
qed simp

text \<open>
  C27: the fractional reserve is never oversold between accounts: when no change is pending and the
  capacity of the window is below \<open>2 ^ 65\<close>, the CPU shares that all accounts with a limit may use in the
  window add up to at most the capacity of the window.
\<close>

theorem cpu_shares_within_capacity:
  assumes ok: "totals_ok db" and "pending_rows db = []" and pos: "total_cpu_weight (rl_state db) > 0"
    and fit: "unat vl * unat window < 2 ^ 65"
  shows "fm_sum (\<lambda>k l. if cpu_weight l < 0 then 0
      else unat (max_user_use_in_window vl window (cpu_weight l) (total_cpu_weight (rl_state db)))) (limits db)
    \<le> unat vl * unat window"
proof -
  let ?t = "total_cpu_weight (rl_state db)"
  have act: "\<not> fst (fst x)" if "x \<in> set (limits db)" for x
    using assms(2) that unfolding pending_rows_def filter_empty_conv by blast
  have range: "int64 (cpu_weight (snd x))" if "x \<in> set (limits db)" for x
    using ok fm_in_set_find [of "limits db" "fst x" "snd x"] that
    unfolding totals_ok_def limits_in_range_def by (metis prod.collapse)
  have "fm_sum (\<lambda>k l. if cpu_weight l < 0 then 0 else unat (max_user_use_in_window vl window (cpu_weight l) ?t)) m =
      fm_sum (\<lambda>k l. unat vl * unat window * counted cpu_weight k l div unat ?t) m"
    if "set m \<subseteq> set (limits db)" for m
    using that
  proof (induction m)
    case (Cons x m)
    then show ?case
      using act [of x] range [of x] max_user_use_exact [OF fit, of "cpu_weight (snd x)" ?t]
      by (auto simp: counted_def int64_def)
  qed simp
  moreover have "fm_sum (counted cpu_weight) (limits db) \<le> unat ?t"
    using ok by (simp add: totals_ok_def committed_def)
  moreover have "0 < unat ?t" using pos by (simp add: unat_gt_0 word_gt_0)
  ultimately show ?thesis
    using sum_of_shares [of "counted cpu_weight" "limits db" "unat ?t" "unat vl * unat window"] by simp
qed

theorem cpu_shares_within_capacity_witness:
  "let db = initialize_database\<lparr>limits := [((False, 5), \<lparr>net_weight = 10, cpu_weight = 30, ram_bytes = -1\<rparr>),
        ((False, 9), \<lparr>net_weight = 5, cpu_weight = 7, ram_bytes = -1\<rparr>)],
      rl_state := (rl_state initialize_database)\<lparr>total_cpu_weight := 37, total_net_weight := 15\<rparr>\<rparr>
   in fm_sum (\<lambda>k l. if cpu_weight l < 0 then 0
      else unat (max_user_use_in_window 500000 172800 (cpu_weight l) (total_cpu_weight (rl_state db)))) (limits db)
    \<le> 500000 * 172800"
proof -
  let ?db = "initialize_database\<lparr>limits := [((False, 5), \<lparr>net_weight = 10, cpu_weight = 30, ram_bytes = -1\<rparr>),
        ((False, 9), \<lparr>net_weight = 5, cpu_weight = 7, ram_bytes = -1\<rparr>)],
      rl_state := (rl_state initialize_database)\<lparr>total_cpu_weight := 37, total_net_weight := 15\<rparr>\<rparr>"
  have "totals_ok ?db"
    by (auto simp: totals_ok_def committed_def counted_def fm_ok_def limits_in_range_def int64_def
        initialize_database_def split: if_splits)
  from cpu_shares_within_capacity [OF this, of 500000 172800] show ?thesis
    by (simp add: Let_def pending_rows_def)
qed

text \<open>
  C28: RAM accounting is exact: a change that is not zero is applied exactly when the new usage is
  representable, it then leaves precisely the old usage plus the change, and otherwise it raises a
  transaction exception. The least 64-bit change is the one for which the code has no defined
  behaviour, because it negates it.
\<close>

theorem ram_usage_exact:
  assumes u: "fm_find account (usages db) = Some u" and d: "int64 delta" "delta \<noteq> 0"
  shows "add_pending_ram_usage account delta db =
    (if delta = - (2 ^ 63) then Inl undefined_behaviour
     else if 0 \<le> uint (ram_usage u) + delta \<and> uint (ram_usage u) + delta < 2 ^ 64
     then Inr (db\<lparr>usages := fm_set account (u\<lparr>ram_usage := word_of_int (uint (ram_usage u) + delta)\<rparr>) (usages db)\<rparr>)
     else Inl transaction_exception)"
proof -
  obtain x where x: "unat (ram_usage u) = x" and n: "uint (ram_usage u) = int x" by simp
  have sum: "ram_usage u + of_int delta = word_of_int (uint (ram_usage u) + delta)"
    by simp
  show ?thesis
  proof (cases "delta > 0")
    case True
    then obtain k where k: "delta = int k" using zero_le_imp_eq_int [of delta] by auto
    have "unat (of_int delta :: u64) = k"
      using d k True unfolding int64_def by (subst unat_of_int_u64) simp_all
    then have "- 1 - ram_usage u \<ge> of_int delta \<longleftrightarrow> uint (ram_usage u) + delta < 2 ^ 64"
      unfolding room_left_iff n x by (simp add: k) linarith
    moreover have "0 \<le> uint (ram_usage u) + delta" using True by (simp add: n)
    ultimately show ?thesis
      using True u d(2) unfolding sum [symmetric] add_pending_ram_usage_def db_get_def EOS_ASSERT_def bindR_def by simp
  next
    case False
    then obtain k where k: "- delta = int k" using zero_le_imp_eq_int [of "- delta"] by auto
    have "unat (of_int (- delta) :: u64) = k"
      using d k unfolding int64_def by (subst unat_of_int_u64) simp_all
    then have "ram_usage u \<ge> of_int (- delta) \<longleftrightarrow> 0 \<le> uint (ram_usage u) + delta"
      using k unfolding word_le_nat_alt n x by linarith
    moreover have "uint (ram_usage u) + delta < 2 ^ 64"
      using False u64_bound [of "ram_usage u"] unfolding n x by simp
    ultimately show ?thesis
      using False u d(2) unfolding sum [symmetric] add_pending_ram_usage_def db_get_def EOS_ASSERT_def bindR_def by simp
  qed
qed

theorem ram_usage_exact_witness:
  "add_pending_ram_usage 5 (-300) (initialize_database\<lparr>usages := [(5, \<lparr>net_usage = usage_accumulator_empty,
     cpu_usage = usage_accumulator_empty, ram_usage = 200\<rparr>)]\<rparr>) = Inl transaction_exception"
  using ram_usage_exact [of 5 "initialize_database\<lparr>usages := [(5, \<lparr>net_usage = usage_accumulator_empty,
     cpu_usage = usage_accumulator_empty, ram_usage = 200\<rparr>)]\<rparr>" _ "-300"]
  by (simp add: int64_def)

text \<open>
  C29: what is reported to an account is exact: its share of the capacity of the window, rounded down,
  its use of the window, rounded up, and what the share leaves above the use. The call fails exactly
  when the share or the use does not fit a signed 64-bit number. The capacity is the virtual limit
  or, where a greylist limit binds, less, so that greylisting never raises the share.
\<close>

theorem account_cpu_limit_exact:
  assumes "fm_find account (usages db) = Some u" "get_account_limits account db = Inr l" "int64 (cpu_weight l)"
    and "greylisted_capacity (el_max (cpu_limit_parameters (rl_config db))) greylist window vl = (capacity, greylisted)"
    and "window = account_cpu_usage_average_window (rl_config db)" "vl = virtual_cpu_limit (rl_state db)"
    and "unat vl * unat window < 2 ^ 65"
  shows "get_account_cpu_limit_ex account greylist db =
      (let tot = total_cpu_weight (rl_state db);
           share = unat capacity * unat window * nat (cpu_weight l) div unat tot;
           used = ceil_div (unat (value_ex (cpu_usage u)) * unat window) 1000000
       in if cpu_weight l < 0 \<or> tot = 0 then Inr (unlimited, False)
          else if share < 2 ^ 63 \<and> used < 2 ^ 63
          then Inr (\<lparr>arl_used = int used, arl_available = max 0 (int share - int used), arl_max = int share\<rparr>, greylisted)
          else Inl rate_limiting_state_inconsistent) \<and> capacity \<le> vl"
proof -
  have le: "capacity \<le> vl" using assms(4) by (auto simp: greylisted_capacity_def split: if_splits)
  have "unat capacity * unat window \<le> unat vl * unat window"
    using le by (intro mult_le_mono1) (simp add: word_le_nat_alt)
  then have fit: "unat capacity * unat window < 2 ^ 65" using assms(7) by linarith
  then show ?thesis
    using le assms limit_of_window_exact [OF fit, of "cpu_weight l"]
    by (auto simp: get_account_cpu_limit_ex_def db_get_def Let_def bindR_def int64_def)
qed

theorem account_cpu_limit_exact_witness:
  "get_account_cpu_limit_ex 5 1000 example_db =
     Inr (\<lparr>arl_used = 0, arl_available = 70054054054, arl_max = 70054054054\<rparr>, False)"
proof -
  have e: "fm_find 5 (usages example_db) = Some \<lparr>net_usage = usage_accumulator_empty, cpu_usage = usage_accumulator_empty, ram_usage = 100\<rparr>"
    "get_account_limits 5 example_db = Inr \<lparr>net_weight = 10, cpu_weight = 30, ram_bytes = 8192\<rparr>"
    "greylisted_capacity (el_max (cpu_limit_parameters (rl_config example_db))) 1000 172800 500000 = (500000, False)"
    "172800 = account_cpu_usage_average_window (rl_config example_db)" "500000 = virtual_cpu_limit (rl_state example_db)"
    "total_cpu_weight (rl_state example_db) = 37"
    by code_simp+
  show ?thesis
    using account_cpu_limit_exact [OF e(1, 2) _ e(3-5)]
    by (simp add: e(6) int64_def ceil_div_def usage_accumulator_empty_def Let_def)
qed

end
