(* ===== verification/Chain_Config.thy ===== *)
theory Chain_Config
  imports Resource_Averages
begin

text \<open>
  The chain configuration (\<^verbatim>\<open>chain_config.hpp\<close>, \<^verbatim>\<open>chain_config.cpp\<close>): its validation and comparison, and the
  step of \<^verbatim>\<open>controller_impl::finalize_block\<close> that turns it into block parameters of the resource manager
  before the usage of the block is processed.
\<close>

section \<open>The configuration\<close>

record chain_config =
  max_block_net_usage :: u64
  target_block_net_usage_pct :: u32
  max_transaction_net_usage :: u32
  base_per_transaction_net_usage :: u32
  net_usage_leeway :: u32
  context_free_discount_net_usage_num :: u32
  context_free_discount_net_usage_den :: u32
  max_block_cpu_usage :: u32
  target_block_cpu_usage_pct :: u32
  max_transaction_cpu_usage :: u32
  min_transaction_cpu_usage :: u32
  max_transaction_lifetime :: u32
  deferred_trx_expiration_window :: u32
  cc_max_transaction_delay :: u32
  max_inline_action_size :: u32
  max_inline_action_depth :: u16
  cc_max_authority_depth :: u16

definition min_net_usage_delta_between_base_and_max_for_trx :: u32 where
  "min_net_usage_delta_between_base_and_max_for_trx = 10 * 1024"

definition config_validate :: "chain_config \<Rightarrow> unit result" where
  "config_validate c =
     EOS_ASSERT (target_block_net_usage_pct c \<le> 10000) action_validate_exception
     (EOS_ASSERT (target_block_net_usage_pct c \<ge> 100 div 10) action_validate_exception
     (EOS_ASSERT (target_block_cpu_usage_pct c \<le> 10000) action_validate_exception
     (EOS_ASSERT (target_block_cpu_usage_pct c \<ge> 100 div 10) action_validate_exception
     (EOS_ASSERT (ucast (max_transaction_net_usage c) < max_block_net_usage c) action_validate_exception
     (EOS_ASSERT (max_transaction_cpu_usage c < max_block_cpu_usage c) action_validate_exception
     (EOS_ASSERT (base_per_transaction_net_usage c < max_transaction_net_usage c) action_validate_exception
     (EOS_ASSERT (max_transaction_net_usage c - base_per_transaction_net_usage c \<ge>
         min_net_usage_delta_between_base_and_max_for_trx) action_validate_exception
     (EOS_ASSERT (context_free_discount_net_usage_den c > 0) action_validate_exception
     (EOS_ASSERT (context_free_discount_net_usage_num c \<le> context_free_discount_net_usage_den c) action_validate_exception
     (EOS_ASSERT (min_transaction_cpu_usage c \<le> max_transaction_cpu_usage c) action_validate_exception
     (EOS_ASSERT (max_transaction_cpu_usage c < max_block_cpu_usage c - min_transaction_cpu_usage c) action_validate_exception
     (EOS_ASSERT (1 \<le> cc_max_authority_depth c) action_validate_exception
     (Inr ())))))))))))))"

text \<open>The comparison operator, which reads the maximal CPU usage of a transaction twice.\<close>

definition config_eq :: "chain_config \<Rightarrow> chain_config \<Rightarrow> bool" where
  "config_eq l r \<longleftrightarrow>
     max_block_net_usage l = max_block_net_usage r \<and>
     target_block_net_usage_pct l = target_block_net_usage_pct r \<and>
     max_transaction_net_usage l = max_transaction_net_usage r \<and>
     base_per_transaction_net_usage l = base_per_transaction_net_usage r \<and>
     net_usage_leeway l = net_usage_leeway r \<and>
     context_free_discount_net_usage_num l = context_free_discount_net_usage_num r \<and>
     context_free_discount_net_usage_den l = context_free_discount_net_usage_den r \<and>
     max_block_cpu_usage l = max_block_cpu_usage r \<and>
     target_block_cpu_usage_pct l = target_block_cpu_usage_pct r \<and>
     max_transaction_cpu_usage l = max_transaction_cpu_usage r \<and>
     max_transaction_cpu_usage l = max_transaction_cpu_usage r \<and>
     max_transaction_lifetime l = max_transaction_lifetime r \<and>
     deferred_trx_expiration_window l = deferred_trx_expiration_window r \<and>
     cc_max_transaction_delay l = cc_max_transaction_delay r \<and>
     max_inline_action_size l = max_inline_action_size r \<and>
     max_inline_action_depth l = max_inline_action_depth r \<and>
     cc_max_authority_depth l = cc_max_authority_depth r"

section \<open>Block parameters\<close>

definition parameters_of :: "u64 \<Rightarrow> u32 \<Rightarrow> elastic_limit_parameters" where
  "parameters_of limit pct =
     \<lparr>el_target = EOS_PERCENT limit pct, el_max = limit, periods = 60000 div 500,
      max_multiplier = maximum_elastic_resource_multiplier, contract_rate = \<lparr>numerator = 99, denominator = 100\<rparr>,
      expand_rate = \<lparr>numerator = 1000, denominator = 999\<rparr>\<rparr>"

definition cpu_parameters :: "chain_config \<Rightarrow> elastic_limit_parameters" where
  "cpu_parameters c = parameters_of (ucast (max_block_cpu_usage c)) (target_block_cpu_usage_pct c)"

definition net_parameters :: "chain_config \<Rightarrow> elastic_limit_parameters" where
  "net_parameters c = parameters_of (max_block_net_usage c) (target_block_net_usage_pct c)"

definition finalize_usage :: "chain_config \<Rightarrow> u32 \<Rightarrow> resource_db \<Rightarrow> resource_db result" where
  "finalize_usage c block_num db =
     bindR (set_block_parameters (cpu_parameters c) (net_parameters c) db) (process_block_usage block_num)"

section \<open>Parameters of a valid configuration\<close>

lemma config_validateD:
  assumes "config_validate c = Inr ()"
  shows "target_block_net_usage_pct c \<le> 10000" "target_block_cpu_usage_pct c \<le> 10000"
    "ucast (max_transaction_net_usage c) < max_block_net_usage c" "max_transaction_cpu_usage c < max_block_cpu_usage c"
  using assms by (auto simp: config_validate_def)

lemma parameters_of_sane:
  assumes "unat limit < 2 ^ 37"
  shows "sane_parameters (parameters_of limit pct)"
  using assms by (simp add: sane_parameters_def parameters_of_def maximum_elastic_resource_multiplier_def Let_def unat_div)

lemma parameters_of_target:
  assumes "unat limit < 2 ^ 37" "pct \<le> 10000"
  shows "unat (el_target (parameters_of limit pct)) = unat limit * unat pct div 10000"
    and "el_target (parameters_of limit pct) \<le> el_max (parameters_of limit pct)"
proof -
  have p: "unat pct \<le> 10000" using assms(2) by (simp add: word_le_nat_alt)
  have up: "unat (ucast pct :: u64) = unat pct" by (simp add: unat_ucast_up)
  have le: "unat limit * unat pct \<le> unat limit * 10000" using p by (rule mult_le_mono2)
  moreover have "unat limit * 10000 < 2 ^ 64" using assms(1) by simp
  ultimately have fit: "unat limit * unat pct < 2 ^ 64" by (rule le_less_trans)
  have below: "unat limit * unat pct div 10000 \<le> unat limit" using div_le_mono [OF le, of 10000] by simp
  from fit have "unat (limit * ucast pct :: u64) = unat limit * unat pct" by (subst unat_times_no_wrap) (simp_all add: up)
  then show t: "unat (el_target (parameters_of limit pct)) = unat limit * unat pct div 10000"
    by (simp add: parameters_of_def EOS_PERCENT_def unat_div)
  show "el_target (parameters_of limit pct) \<le> el_max (parameters_of limit pct)"
    unfolding word_le_nat_alt t using below by (simp add: parameters_of_def)
qed

lemma cpu_limit_bound: "unat (ucast (x :: u32) :: u64) < 2 ^ 37"
  using unsigned_less [of x, where ?'a = nat] by (simp add: unat_ucast_up)

text \<open>The conditions on the state of the manager, relative to a configuration.\<close>

definition usage_state_ok :: "chain_config \<Rightarrow> u32 \<Rightarrow> state_object \<Rightarrow> bool" where
  "usage_state_ok c n s \<longleftrightarrow>
     (let cpu = cpu_parameters c; net = net_parameters c
      in within_budget (unat (el_max cpu)) (unat (periods cpu)) (average_block_cpu_usage s) \<and>
         within_budget (unat (el_max net)) (unat (periods net)) (average_block_net_usage s) \<and>
         last_ordinal (average_block_cpu_usage s) \<le> n \<and> last_ordinal (average_block_net_usage s) \<le> n \<and>
         elastic_range cpu (virtual_cpu_limit s) \<and> elastic_range net (virtual_net_limit s) \<and>
         pending_cpu_usage s \<le> el_max cpu \<and> pending_net_usage s \<le> el_max net)"

lemma set_block_parameters_of_config:
  "set_block_parameters (cpu_parameters c) (net_parameters c) db =
     Inr (db\<lparr>rl_config := (rl_config db)\<lparr>cpu_limit_parameters := cpu_parameters c, net_limit_parameters := net_parameters c\<rparr>\<rparr>)"
  by (auto simp: set_block_parameters_def elastic_validate_def cpu_parameters_def net_parameters_def parameters_of_def)

lemma process_block_usage_config: "process_block_usage n db = Inr db' \<Longrightarrow> rl_config db' = rl_config db"
  by (auto simp: process_block_usage_def Let_def)

text \<open>
  C26: A valid chain configuration keeps the chain able to finalize blocks: if its network limit per
  block is below \<open>2 ^ 37\<close> bytes, the targets derived from it are the exact percentages of the limits
  and do not exceed them, setting them as block parameters and processing the usage of the next block
  does not raise, and the state is again within the bounds of the configuration.
\<close>

theorem valid_config_finalizes:
  assumes "config_validate c = Inr ()" "unat (max_block_net_usage c) < 2 ^ 37"
    and "usage_state_ok c n (rl_state db)" "n < block_num"
  shows "unat (el_target (cpu_parameters c)) = unat (max_block_cpu_usage c) * unat (target_block_cpu_usage_pct c) div 10000 \<and>
    unat (el_target (net_parameters c)) = unat (max_block_net_usage c) * unat (target_block_net_usage_pct c) div 10000 \<and>
    el_target (cpu_parameters c) \<le> el_max (cpu_parameters c) \<and> el_target (net_parameters c) \<le> el_max (net_parameters c) \<and>
    (\<exists>db'. finalize_usage c block_num db = Inr db' \<and> usage_state_ok c block_num (rl_state db') \<and>
       pending_cpu_usage (rl_state db') = 0 \<and> pending_net_usage (rl_state db') = 0)"
proof -
  let ?db = "db\<lparr>rl_config := (rl_config db)\<lparr>cpu_limit_parameters := cpu_parameters c, net_limit_parameters := net_parameters c\<rparr>\<rparr>"
  have sane: "sane_parameters (cpu_parameters c)" "sane_parameters (net_parameters c)"
    using parameters_of_sane assms(2) cpu_limit_bound by (simp_all add: cpu_parameters_def net_parameters_def)
  have "block_ok n ?db" using sane assms(3) by (simp add: block_ok_def usage_state_ok_def Let_def)
  then obtain db' where db': "process_block_usage block_num ?db = Inr db'" "block_ok block_num db'"
    "pending_cpu_usage (rl_state db') = 0" "pending_net_usage (rl_state db') = 0"
    using process_block_usage_succeeds [OF _ assms(4)] by blast
  then have "finalize_usage c block_num db = Inr db'" by (simp add: finalize_usage_def set_block_parameters_of_config)
  moreover have "usage_state_ok c block_num (rl_state db')"
    using db'(2) process_block_usage_config [OF db'(1)] by (simp add: block_ok_def usage_state_ok_def Let_def)
  ultimately show ?thesis
    using db'(3, 4) parameters_of_target config_validateD [OF assms(1)] assms(2) cpu_limit_bound
    by (auto simp: cpu_parameters_def net_parameters_def unat_ucast_up)
qed

definition example_config :: chain_config where
  "example_config =
     \<lparr>max_block_net_usage = 1024 * 1024, target_block_net_usage_pct = 1000, max_transaction_net_usage = 524288,
      base_per_transaction_net_usage = 12, net_usage_leeway = 500, context_free_discount_net_usage_num = 20,
      context_free_discount_net_usage_den = 100, max_block_cpu_usage = 500000, target_block_cpu_usage_pct = 1000,
      max_transaction_cpu_usage = 450000, min_transaction_cpu_usage = 100, max_transaction_lifetime = 3600,
      deferred_trx_expiration_window = 600, cc_max_transaction_delay = 3888000, max_inline_action_size = 4096,
      max_inline_action_depth = 4, cc_max_authority_depth = 6\<rparr>"

theorem valid_config_finalizes_witness:
  "config_validate example_config = Inr () \<and> usage_state_ok example_config 0 (rl_state initialize_database) \<and>
   (\<exists>db'. finalize_usage example_config 1 initialize_database = Inr db' \<and> usage_state_ok example_config 1 (rl_state db'))"
proof -
  have v: "config_validate example_config = Inr ()" by code_simp
  have s: "usage_state_ok example_config 0 (rl_state initialize_database)"
    by (simp add: usage_state_ok_def Let_def example_config_def cpu_parameters_def net_parameters_def parameters_of_def
        initialize_database_def config_object_default_def within_budget_def elastic_range_def usage_accumulator_empty_def
        maximum_elastic_resource_multiplier_def)
  have "unat (max_block_net_usage example_config) < 2 ^ 37" by (simp add: example_config_def)
  then show ?thesis using v s valid_config_finalizes [OF v _ s, of 1] by auto
qed

text \<open>Only processing the usage of a block moves the virtual network limit.\<close>

lemma rl_exec_virtual_net_limit:
  assumes "rl_exec op db = Inr db'" "\<forall>n. op \<noteq> Process_Block_Usage n"
  shows "virtual_net_limit (rl_state db') = virtual_net_limit (rl_state db)"
proof (cases op)
  case (Process_Account_Limit_Updates)
  have "virtual_net_limit (rl_state d') = virtual_net_limit (rl_state d)" if "process_account_limit_updates d = Inr d'" for d d'
    using that
  proof (induction d rule: process_account_limit_updates.induct)
    case (1 d)
    then show ?case
      by (auto simp: process_account_limit_updates.simps [of d] apply_pending_def split: option.splits)
  qed
  then show ?thesis using assms(1) Process_Account_Limit_Updates by simp
next
  case (Update_Account_Usage as n)
  have "rl_state db' = rl_state db"
    by (rule foldR_invariant [where P = "\<lambda>d. rl_state d = rl_state db"])
      (use assms(1) Update_Account_Usage in \<open>auto simp: update_account_usage_def\<close>)
  then show ?thesis by simp
next
  case (Add_Transaction_Usage as cpu net n)
  obtain d where d: "foldR (add_transaction_usage_for cpu net n) as db = Inr d"
    and db': "virtual_net_limit (rl_state db') = virtual_net_limit (rl_state d)"
    using assms(1) Add_Transaction_Usage by (auto simp: add_transaction_usage_def Let_def EOS_ASSERT_Inr_iff)
  have "rl_state d = rl_state db"
    by (rule foldR_invariant [OF d, where P = "\<lambda>d. rl_state d = rl_state db"])
      (auto simp: add_transaction_usage_for_def Let_def EOS_ASSERT_Inr_iff)
  then show ?thesis using db' by simp
qed (use assms in \<open>auto simp: initialize_account_def set_block_parameters_def add_pending_ram_usage_def
    set_account_limits_def EOS_ASSERT_Inr_iff Let_def split: if_splits option.splits\<close>)

lemma ratio_times_too_large:
  assumes "2 ^ 58 \<le> unat v" "numerator r = 99 \<or> numerator r = 1000"
  shows "ratio_times v r = Inl rate_limiting_state_inconsistent"
proof -
  have "\<not> v \<le> - 1 div numerator r"
    using assms by (auto simp: word_le_nat_alt unat_div unat_max_word)
  then show ?thesis using assms(2) by (auto simp: ratio_times_def EOS_ASSERT_def)
qed

text \<open>
  C36: validation does not bound the network limit per block. Once a block has been finalized under a
  limit of at least \<open>2 ^ 58\<close> bytes (whose thousandfold, in 64 bits, is not below that either), the
  virtual limit can no longer be multiplied by the contraction or the expansion rate: whatever the
  resource manager is asked to do in the next block, finalizing it under that configuration raises,
  so that no further block can be made.
\<close>

theorem large_net_limit_halts_chain:
  assumes "2 ^ 58 \<le> unat (max_block_net_usage c)" "2 ^ 58 \<le> unat (max_block_net_usage c * 1000)"
    and "finalize_usage c n db = Inr db1" "foldR rl_exec ops db1 = Inr db2" "\<forall>m. Process_Block_Usage m \<notin> set ops"
  shows "isl (finalize_usage c m db2)"
proof -
  have "el_max (net_parameters c) = max_block_net_usage c" "max_multiplier (net_parameters c) = 1000"
    by (simp_all add: net_parameters_def parameters_of_def maximum_elastic_resource_multiplier_def)
  then obtain r where "virtual_net_limit (rl_state db1) = min (max r (max_block_net_usage c)) (max_block_net_usage c * 1000)"
    using assms(3)
    by (auto simp: finalize_usage_def set_block_parameters_of_config process_block_usage_def Let_def
        update_virtual_net_limit_def update_elastic_limit_def)
  then have "2 ^ 58 \<le> unat (virtual_net_limit (rl_state db1))"
    using assms(1, 2) by (auto simp: min_def max_def word_le_nat_alt)
  moreover have "virtual_net_limit (rl_state db2) = virtual_net_limit (rl_state db1)"
  proof (rule foldR_invariant [OF assms(4), where P = "\<lambda>d. virtual_net_limit (rl_state d) = virtual_net_limit (rl_state db1)"])
    fix op d d' assume "op \<in> set ops" "rl_exec op d = Inr d'"
      and eq: "virtual_net_limit (rl_state d) = virtual_net_limit (rl_state db1)"
    then have "virtual_net_limit (rl_state d') = virtual_net_limit (rl_state d)"
      using assms(5) by (intro rl_exec_virtual_net_limit [of op]) auto
    then show "virtual_net_limit (rl_state d') = virtual_net_limit (rl_state db1)" using eq by simp
  qed simp
  ultimately have "update_elastic_limit (virtual_net_limit (rl_state db2)) a (net_parameters c) = Inl rate_limiting_state_inconsistent" for a
    by (simp add: update_elastic_limit_def net_parameters_def parameters_of_def ratio_times_too_large)
  then show ?thesis
    by (auto simp: finalize_usage_def set_block_parameters_of_config process_block_usage_def Let_def
        update_virtual_net_limit_def update_virtual_cpu_limit_def bindR_def split: sum.splits)
qed

theorem large_net_limit_halts_chain_witness:
  "\<exists>c db. config_validate c = Inr () \<and> finalize_usage c 1 initialize_database = Inr db \<and> isl (finalize_usage c 2 db)"
proof -
  let ?c = "example_config\<lparr>max_block_net_usage := 2 ^ 60\<rparr>"
  have v: "config_validate ?c = Inr ()" by code_simp
  have "\<not> isl (finalize_usage ?c 1 initialize_database)" by code_simp
  then obtain db where db: "finalize_usage ?c 1 initialize_database = Inr db" by (cases "finalize_usage ?c 1 initialize_database") auto
  have "isl (finalize_usage ?c 2 db)"
    by (rule large_net_limit_halts_chain [OF _ _ db, of "[]" db]) simp_all
  then show ?thesis using v db by blast
qed

text \<open>Configurations that differ only in the minimal CPU usage of a transaction compare as equal.\<close>

lemma config_eq_ignores_min_cpu: "config_eq c (c\<lparr>min_transaction_cpu_usage := x\<rparr>)"
  by (simp add: config_eq_def)

end
