(* ===== verification/Name.thy ===== *)
theory Name
  imports Chain_Prelude
begin

unbundle bit_operations_syntax

text \<open>
  Account, action, table and permission names (\<^verbatim>\<open>name.hpp\<close>, \<^verbatim>\<open>name.cpp\<close>): up to thirteen
  characters packed into 64 bits, twelve groups of five bits from the top and a last group of four.
  The encoder reads its argument as a C string: the character after the last one is NUL.
\<close>

definition chr_code :: "char \<Rightarrow> nat" where
  "chr_code c = of_char c"

definition char_to_symbol :: "char \<Rightarrow> u64" where
  "char_to_symbol c =
     (if chr_code CHR ''a'' \<le> chr_code c \<and> chr_code c \<le> chr_code CHR ''z''
      then of_nat (chr_code c - chr_code CHR ''a'') + 6
      else if chr_code CHR ''1'' \<le> chr_code c \<and> chr_code c \<le> chr_code CHR ''5''
      then of_nat (chr_code c - chr_code CHR ''1'') + 1
      else 0)"

text \<open>Reading a view as a C string.\<close>

definition c_at :: "string \<Rightarrow> nat \<Rightarrow> char" where
  "c_at str i = (if i < length str then str ! i else CHR 0x00)"

function encode_loop :: "string \<Rightarrow> nat \<Rightarrow> u64 \<Rightarrow> nat \<times> u64" where
  "encode_loop str i n =
     (if c_at str i \<noteq> CHR 0x00 \<and> i < 12
      then encode_loop str (i + 1) (n OR push_bit (64 - 5 * (i + 1)) (char_to_symbol (c_at str i) AND 0x1f))
      else (i, n))"
  by pat_completeness auto
termination
  by (relation "measure (\<lambda>(str, i, n). 12 - i)") auto

declare encode_loop.simps [simp del]

definition string_to_uint64_t :: "string \<Rightarrow> u64" where
  "string_to_uint64_t str =
     (let (i, n) = encode_loop str 0 0
      in if i = 12 then n OR (char_to_symbol (c_at str 12) AND 0x0F) else n)"

definition charmap :: string where
  "charmap = ''.12345abcdefghijklmnopqrstuvwxyz''"

text \<open>The loop of \<^verbatim>\<open>to_string\<close> writes the characters from the last to the first.\<close>

fun decode_loop :: "nat \<Rightarrow> u64 \<Rightarrow> string \<Rightarrow> string" where
  "decode_loop 0 tmp acc = acc"
| "decode_loop (Suc k) tmp acc = decode_loop k (drop_bit 5 tmp) (charmap ! unat (tmp AND 0x1f) # acc)"

definition name_to_string :: "u64 \<Rightarrow> string" where
  "name_to_string v =
     (let str = decode_loop 12 (drop_bit 4 v) [charmap ! unat (v AND 0x0f)]
      in rev (dropWhile (\<lambda>c. c = CHR ''.'') (rev str)))"

definition name_set :: "string \<Rightarrow> u64 result" where
  "name_set str =
     EOS_ASSERT (length str \<le> 13) name_type_exception
       (let v = string_to_uint64_t str
        in EOS_ASSERT (name_to_string v = str) name_type_exception (Inr v))"

definition name_empty :: "u64 \<Rightarrow> bool" where
  "name_empty v \<longleftrightarrow> 0 = v"

definition name_good :: "u64 \<Rightarrow> bool" where
  "name_good v \<longleftrightarrow> \<not> name_empty v"

definition string_to_name :: "string \<Rightarrow> u64" where
  "string_to_name str = string_to_uint64_t str"

section \<open>Digits\<close>

definition digit :: "u64 \<Rightarrow> nat \<Rightarrow> u64" where
  "digit v i = (if i < 12 then drop_bit (64 - 5 * (i + 1)) v AND 0x1f else v AND 0x0f)"

lemma charmap_symbols:
  "list_all (\<lambda>d. char_to_symbol (charmap ! d) = of_nat d \<and> charmap ! d \<noteq> CHR 0x00) [0..<32]"
  by code_simp

lemma char_to_symbol_charmap: "d < 32 \<Longrightarrow> char_to_symbol (charmap ! d) = of_nat d"
  using charmap_symbols by (simp add: list_all_iff)

lemma charmap_not_NUL: "d < 32 \<Longrightarrow> charmap ! d \<noteq> CHR 0x00"
  using charmap_symbols by (simp add: list_all_iff)

lemma charmap_dot: "d < 32 \<Longrightarrow> charmap ! d = CHR ''.'' \<longleftrightarrow> d = 0"
proof -
  have "list_all (\<lambda>d. (charmap ! d = CHR ''.'') = (d = 0)) [0..<32]" by code_simp
  then show "d < 32 \<Longrightarrow> charmap ! d = CHR ''.'' \<longleftrightarrow> d = 0" by (simp add: list_all_iff)
qed

lemma and_0x1f: "(v AND 0x1f :: u64) = take_bit 5 v"
  by (simp add: take_bit_eq_mask mask_eq_exp_minus_1)

lemma and_0x0f: "(v AND 0x0f :: u64) = take_bit 4 v"
  by (simp add: take_bit_eq_mask mask_eq_exp_minus_1)

lemma unat_take_bit_less: "unat (take_bit n (v :: u64)) < 2 ^ n"
  by (simp add: unsigned_take_bit_eq)

lemma digit_small: "unat (digit v i) < 32"
  using unat_take_bit_less [of 5] unat_take_bit_less [of 4 v]
  by (auto simp: digit_def and_0x1f and_0x0f intro: order.strict_trans)

lemma digit_symbol: "char_to_symbol (charmap ! unat (digit v i)) = digit v i"
  by (simp add: char_to_symbol_charmap [OF digit_small])

definition padded :: "u64 \<Rightarrow> string" where
  "padded v = map (\<lambda>i. charmap ! unat (digit v i)) [0..<13]"

lemma decode_loop_eq:
  "decode_loop k tmp acc = map (\<lambda>i. charmap ! unat (drop_bit (5 * (k - 1 - i)) tmp AND 0x1f)) [0..<k] @ acc"
proof (induction k arbitrary: tmp acc)
  case (Suc k)
  have "map (\<lambda>i. charmap ! unat (drop_bit (5 * (k - 1 - i)) (drop_bit 5 tmp) AND 0x1f)) [0..<k] =
    map (\<lambda>i. charmap ! unat (drop_bit (5 * (Suc k - 1 - i)) tmp AND 0x1f)) [0..<k]"
  proof (rule map_cong [OF refl])
    fix i assume "i \<in> set [0..<k]"
    then have "5 * (k - 1 - i) + 5 = 5 * (Suc k - 1 - i)" by simp
    then show "charmap ! unat (drop_bit (5 * (k - 1 - i)) (drop_bit 5 tmp) AND 0x1f) =
        charmap ! unat (drop_bit (5 * (Suc k - 1 - i)) tmp AND 0x1f)"
      by (simp only: drop_bit_drop_bit)
  qed
  then show ?case by (simp add: Suc.IH)
qed simp

lemma padded_eq: "decode_loop 12 (drop_bit 4 v) [charmap ! unat (v AND 0x0f)] = padded v"
proof -
  have "map (\<lambda>i. charmap ! unat (drop_bit (5 * (12 - 1 - i)) (drop_bit 4 v) AND 0x1f)) [0..<12] =
    map (\<lambda>i. charmap ! unat (digit v i)) [0..<12]"
  proof (rule map_cong [OF refl])
    fix i :: nat assume i: "i \<in> set [0..<12]"
    then have "5 * (12 - 1 - i) + 4 = 64 - 5 * (i + 1)" by auto
    then show "charmap ! unat (drop_bit (5 * (12 - 1 - i)) (drop_bit 4 v) AND 0x1f) = charmap ! unat (digit v i)"
      using i by (simp only: drop_bit_drop_bit digit_def) simp
  qed
  moreover have "[0..<13] = [0..<12] @ [12]" by code_simp
  ultimately show ?thesis
    by (simp add: decode_loop_eq padded_def digit_def del: upt_Suc)
qed

section \<open>The encoder inverts the decoder\<close>

text \<open>The top \<open>i\<close> groups of a value: what the encoder has accumulated after \<open>i\<close> characters.\<close>

definition upper :: "u64 \<Rightarrow> nat \<Rightarrow> u64" where
  "upper v i = push_bit (64 - 5 * i) (drop_bit (64 - 5 * i) v)"

lemma bit_upper: "bit (upper v i) n \<longleftrightarrow> n < 64 \<and> 64 - 5 * i \<le> n \<and> bit v n"
  by (auto simp: upper_def bit_push_bit_iff bit_drop_bit_eq)

lemma upper_0: "upper v 0 = 0"
  by (rule bit_eqI) (simp add: bit_upper)

lemma upper_Suc:
  assumes "i < 12"
  shows "upper v (Suc i) = upper v i OR push_bit (64 - 5 * (i + 1)) (digit v i)"
  using assms
  by (intro bit_eqI)
    (auto simp: bit_upper bit_or_iff bit_push_bit_iff digit_def and_0x1f bit_take_bit_iff bit_drop_bit_eq)

lemma upper_12: "upper v 12 OR digit v 12 = v"
  by (rule bit_eqI)
    (auto simp: bit_upper bit_or_iff digit_def and_0x0f bit_take_bit_iff dest: bit_imp_le_length)

lemma upper_zero_digits:
  assumes "m \<le> 12" and "\<And>i. \<lbrakk> m \<le> i; i < 13 \<rbrakk> \<Longrightarrow> digit v i = 0"
  shows "upper v m = v"
proof -
  have "upper v (12 - k) = v" if "k \<le> 12 - m" for k
    using that
  proof (induction k)
    case 0
    then show ?case using upper_12 [of v] assms(2) [of 12] assms(1) by simp
  next
    case (Suc k)
    then have "12 - k = Suc (12 - Suc k)" "12 - Suc k < 12" "m \<le> 12 - Suc k" by auto
    then show ?case
      using Suc upper_Suc [of "12 - Suc k" v] assms(2) [of "12 - Suc k"] by simp
  qed
  from this [of "12 - m"] show ?thesis using assms(1) by simp
qed

lemma c_at_padded:
  "c_at (take m (padded v)) i = (if i < m \<and> i < 13 then charmap ! unat (digit v i) else CHR 0x00)"
  by (simp add: c_at_def padded_def)

lemma digit_masked: "i < 12 \<Longrightarrow> digit v i AND 0x1f = digit v i" "digit v 12 AND 0x0F = digit v 12"
  by (simp_all add: digit_def and_0x1f and_0x0f)

lemma encode_loop_padded:
  assumes "i \<le> min m 12"
  shows "encode_loop (take m (padded v)) i (upper v i) = (min m 12, upper v (min m 12))"
  using assms
proof (induction "12 - i" arbitrary: i)
  case 0
  then have "i = 12" "min m 12 = 12" by auto
  then show ?case by (simp add: encode_loop.simps)
next
  case (Suc k)
  show ?case
  proof (cases "i < m")
    case True
    then have "c_at (take m (padded v)) i = charmap ! unat (digit v i)" and i: "i < 12"
      using Suc.hyps by (auto simp: c_at_padded)
    then have "encode_loop (take m (padded v)) i (upper v i) =
        encode_loop (take m (padded v)) (Suc i) (upper v (Suc i))"
      by (simp add: encode_loop.simps [of _ i] charmap_not_NUL [OF digit_small] digit_symbol digit_masked
          upper_Suc)
    then show ?thesis
      using Suc.hyps(1) [of "Suc i"] Suc.hyps(2) True i by simp
  next
    case False
    then have "i = min m 12" using Suc.hyps Suc.prems by simp
    moreover have "encode_loop (take m (padded v)) i (upper v i) = (i, upper v i)"
      using False by (simp add: encode_loop.simps [of _ i] c_at_padded)
    ultimately show ?thesis by simp
  qed
qed

lemma name_to_string_take:
  obtains m where "m \<le> 13" "name_to_string v = take m (padded v)"
    "\<And>i. \<lbrakk> m \<le> i; i < 13 \<rbrakk> \<Longrightarrow> digit v i = 0"
proof
  let ?dots = "length (takeWhile (\<lambda>c. c = CHR ''.'') (rev (padded v)))"
  have len: "length (padded v) = 13" by (simp add: padded_def)
  then have dots: "?dots \<le> 13" using length_takeWhile_le [of _ "rev (padded v)"] by simp
  show "13 - ?dots \<le> 13" by simp
  show "name_to_string v = take (13 - ?dots) (padded v)"
    by (simp add: name_to_string_def padded_eq dropWhile_eq_drop rev_drop len Let_def)
  fix i assume i: "13 - ?dots \<le> i" "i < 13"
  then have "12 - i < ?dots" by simp
  then have "rev (padded v) ! (12 - i) = CHR ''.''"
    using set_takeWhileD [OF nth_mem [of "12 - i" "takeWhile (\<lambda>c. c = CHR ''.'') (rev (padded v))"]]
    by (simp add: takeWhile_nth)
  then have "padded v ! i = CHR ''.''" using i len by (simp add: rev_nth)
  then show "digit v i = 0"
    using i charmap_dot [OF digit_small] by (simp add: padded_def unat_eq_zero)
qed

lemma string_to_uint64_t_name_to_string: "string_to_uint64_t (name_to_string v) = v"
proof -
  obtain m where m: "m \<le> 13" "name_to_string v = take m (padded v)"
    "\<And>i. \<lbrakk> m \<le> i; i < 13 \<rbrakk> \<Longrightarrow> digit v i = 0"
    using name_to_string_take by blast
  have "encode_loop (take m (padded v)) 0 0 = (min m 12, upper v (min m 12))"
    using encode_loop_padded [of 0 m v] by (simp add: upper_0)
  moreover have "upper v m = v" if "m < 12"
    using upper_zero_digits [of m v] m that by simp
  moreover have "char_to_symbol (c_at (take m (padded v)) 12) = digit v 12" if "12 \<le> m"
  proof (cases "m = 12")
    case True
    then show ?thesis using m(3) [of 12] by (simp add: c_at_padded char_to_symbol_def chr_code_def)
  next
    case False
    then show ?thesis using that m(1) by (simp add: c_at_padded digit_symbol)
  qed
  ultimately show ?thesis
    by (cases "m < 12") (simp_all add: string_to_uint64_t_def m(2) digit_masked upper_12)
qed

lemma name_to_string_length: "length (name_to_string v) \<le> 13"
proof -
  obtain m where "m \<le> 13" "name_to_string v = take m (padded v)"
    using name_to_string_take by blast
  then show ?thesis by simp
qed

lemma name_set_eq_Inr: "name_set s = Inr v \<longleftrightarrow> s = name_to_string v"
  using name_to_string_length [of v]
  by (auto simp: name_set_def EOS_ASSERT_def Let_def string_to_uint64_t_name_to_string split: if_splits)

section \<open>Which strings are names\<close>

text \<open>
  The documented alphabet: at most thirteen characters among \<^verbatim>\<open>.12345a-z\<close>, not ending in a dot, the
  thirteenth restricted to the sixteen symbols that fit four bits.
\<close>

definition valid_name_string :: "string \<Rightarrow> bool" where
  "valid_name_string s \<longleftrightarrow>
     length s \<le> 13 \<and> list_all (\<lambda>c. c \<in> set charmap) s \<and>
     (s = [] \<or> last s \<noteq> CHR ''.'') \<and> (length s = 13 \<longrightarrow> s ! 12 \<in> set (take 16 charmap))"

lemma in_charmapE:
  assumes "c \<in> set charmap"
  obtains d where "d < 32" "c = charmap ! d"
proof -
  have "length charmap = 32" by code_simp
  then show ?thesis using assms that by (auto simp: in_set_conv_nth)
qed

lemma charmap_symbol_inverse:
  assumes "c \<in> set charmap"
  shows "unat (char_to_symbol c) < 32" "charmap ! unat (char_to_symbol c) = c" "c \<noteq> CHR 0x00"
  using assms by (auto elim!: in_charmapE simp: char_to_symbol_charmap charmap_not_NUL unat_of_nat)

lemma masked_symbol: "c \<in> set charmap \<Longrightarrow> char_to_symbol c AND 0x1f = char_to_symbol c"
  using charmap_symbol_inverse(1) [of c]
  by (simp add: and_0x1f word_unat_eq_iff unsigned_take_bit_eq take_bit_nat_eq_self)

lemma digit_step:
  assumes "i < 12" and low: "\<And>k. k < 64 - 5 * i \<Longrightarrow> \<not> bit n k"
    and n'_def: "n' = n OR push_bit (64 - 5 * (i + 1)) (c AND 0x1f)"
  shows "j < i \<Longrightarrow> digit n' j = digit n j" and "digit n' i = c AND 0x1f"
    and "k < 64 - 5 * Suc i \<Longrightarrow> \<not> bit n' k"
proof -
  note n'_def = n'_def [unfolded and_0x1f]
  show "digit n' j = digit n j" if "j < i"
    using assms(1) that
    by (intro bit_eqI)
      (auto simp: n'_def digit_def and_0x1f bit_take_bit_iff bit_drop_bit_eq bit_or_iff bit_push_bit_iff)
  show "digit n' i = c AND 0x1f"
    using assms(1) low
    by (intro bit_eqI)
      (auto simp: n'_def digit_def and_0x1f bit_take_bit_iff bit_drop_bit_eq bit_or_iff bit_push_bit_iff)
  show "\<not> bit n' k" if "k < 64 - 5 * Suc i"
    using assms(1) low [of k] that by (auto simp: n'_def bit_or_iff bit_push_bit_iff)
qed

lemma encode_loop_digits:
  assumes "list_all (\<lambda>c. c \<in> set charmap) s" "i \<le> min (length s) 12"
    and "\<And>j. j < i \<Longrightarrow> digit n j = char_to_symbol (s ! j)" "\<And>k. k < 64 - 5 * i \<Longrightarrow> \<not> bit n k"
  shows "\<exists>n'. encode_loop s i n = (min (length s) 12, n') \<and>
    (\<forall>j < min (length s) 12. digit n' j = char_to_symbol (s ! j)) \<and>
    (\<forall>k < 64 - 5 * min (length s) 12. \<not> bit n' k)"
  using assms
proof (induction "min (length s) 12 - i" arbitrary: i n)
  case 0
  then have i: "i = min (length s) 12" by simp
  then have "\<not> (c_at s i \<noteq> CHR 0x00 \<and> i < 12)" by (auto simp: c_at_def)
  then have "encode_loop s i n = (i, n)" by (simp only: encode_loop.simps [of s i] if_False)
  then show ?case using 0 i by blast
next
  case (Suc d)
  then have lt: "i < length s" "i < 12" by auto
  then have mem: "s ! i \<in> set charmap" using Suc.prems(1) by (simp add: list_all_length)
  let ?n' = "n OR push_bit (64 - 5 * (i + 1)) (char_to_symbol (s ! i) AND 0x1f)"
  have "encode_loop s i n = encode_loop s (Suc i) ?n'"
    using lt charmap_symbol_inverse(3) [OF mem] by (simp add: encode_loop.simps [of s i] c_at_def)
  moreover have "d = min (length s) 12 - Suc i" using Suc.hyps(2) by simp
  moreover have "Suc i \<le> min (length s) 12" using lt by simp
  moreover have "digit ?n' j = char_to_symbol (s ! j)" if "j < Suc i" for j
  proof (cases "j = i")
    case True
    show ?thesis unfolding True
      by (rule trans [OF digit_step(2) [OF lt(2) Suc.prems(4) refl] masked_symbol [OF mem]])
  next
    case False
    then have "j < i" using that by simp
    then show ?thesis using digit_step(1) [OF lt(2) Suc.prems(4) refl] Suc.prems(3) by metis
  qed
  moreover have "\<not> bit ?n' k" if "k < 64 - 5 * Suc i" for k
    using digit_step(3) [OF lt(2) Suc.prems(4) refl that] by simp
  ultimately show ?case using Suc.hyps(1) [of "Suc i" ?n'] Suc.prems(1) by simp
qed

lemma digit_low_zero: "\<lbrakk> \<And>k. k < 64 - 5 * i \<Longrightarrow> \<not> bit n k; i \<le> j; j < 13 \<rbrakk> \<Longrightarrow> digit n j = 0"
  by (rule bit_eqI) (auto simp: digit_def and_0x1f and_0x0f bit_take_bit_iff bit_drop_bit_eq)

lemma digit_or_low:
  "j < 12 \<Longrightarrow> digit (n OR (c AND 0x0F)) j = digit n j"
  "digit (n OR (c AND 0x0F)) 12 = digit n 12 OR (c AND 0x0F)"
  by (rule bit_eqI; auto simp: digit_def and_0x1f and_0x0f bit_take_bit_iff bit_drop_bit_eq bit_or_iff)+

lemma charmap_low:
  assumes "c \<in> set (take 16 charmap)" shows "char_to_symbol c AND 0x0F = char_to_symbol c"
proof -
  have "list_all (\<lambda>c. char_to_symbol c AND 0x0F = char_to_symbol c) (take 16 charmap)" by code_simp
  then show ?thesis using assms by (simp add: list_all_iff)
qed

lemma encoded_digits:
  assumes "valid_name_string s"
  shows "j < length s \<Longrightarrow> digit (string_to_uint64_t s) j = char_to_symbol (s ! j)"
    and "\<lbrakk> length s \<le> j; j < 13 \<rbrakk> \<Longrightarrow> digit (string_to_uint64_t s) j = 0"
proof -
  let ?m = "min (length s) 12"
  have chars: "list_all (\<lambda>c. c \<in> set charmap) s" and len: "length s \<le> 13"
    and last: "length s = 13 \<Longrightarrow> s ! 12 \<in> set (take 16 charmap)"
    using assms by (simp_all add: valid_name_string_def)
  obtain n where n: "encode_loop s 0 0 = (?m, n)" "\<And>j. j < ?m \<Longrightarrow> digit n j = char_to_symbol (s ! j)"
    "\<And>k. k < 64 - 5 * ?m \<Longrightarrow> \<not> bit n k"
    using encode_loop_digits [OF chars, of 0 0] by auto
  have low: "digit n j = 0" if "?m \<le> j" "j < 13" for j
    using digit_low_zero [of ?m n j] n(3) that by blast
  define v where "v = string_to_uint64_t s"
  have v: "v = (if 12 \<le> length s then n OR (char_to_symbol (c_at s 12) AND 0x0F) else n)"
    by (simp add: v_def string_to_uint64_t_def n(1) min_def)
  have "digit v j = char_to_symbol (s ! j)" if j: "j < length s"
  proof (cases "j < 12")
    case True
    then show ?thesis using n(2) [of j] j by (simp add: v digit_or_low)
  next
    case False
    then have "j = 12" "length s = 13" using j len by auto
    then show ?thesis
      using low [of 12] charmap_low [OF last] digit_or_low(2) [of n "char_to_symbol (s ! 12)"]
      by (simp add: v c_at_def)
  qed
  then show "j < length s \<Longrightarrow> digit (string_to_uint64_t s) j = char_to_symbol (s ! j)"
    by (simp add: v_def)
  have "digit v j = 0" if j: "length s \<le> j" "j < 13"
  proof (cases "length s < 12")
    case True
    then show ?thesis using low [of j] j by (simp add: v)
  next
    case False
    then have "length s = 12" "j = 12" using j by auto
    then show ?thesis
      using low [of 12] by (simp add: v digit_or_low c_at_def char_to_symbol_def chr_code_def)
  qed
  then show "\<lbrakk> length s \<le> j; j < 13 \<rbrakk> \<Longrightarrow> digit (string_to_uint64_t s) j = 0"
    by (simp add: v_def)
qed

lemma dropWhile_replicate_append: "P c \<Longrightarrow> dropWhile P (replicate k c @ xs) = dropWhile P xs"
  by (induction k) simp_all

lemma valid_name_decodes:
  assumes "valid_name_string s"
  shows "name_to_string (string_to_uint64_t s) = s"
proof -
  let ?v = "string_to_uint64_t s"
  have chars: "\<And>j. j < length s \<Longrightarrow> s ! j \<in> set charmap" and len: "length s \<le> 13"
    and nodot: "s = [] \<or> last s \<noteq> CHR ''.''"
    using assms by (simp_all add: valid_name_string_def list_all_length)
  have dot: "charmap ! 0 = CHR ''.''" by (simp add: charmap_def)
  have "padded ?v = s @ replicate (13 - length s) CHR ''.''"
    using len encoded_digits [OF assms] charmap_symbol_inverse(2) [OF chars] dot
    by (intro nth_equalityI) (auto simp: padded_def nth_append)
  moreover have "dropWhile (\<lambda>c. c = CHR ''.'') (rev s) = rev s"
    using nodot by (cases s rule: rev_cases) auto
  ultimately show ?thesis
    by (simp add: name_to_string_def padded_eq Let_def dropWhile_replicate_append)
qed

lemma name_to_string_valid: "valid_name_string (name_to_string v)"
proof -
  obtain m where m: "m \<le> 13" "name_to_string v = take m (padded v)"
    using name_to_string_take by blast
  have len: "length charmap = 32" "length (padded v) = 13" by (simp_all add: charmap_def padded_def)
  have "list_all (\<lambda>c. c \<in> set charmap) (padded v)"
    using digit_small [of v] by (simp add: padded_def list_all_iff len)
  then have "list_all (\<lambda>c. c \<in> set charmap) (take m (padded v))"
    by (simp add: list_all_iff) (meson in_set_takeD)
  moreover have "unat (digit v 12) < 16"
    using unat_take_bit_less [of 4 v] by (simp add: digit_def and_0x0f)
  then have "padded v ! 12 \<in> set (take 16 charmap)"
    using nth_mem [of "unat (digit v 12)" "take 16 charmap"] by (simp add: padded_def len)
  moreover have "name_to_string v = [] \<or> last (name_to_string v) \<noteq> CHR ''.''"
    using hd_dropWhile [of "\<lambda>c. c = CHR ''.''" "rev (padded v)"]
    by (auto simp: name_to_string_def padded_eq Let_def last_rev)
  ultimately show ?thesis
    using m len by (auto simp: valid_name_string_def)
qed

text \<open>
  The text form of every 64-bit name is accepted by \<^verbatim>\<open>name::set\<close> and parsed back to the same
  value, and \<^verbatim>\<open>set\<close> returns a value for no other text.
\<close>

theorem name_round_trip: "name_set s = Inr v \<longleftrightarrow> s = name_to_string v"
  by (rule name_set_eq_Inr)

text \<open>
  C31: \<^verbatim>\<open>name::set\<close> accepts exactly the strings of the documented alphabet and shape, and rejects all
  others with \<^verbatim>\<open>name_type_exception\<close>.
\<close>

theorem name_set_decides:
  "name_set s = (if valid_name_string s then Inr (string_to_uint64_t s) else Inl name_type_exception)"
proof (cases "valid_name_string s")
  case True
  then show ?thesis using valid_name_decodes [of s] by (simp add: name_set_eq_Inr)
next
  case False
  then have "name_to_string v \<noteq> s" for v using name_to_string_valid by metis
  then show ?thesis using False by (simp add: name_set_def EOS_ASSERT_def Let_def)
qed

end
