(* ===== verification/Asset.thy ===== *)
theory Asset
  imports Name
begin

unbundle bit_operations_syntax

text \<open>
  Token symbols (\<^verbatim>\<open>symbol.hpp\<close>) and token quantities (\<^verbatim>\<open>asset.hpp\<close>, \<^verbatim>\<open>asset.cpp\<close>): a symbol packs the
  number of decimals in its lowest byte and up to seven letters above it, an asset is a signed 64-bit
  amount with a symbol. The string utilities and the checked integers of the fc library are the
  fields of \<open>fc_lib\<close>; \<open>fc_ok\<close> lists what their documentation promises.
\<close>

section \<open>The fc utilities\<close>

record fc_lib =
  fc_trim :: "string \<Rightarrow> string"
  fc_to_int64 :: "string \<Rightarrow> int result"
  fc_to_string :: "int \<Rightarrow> string"
  fc_safe_mul :: "int \<Rightarrow> int \<Rightarrow> int result"
  fc_safe_add :: "int \<Rightarrow> int \<Rightarrow> int result"

definition is_int64 :: "int \<Rightarrow> bool" where
  "is_int64 n \<longleftrightarrow> - (2 ^ 63) \<le> n \<and> n < 2 ^ 63"

text \<open>The decimal form written by \<^verbatim>\<open>std::to_string\<close>, and the value of a digit string.\<close>

fun std_to_string :: "nat \<Rightarrow> string" where
  "std_to_string n =
     (if n < 10 then [char_of (48 + n)] else std_to_string (n div 10) @ [char_of (48 + n mod 10)])"

declare std_to_string.simps [simp del]

definition is_digit :: "char \<Rightarrow> bool" where
  "is_digit c \<longleftrightarrow> 48 \<le> chr_code c \<and> chr_code c \<le> 57"

definition decimal_value :: "string \<Rightarrow> nat" where
  "decimal_value = foldl (\<lambda>v c. 10 * v + (chr_code c - 48)) 0"

definition is_space :: "char \<Rightarrow> bool" where
  "is_space c \<longleftrightarrow> chr_code c = 32 \<or> 9 \<le> chr_code c \<and> chr_code c \<le> 13"

definition fc_ok :: "fc_lib \<Rightarrow> bool" where
  "fc_ok fc \<longleftrightarrow>
     (\<forall>s. s \<noteq> [] \<and> \<not> is_space (hd s) \<and> \<not> is_space (last s) \<longrightarrow> fc_trim fc s = s) \<and>
     (\<forall>ds. ds \<noteq> [] \<and> list_all is_digit ds \<and> decimal_value ds < 2 ^ 63 \<longrightarrow>
        fc_to_int64 fc ds = Inr (int (decimal_value ds)) \<and>
        fc_to_int64 fc (CHR ''-'' # ds) = Inr (- int (decimal_value ds))) \<and>
     (\<forall>n. 0 \<le> n \<and> n < 2 ^ 63 \<longrightarrow> fc_to_string fc n = std_to_string (nat n)) \<and>
     (\<forall>a b. is_int64 (a * b) \<longrightarrow> fc_safe_mul fc a b = Inr (a * b)) \<and>
     (\<forall>a b. is_int64 (a + b) \<longrightarrow> fc_safe_add fc a b = Inr (a + b))"

section \<open>Symbols\<close>

definition is_upper :: "char \<Rightarrow> bool" where
  "is_upper c \<longleftrightarrow> chr_code CHR ''A'' \<le> chr_code c \<and> chr_code c \<le> chr_code CHR ''Z''"

text \<open>
  The shift count is \<^verbatim>\<open>8*(i+1)\<close>, which for the eighth and later characters is not below the width of
  the shifted type: the language leaves such a shift undefined.
\<close>

fun symbol_loop :: "string \<Rightarrow> nat \<Rightarrow> u64 \<Rightarrow> u64 result" where
  "symbol_loop [] i res = Inr res"
| "symbol_loop (c # cs) i res =
     EOS_ASSERT (is_upper c) symbol_type_exception
       (EOS_ASSERT (8 * (i + 1) < 64) undefined_behaviour
          (symbol_loop cs (i + 1) (res OR push_bit (8 * (i + 1)) (of_nat (chr_code c)))))"

definition c_str :: "string \<Rightarrow> string" where
  "c_str s = takeWhile (\<lambda>c. c \<noteq> CHR 0x00) s"

definition string_to_symbol :: "u8 \<Rightarrow> string \<Rightarrow> u64 result" where
  "string_to_symbol precision str =
     bindR (symbol_loop (c_str str) 0 0) (\<lambda>res. Inr (res OR ucast precision))"

function symbol_name_loop :: "u64 \<Rightarrow> string" where
  "symbol_name_loop v =
     (if v > 0 then char_of (unat (v AND 0xFF)) # symbol_name_loop (drop_bit 8 v) else [])"
  by pat_completeness auto
termination
  by (relation "measure unat")
    (simp_all add: drop_bit_eq_div unat_div_distrib word_less_nat_alt)

declare symbol_name_loop.simps [simp del]

definition sym_name :: "u64 \<Rightarrow> string" where
  "sym_name m_value = symbol_name_loop (drop_bit 8 m_value)"

definition sym_decimals :: "u64 \<Rightarrow> u8" where
  "sym_decimals m_value = ucast (m_value AND 0xFF)"

definition max_precision :: u8 where
  "max_precision = 18"

definition valid_name :: "string \<Rightarrow> bool" where
  "valid_name name = list_all is_upper name"

definition sym_valid :: "u64 \<Rightarrow> bool" where
  "sym_valid m_value \<longleftrightarrow> sym_decimals m_value \<le> max_precision \<and> valid_name (sym_name m_value)"

definition symbol_of_value :: "u64 \<Rightarrow> u64 result" where
  "symbol_of_value v = EOS_ASSERT (sym_valid v) symbol_type_exception (Inr v)"

definition symbol_of_parts :: "u8 \<Rightarrow> string \<Rightarrow> u64 result" where
  "symbol_of_parts p s =
     bindR (string_to_symbol p s) (\<lambda>m_value. EOS_ASSERT (sym_valid m_value) symbol_type_exception (Inr m_value))"

fun precision_loop :: "nat \<Rightarrow> u64 \<Rightarrow> u64" where
  "precision_loop 0 p10 = p10"
| "precision_loop (Suc p) p10 = precision_loop p (p10 * 10)"

definition sym_precision :: "u64 \<Rightarrow> u64 result" where
  "sym_precision m_value =
     EOS_ASSERT (sym_decimals m_value \<le> max_precision) symbol_type_exception
       (Inr (precision_loop (unat (sym_decimals m_value)) 1))"

definition to_symbol_code :: "u64 \<Rightarrow> u64" where
  "to_symbol_code m_value = drop_bit 8 m_value"

definition sym_to_string :: "u64 \<Rightarrow> string" where
  "sym_to_string m_value = std_to_string (unat (sym_decimals m_value)) @ '','' @ sym_name m_value"

definition str_find :: "string \<Rightarrow> char \<Rightarrow> nat option" where
  "str_find s c =
     (let pos = length (takeWhile (\<lambda>d. d \<noteq> c) s) in if pos < length s then Some pos else None)"

text \<open>The precision is converted to \<^verbatim>\<open>uint8_t\<close> before it is compared with the maximum.\<close>

definition symbol_from_string :: "fc_lib \<Rightarrow> string \<Rightarrow> u64 result" where
  "symbol_from_string fc from =
     (let s = fc_trim fc from
      in EOS_ASSERT (s \<noteq> []) symbol_type_exception
        (case str_find s CHR '','' of
           None \<Rightarrow> Inl symbol_type_exception
         | Some comma_pos \<Rightarrow>
             bindR (fc_to_int64 fc (take comma_pos s)) (\<lambda>n.
               let p = (word_of_int n :: u8)
               in EOS_ASSERT (p \<le> max_precision) symbol_type_exception
                 (bindR (string_to_symbol p (drop (comma_pos + 1) s)) symbol_of_value))))"

definition symbol_reflector_init :: "u64 \<Rightarrow> unit result" where
  "symbol_reflector_init m_value =
     EOS_ASSERT (sym_decimals m_value \<le> max_precision) symbol_type_exception
       (EOS_ASSERT (valid_name (sym_name m_value)) symbol_type_exception (Inr ()))"

section \<open>Assets\<close>

record asset =
  amount :: int
  sym :: u64

definition max_amount :: int where
  "max_amount = 2 ^ 62 - 1"

definition is_amount_within_range :: "asset \<Rightarrow> bool" where
  "is_amount_within_range a \<longleftrightarrow> - max_amount \<le> amount a \<and> amount a \<le> max_amount"

definition is_valid_asset :: "asset \<Rightarrow> bool" where
  "is_valid_asset a \<longleftrightarrow> is_amount_within_range a \<and> sym_valid (sym a)"

definition make_asset :: "int \<Rightarrow> u64 \<Rightarrow> asset result" where
  "make_asset a s =
     (let x = \<lparr>amount = a, sym = s\<rparr>
      in EOS_ASSERT (is_amount_within_range x) asset_type_exception
           (EOS_ASSERT (sym_valid s) asset_type_exception (Inr x)))"

text \<open>Signed arithmetic of the language: a result outside the type is undefined.\<close>

definition int64 :: "int \<Rightarrow> int result" where
  "int64 n = EOS_ASSERT (is_int64 n) undefined_behaviour (Inr n)"

definition asset_add_assign :: "asset \<Rightarrow> asset \<Rightarrow> asset result" where
  "asset_add_assign a b =
     EOS_ASSERT (sym a = sym b) asset_type_exception
       (bindR (int64 (amount a + amount b)) (\<lambda>n. Inr (a\<lparr>amount := n\<rparr>)))"

definition asset_sub_assign :: "asset \<Rightarrow> asset \<Rightarrow> asset result" where
  "asset_sub_assign a b =
     EOS_ASSERT (sym a = sym b) asset_type_exception
       (bindR (int64 (amount a - amount b)) (\<lambda>n. Inr (a\<lparr>amount := n\<rparr>)))"

definition asset_negate :: "asset \<Rightarrow> asset result" where
  "asset_negate a = bindR (int64 (- amount a)) (\<lambda>n. make_asset n (sym a))"

definition asset_plus :: "asset \<Rightarrow> asset \<Rightarrow> asset result" where
  "asset_plus a b =
     EOS_ASSERT (sym a = sym b) asset_type_exception
       (bindR (int64 (amount a + amount b)) (\<lambda>n. make_asset n (sym a)))"

definition asset_minus :: "asset \<Rightarrow> asset \<Rightarrow> asset result" where
  "asset_minus a b =
     EOS_ASSERT (sym a = sym b) asset_type_exception
       (bindR (int64 (amount a - amount b)) (\<lambda>n. make_asset n (sym a)))"

definition asset_eq :: "asset \<Rightarrow> asset \<Rightarrow> bool" where
  "asset_eq a b \<longleftrightarrow> (sym a, amount a) = (sym b, amount b)"

definition asset_less :: "asset \<Rightarrow> asset \<Rightarrow> bool result" where
  "asset_less a b =
     EOS_ASSERT (sym a = sym b) asset_type_exception
       (Inr (amount a < amount b \<or> amount a = amount b \<and> sym a < sym b))"

definition asset_less_eq :: "asset \<Rightarrow> asset \<Rightarrow> bool result" where
  "asset_less_eq a b = (if asset_eq a b then Inr True else asset_less a b)"

definition asset_greater :: "asset \<Rightarrow> asset \<Rightarrow> bool result" where
  "asset_greater a b = bindR (asset_less_eq a b) (\<lambda>r. Inr (\<not> r))"

definition asset_greater_eq :: "asset \<Rightarrow> asset \<Rightarrow> bool result" where
  "asset_greater_eq a b = bindR (asset_less a b) (\<lambda>r. Inr (\<not> r))"

definition asset_to_string :: "fc_lib \<Rightarrow> asset \<Rightarrow> string result" where
  "asset_to_string fc a =
     (let sign = (if amount a < 0 then ''-'' else '''')
      in bindR (int64 \<bar>amount a\<bar>) (\<lambda>abs_amount.
         bindR (sym_precision (sym a)) (\<lambda>prec.
           let whole = fc_to_string fc (abs_amount div uint prec);
               result = (if sym_decimals (sym a) \<noteq> 0
                         then whole @ ''.'' @ drop 1 (fc_to_string fc (uint prec + abs_amount mod uint prec))
                         else whole)
           in Inr (sign @ result @ '' '' @ sym_name (sym a)))))"

definition asset_parse_amount :: "fc_lib \<Rightarrow> string \<Rightarrow> nat option \<Rightarrow> (int \<times> int) result" where
  "asset_parse_amount fc amount_str dot_pos =
     (case dot_pos of
        Some d \<Rightarrow>
          bindR (fc_to_int64 fc (take d amount_str)) (\<lambda>int_part.
          bindR (fc_to_int64 fc (drop (d + 1) amount_str)) (\<lambda>fract_part.
            if hd amount_str = CHR ''-''
            then bindR (fc_safe_mul fc fract_part (- 1)) (\<lambda>f. Inr (int_part, f))
            else Inr (int_part, fract_part)))
      | None \<Rightarrow> bindR (fc_to_int64 fc amount_str) (\<lambda>int_part. Inr (int_part, 0)))"

definition asset_from_string :: "fc_lib \<Rightarrow> string \<Rightarrow> asset result" where
  "asset_from_string fc from =
     (let s = fc_trim fc from
      in case str_find s CHR '' '' of
           None \<Rightarrow> Inl asset_type_exception
         | Some space_pos \<Rightarrow>
             let symbol_str = fc_trim fc (drop (space_pos + 1) s);
                 amount_str = take space_pos s;
                 dot_pos = str_find amount_str CHR ''.''
             in EOS_ASSERT (dot_pos = None \<or> dot_pos \<noteq> Some (length amount_str - 1)) asset_type_exception
               (let precision_digit_str = (case dot_pos of
                      Some d \<Rightarrow> std_to_string (length amount_str - d - 1)
                    | None \<Rightarrow> ''0'')
                in bindR (symbol_from_string fc (precision_digit_str @ '','' @ symbol_str)) (\<lambda>s.
                   bindR (asset_parse_amount fc amount_str dot_pos) (\<lambda>(int_part, fract_part).
                   bindR (sym_precision s) (\<lambda>prec.
                   bindR (fc_safe_mul fc int_part (uint prec)) (\<lambda>scaled.
                   bindR (fc_safe_add fc scaled fract_part) (\<lambda>total_amount.
                     make_asset total_amount s)))))))"

section \<open>Decimal strings\<close>

lemma digit_char: "n < 10 \<Longrightarrow> chr_code (char_of (48 + n)) = 48 + n"
  by (simp add: chr_code_def)

lemma is_digit_char: "(n :: nat) < 10 \<Longrightarrow> is_digit (char_of (48 + n))"
  by (simp add: is_digit_def digit_char)

lemma std_to_string_digits: "list_all is_digit (std_to_string n)"
  by (induction n rule: std_to_string.induct) (subst std_to_string.simps, simp add: is_digit_char)

lemma decimal_value_snoc: "decimal_value (ds @ [c]) = 10 * decimal_value ds + (chr_code c - 48)"
  by (simp add: decimal_value_def)

lemma decimal_value_std_to_string: "decimal_value (std_to_string n) = n"
proof (induction n rule: std_to_string.induct)
  case (1 n)
  show ?case
  proof (cases "n < 10")
    case True
    then show ?thesis using decimal_value_snoc [of "[]"]
      by (simp add: std_to_string.simps [of n] digit_char) (simp add: decimal_value_def)
  next
    case False
    then show ?thesis using 1 by (simp add: std_to_string.simps [of n] decimal_value_snoc digit_char)
  qed
qed

lemma std_to_string_nonempty: "std_to_string n \<noteq> []"
  by (simp add: std_to_string.simps [of n])

text \<open>
  Printing \<open>10 ^ p + f\<close> and dropping the leading digit gives \<open>f\<close> padded to \<open>p\<close> digits: the way the
  fraction is printed.
\<close>

lemma padded_fraction:
  assumes "f < 10 ^ p"
  shows "\<exists>ds. std_to_string (10 ^ p + f) = CHR ''1'' # ds \<and> length ds = p \<and>
    list_all is_digit ds \<and> decimal_value ds = f"
  using assms
proof (induction p arbitrary: f)
  case 0
  have "std_to_string 1 = ''1''" by code_simp
  then show ?case using 0 by (simp add: decimal_value_def)
next
  case (Suc p)
  have "f div 10 < 10 ^ p" using Suc.prems by (simp add: div_less_iff_less_mult mult.commute)
  then obtain ds where ds: "std_to_string (10 ^ p + f div 10) = CHR ''1'' # ds" "length ds = p"
      "list_all is_digit ds" "decimal_value ds = f div 10"
    using Suc.IH by blast
  have "(10 ^ Suc p + f) div 10 = 10 ^ p + f div 10" "(10 ^ Suc p + f) mod 10 = f mod 10"
    by (simp_all add: div_plus_div_distrib_dvd_left)
  moreover have "\<not> 10 ^ Suc p + f < 10" by (simp add: not_less trans_le_add1)
  ultimately have "std_to_string (10 ^ Suc p + f) = CHR ''1'' # ds @ [char_of (48 + f mod 10)]"
    by (simp add: std_to_string.simps [of "10 ^ Suc p + f"] ds(1) del: power_Suc)
  then show ?case
    using ds by (intro exI [of _ "ds @ [char_of (48 + f mod 10)]"])
      (simp add: decimal_value_snoc digit_char is_digit_char)
qed

lemma fc_trim_id: "\<lbrakk> fc_ok fc; s \<noteq> []; \<not> is_space (hd s); \<not> is_space (last s) \<rbrakk> \<Longrightarrow> fc_trim fc s = s"
  by (simp add: fc_ok_def)

lemma fc_to_int64_digits:
  assumes "fc_ok fc" "ds \<noteq> []" "list_all is_digit ds" "decimal_value ds < 2 ^ 63"
  shows "fc_to_int64 fc ds = Inr (int (decimal_value ds))"
    and "fc_to_int64 fc (CHR ''-'' # ds) = Inr (- int (decimal_value ds))"
  using assms unfolding fc_ok_def by blast+

lemma fc_to_string_nat: "\<lbrakk> fc_ok fc; 0 \<le> n; n < 2 ^ 63 \<rbrakk> \<Longrightarrow> fc_to_string fc n = std_to_string (nat n)"
  by (simp add: fc_ok_def)

lemma fc_safe:
  assumes "fc_ok fc"
  shows "is_int64 (a * b) \<Longrightarrow> fc_safe_mul fc a b = Inr (a * b)"
    and "is_int64 (a + b) \<Longrightarrow> fc_safe_add fc a b = Inr (a + b)"
  using assms unfolding fc_ok_def by blast+

section \<open>Symbols pack and unpack\<close>

lemma chr_code_of: "chr_code (char_of n) = n mod 256"
  by (simp add: chr_code_def)

lemma and_0xff: "(v AND 0xFF :: u64) = take_bit 8 v"
  by (simp add: take_bit_eq_mask mask_eq_exp_minus_1)

lemma low_byte: "of_nat (chr_code (char_of (unat (v AND 0xFF :: u64)))) = take_bit 8 v"
proof -
  have "unat (take_bit 8 v) mod 256 = unat (take_bit 8 v)"
    by (simp add: unsigned_take_bit_eq take_bit_nat_def)
  then show ?thesis by (simp add: chr_code_of and_0xff)
qed

lemma push_bit_bytes:
  "push_bit k (take_bit 8 v) OR push_bit (k + 8) (drop_bit 8 (v :: u64)) = push_bit k v"
proof (rule bit_eqI)
  fix n
  show "bit (push_bit k (take_bit 8 v) OR push_bit (k + 8) (drop_bit 8 v)) n = bit (push_bit k v) n"
    by (cases "k + 8 \<le> n")
      (auto simp: bit_or_iff bit_push_bit_iff bit_take_bit_iff bit_drop_bit_eq add.commute diff_diff_add)
qed

lemma symbol_loop_name:
  assumes "list_all is_upper (symbol_name_loop v)" "unat v < 2 ^ (56 - 8 * i)"
  shows "symbol_loop (symbol_name_loop v) i res = Inr (res OR push_bit (8 * (i + 1)) v)"
  using assms
proof (induction v arbitrary: i res rule: symbol_name_loop.induct)
  case (1 v)
  show ?case
  proof (cases "v = 0")
    case True
    then show ?thesis by (simp add: symbol_name_loop.simps [of 0])
  next
    case False
    then have "v > 0" by (simp add: word_neq_0_conv)
    then have nm: "symbol_name_loop v = char_of (unat (v AND 0xFF)) # symbol_name_loop (drop_bit 8 v)"
      by (simp add: symbol_name_loop.simps [of v])
    have "56 - 8 * i \<noteq> 0" using "1.prems"(2) \<open>v > 0\<close> by (metis less_one power_0 unat_eq_zero word_neq_0_conv)
    then have i: "i < 7" by simp
    have e: "56 - 8 * i = 8 + (56 - 8 * (i + 1))" using i by simp
    have "unat (drop_bit 8 v) < 2 ^ (56 - 8 * (i + 1))"
      using "1.prems"(2) unfolding e
      by (simp add: drop_bit_eq_div unat_div_distrib power_add div_less_iff_less_mult mult.commute)
    then have "symbol_loop (symbol_name_loop (drop_bit 8 v)) (i + 1) (res OR push_bit (8 * (i + 1)) (take_bit 8 v)) =
        Inr ((res OR push_bit (8 * (i + 1)) (take_bit 8 v)) OR push_bit (8 * (i + 1 + 1)) (drop_bit 8 v))"
      using "1.IH" [OF \<open>v > 0\<close>] "1.prems"(1) nm by simp
    moreover have "push_bit (8 * (i + 1)) (take_bit 8 v) OR push_bit (8 * (i + 1 + 1)) (drop_bit 8 v) =
        push_bit (8 * (i + 1)) v"
      using push_bit_bytes [of "8 * (i + 1)" v] by (simp add: algebra_simps)
    ultimately show ?thesis
      using "1.prems"(1) i unfolding nm by (simp add: low_byte or.assoc)
  qed
qed

lemma sym_split: "push_bit 8 (drop_bit 8 v) OR ucast (sym_decimals v) = v"
  by (rule bit_eqI)
    (auto simp: sym_decimals_def bit_or_iff bit_push_bit_iff bit_drop_bit_eq bit_simps and_0xff)

lemma upper_not_NUL: "is_upper c \<Longrightarrow> c \<noteq> CHR 0x00"
  by (auto simp: is_upper_def chr_code_def)

lemma string_to_symbol_name:
  assumes "sym_valid v"
  shows "string_to_symbol (sym_decimals v) (sym_name v) = Inr v"
proof -
  have up: "list_all is_upper (symbol_name_loop (drop_bit 8 v))"
    using assms by (simp add: sym_valid_def valid_name_def sym_name_def)
  then have "c_str (sym_name v) = symbol_name_loop (drop_bit 8 v)"
    using upper_not_NUL by (simp add: c_str_def sym_name_def list_all_iff)
  moreover have "unat (drop_bit 8 v) < 2 ^ (56 - 8 * 0)"
    using unsigned_less [of v, where ?'a = nat] by (simp add: drop_bit_eq_div unat_div_distrib)
  ultimately show ?thesis
    using symbol_loop_name [OF up, of 0 0] by (simp add: string_to_symbol_def sym_split)
qed

section \<open>Reading back what was printed\<close>

lemma precision_loop_eq: "precision_loop p x = x * 10 ^ p"
  by (induction p arbitrary: x) (simp_all add: mult.assoc)

lemma sym_precision_valid:
  assumes "sym_valid v"
  obtains prec where "sym_precision v = Inr prec" "uint prec = 10 ^ unat (sym_decimals v)"
    "unat (sym_decimals v) \<le> 18"
proof
  have le: "unat (sym_decimals v) \<le> 18"
    using assms by (simp add: sym_valid_def max_precision_def word_le_nat_alt)
  then show "unat (sym_decimals v) \<le> 18" .
  show "sym_precision v = Inr (10 ^ unat (sym_decimals v))"
    using assms by (simp add: sym_precision_def sym_valid_def precision_loop_eq)
  have "(10 :: int) ^ unat (sym_decimals v) \<le> 10 ^ 18" using le by (intro power_increasing) simp_all
  then have "(10 :: int) ^ unat (sym_decimals v) < 2 ^ 64" by simp
  then show "uint (10 ^ unat (sym_decimals v) :: u64) = 10 ^ unat (sym_decimals v)"
    using uint_word_of_int_eq [of "10 ^ unat (sym_decimals v)", where ?'a = 64]
    by (simp add: take_bit_int_eq_self)
qed

lemma digit_facts:
  "is_digit c \<Longrightarrow> c \<noteq> CHR '' ''" "is_digit c \<Longrightarrow> c \<noteq> CHR ''.''" "is_digit c \<Longrightarrow> c \<noteq> CHR '',''"
  "is_digit c \<Longrightarrow> c \<noteq> CHR ''-''" "is_digit c \<Longrightarrow> \<not> is_space c"
  by (auto simp: is_digit_def chr_code_def is_space_def)

lemma upper_not_space: "is_upper c \<Longrightarrow> \<not> is_space c"
  by (auto simp: is_upper_def chr_code_def is_space_def)

lemma takeWhile_other: "c \<notin> set xs \<Longrightarrow> takeWhile (\<lambda>d. d \<noteq> c) xs = xs"
  by (induction xs) auto

lemma str_find_append: "c \<notin> set xs \<Longrightarrow> str_find (xs @ c # ys) c = Some (length xs)"
  by (simp add: str_find_def takeWhile_tail takeWhile_other)

lemma str_find_None: "c \<notin> set xs \<Longrightarrow> str_find xs c = None"
  by (simp add: str_find_def takeWhile_other)

lemma digits_not_in: "list_all is_digit ds \<Longrightarrow> \<not> is_digit c \<Longrightarrow> c \<notin> set ds"
  by (auto simp: list_all_iff)

lemma symbol_from_printed:
  assumes fc: "fc_ok fc" and v: "sym_valid v" "sym_name v \<noteq> []"
    and ds: "list_all is_digit ds" "ds \<noteq> []" "decimal_value ds = unat (sym_decimals v)"
  shows "symbol_from_string fc (ds @ '','' @ sym_name v) = Inr v"
proof -
  let ?s = "ds @ '','' @ sym_name v"
  have up: "list_all is_upper (sym_name v)" using v by (simp add: sym_valid_def valid_name_def)
  have "\<not> is_space (hd ?s)" using ds digit_facts(5) by (cases ds) auto
  moreover have "\<not> is_space (last ?s)"
    using up v(2) upper_not_space by (simp add: list_all_iff)
  ultimately have "fc_trim fc ?s = ?s" by (intro fc_trim_id [OF fc]) simp_all
  moreover have "str_find ?s CHR '','' = Some (length ds)"
    using str_find_append [of "CHR '',''" ds] digits_not_in [OF ds(1), of "CHR '',''"] digit_facts(3) by auto
  moreover have "decimal_value ds < 2 ^ 63"
    unfolding ds(3) using unsigned_less [of "sym_decimals v", where ?'a = nat] by simp
  then have "fc_to_int64 fc ds = Inr (int (unat (sym_decimals v)))"
    using fc_to_int64_digits(1) [OF fc ds(2, 1)] ds(3) by simp
  moreover have "(word_of_int (int (unat (sym_decimals v))) :: u8) = sym_decimals v" by simp
  ultimately show ?thesis
    using v(1) string_to_symbol_name [OF v(1)]
    by (simp add: symbol_from_string_def Let_def symbol_of_value_def sym_valid_def)
qed

lemma printed_amount:
  assumes fc: "fc_ok fc" and a: "is_valid_asset a"
  obtains ip ds where "asset_to_string fc a =
      Inr ((if amount a < 0 then ''-'' else []) @ std_to_string ip @ (if ds = [] then [] else CHR ''.'' # ds) @
           '' '' @ sym_name (sym a))"
    "length ds = unat (sym_decimals (sym a))" "list_all is_digit ds"
    "nat \<bar>amount a\<bar> = ip * 10 ^ length ds + decimal_value ds"
proof -
  let ?d = "unat (sym_decimals (sym a))" and ?n = "nat \<bar>amount a\<bar>"
  have sv: "sym_valid (sym a)" and rng: "\<bar>amount a\<bar> < 2 ^ 62"
    using a by (auto simp: is_valid_asset_def is_amount_within_range_def max_amount_def)
  obtain prec where p: "sym_precision (sym a) = Inr prec" "uint prec = 10 ^ ?d" "?d \<le> 18"
    using sym_precision_valid [OF sv] by blast
  have i64: "int64 \<bar>amount a\<bar> = Inr \<bar>amount a\<bar>" using rng by (simp add: int64_def is_int64_def)
  obtain ds where ds: "std_to_string (10 ^ ?d + ?n mod 10 ^ ?d) = CHR ''1'' # ds" "length ds = ?d"
      "list_all is_digit ds" "decimal_value ds = ?n mod 10 ^ ?d"
    using padded_fraction [of "?n mod 10 ^ ?d" ?d] by auto
  have whole: "fc_to_string fc (\<bar>amount a\<bar> div 10 ^ ?d) = std_to_string (?n div 10 ^ ?d)"
  proof -
    have "\<bar>amount a\<bar> div 10 ^ ?d \<le> \<bar>amount a\<bar> div 1" by (intro zdiv_mono2) simp_all
    then show ?thesis
      using fc_to_string_nat [OF fc, of "\<bar>amount a\<bar> div 10 ^ ?d"] rng
      by (simp add: pos_imp_zdiv_nonneg_iff nat_div_distrib nat_power_eq)
  qed
  have "(10 :: int) ^ ?d \<le> 10 ^ 18" using p(3) by (intro power_increasing) simp_all
  then have "(10 :: int) ^ ?d \<le> 1000000000000000000" by simp
  moreover have "\<bar>amount a\<bar> mod 10 ^ ?d < 10 ^ ?d" by simp
  ultimately have "10 ^ ?d + \<bar>amount a\<bar> mod 10 ^ ?d < 9223372036854775808" by linarith
  then have "10 ^ ?d + \<bar>amount a\<bar> mod 10 ^ ?d < 2 ^ 63" by simp
  then have fract: "fc_to_string fc (10 ^ ?d + \<bar>amount a\<bar> mod 10 ^ ?d) = CHR ''1'' # ds"
    using fc_to_string_nat [OF fc, of "10 ^ ?d + \<bar>amount a\<bar> mod 10 ^ ?d"]
    by (simp add: nat_add_distrib nat_mod_distrib nat_power_eq ds(1))
  have "(sym_decimals (sym a) = 0) = (ds = [])"
    using ds(2) by (metis length_0_conv unat_eq_zero)
  then have "asset_to_string fc a = Inr ((if amount a < 0 then ''-'' else []) @ std_to_string (?n div 10 ^ ?d) @
      (if ds = [] then [] else CHR ''.'' # ds) @ '' '' @ sym_name (sym a))"
    unfolding asset_to_string_def i64 p(1) bindR_simps Let_def p(2) whole fract by simp
  moreover have "?n = ?n div 10 ^ ?d * 10 ^ length ds + decimal_value ds"
    unfolding ds(2, 4) by (rule div_mult_mod_eq [symmetric])
  ultimately show ?thesis using that ds by blast
qed

text \<open>What the parser makes of the amount part.\<close>

lemma parse_printed_amount:
  assumes fc: "fc_ok fc" and ds: "list_all is_digit ds"
    and bound: "ip * 10 ^ length ds + decimal_value ds < 2 ^ 62"
    and sign: "sgn_str = (if neg then ''-'' else [])"
    and str: "str = sgn_str @ std_to_string ip @ (if ds = [] then [] else CHR ''.'' # ds)"
  shows "str_find str CHR ''.'' = (if ds = [] then None else Some (length str - length ds - 1))"
    and "asset_parse_amount fc str (str_find str CHR ''.'') =
      (if neg then Inr (- int ip, - int (decimal_value ds)) else Inr (int ip, int (decimal_value ds)))"
proof -
  let ?front = "sgn_str @ std_to_string ip"
  have dot: "CHR ''.'' \<notin> set ?front"
    using digits_not_in [OF std_to_string_digits [of ip], of "CHR ''.''"] digit_facts(2) sign by auto
  then show find: "str_find str CHR ''.'' = (if ds = [] then None else Some (length str - length ds - 1))"
    using str_find_append [OF dot, of ds] str_find_None [OF dot] by (simp add: str)
  have "ip \<le> ip * 10 ^ length ds + decimal_value ds" by (simp add: trans_le_add1)
  then have "ip < 2 ^ 62" and "decimal_value ds < 2 ^ 62"
    using bound by (blast intro: le_less_trans le_add2)+
  then have ip: "ip < 2 ^ 63" and fr: "decimal_value ds < 2 ^ 63" by simp_all
  have front: "fc_to_int64 fc ?front = Inr (if neg then - int ip else int ip)"
    using fc_to_int64_digits [OF fc std_to_string_nonempty std_to_string_digits, of ip] ip sign
    by (simp add: decimal_value_std_to_string)
  have frac: "fc_to_int64 fc ds = Inr (int (decimal_value ds))" if "ds \<noteq> []"
    using fc_to_int64_digits(1) [OF fc that ds fr] .
  have neg_frac: "fc_safe_mul fc (int (decimal_value ds)) (- 1) = Inr (- int (decimal_value ds))"
    using fc_safe(1) [OF fc, of "int (decimal_value ds)" "- 1"] fr by (simp add: is_int64_def)
  have hd: "(hd str = CHR ''-'') = neg"
    using std_to_string_nonempty [of ip] std_to_string_digits [of ip] digit_facts(4) sign
    by (cases "std_to_string ip") (auto simp: str)
  show "asset_parse_amount fc str (str_find str CHR ''.'') =
      (if neg then Inr (- int ip, - int (decimal_value ds)) else Inr (int ip, int (decimal_value ds)))"
  proof (cases "ds = []")
    case True
    then show ?thesis
      using front find by (simp add: asset_parse_amount_def str decimal_value_def)
  next
    case False
    then have "str_find str CHR ''.'' = Some (length ?front)" using find by (simp add: str)
    moreover have "take (length ?front) str = ?front" "drop (length ?front + 1) str = ds"
      using False by (simp_all add: str)
    ultimately show ?thesis
      using front frac [OF False] neg_frac hd by (simp add: asset_parse_amount_def del: length_append)
  qed
qed

lemma asset_read_back:
  assumes fc: "fc_ok fc" and a: "is_valid_asset a" "sym_name (sym a) \<noteq> []"
  shows "bindR (asset_to_string fc a) (asset_from_string fc) = Inr a"
proof -
  obtain ip ds where printed: "asset_to_string fc a =
      Inr ((if amount a < 0 then ''-'' else []) @ std_to_string ip @ (if ds = [] then [] else CHR ''.'' # ds) @
           '' '' @ sym_name (sym a))"
    and ds: "length ds = unat (sym_decimals (sym a))" "list_all is_digit ds"
    and amt: "nat \<bar>amount a\<bar> = ip * 10 ^ length ds + decimal_value ds"
    using printed_amount [OF fc a(1)] by blast
  define sg where "sg = (if amount a < 0 then ''-'' else [])"
  define str where "str = sg @ std_to_string ip @ (if ds = [] then [] else CHR ''.'' # ds)"
  let ?s = "str @ '' '' @ sym_name (sym a)"
  have sv: "sym_valid (sym a)" and rng: "\<bar>amount a\<bar> < 2 ^ 62"
    using a by (auto simp: is_valid_asset_def is_amount_within_range_def max_amount_def)
  have "nat \<bar>amount a\<bar> < 2 ^ 62" using rng by (simp add: nat_less_iff)
  then have bound: "ip * 10 ^ length ds + decimal_value ds < 2 ^ 62" unfolding amt .
  note parsed = parse_printed_amount [OF fc ds(2) bound sg_def str_def]
  have up: "list_all is_upper (sym_name (sym a))" using sv by (simp add: sym_valid_def valid_name_def)
  have sp: "\<not> is_space (hd (sym_name (sym a)))" "\<not> is_space (last (sym_name (sym a)))"
    using up a(2) upper_not_space by (simp_all add: list_all_iff)
  have chars: "\<not> is_space c" if "c \<in> set str" for c
    using that std_to_string_digits [of ip] ds(2) digit_facts(5)
    by (auto simp: str_def sg_def list_all_iff is_space_def chr_code_def split: if_splits)
  have ne: "str \<noteq> []" using std_to_string_nonempty by (simp add: str_def)
  have trims: "fc_trim fc ?s = ?s" "fc_trim fc (sym_name (sym a)) = sym_name (sym a)"
    using chars ne sp a(2) by (auto intro!: fc_trim_id [OF fc])
  have space: "str_find ?s CHR '' '' = Some (length str)"
    using str_find_append [of "CHR '' ''" str] chars by (force simp: is_space_def chr_code_def)
  have dot: "str_find str CHR ''.'' = None \<or> str_find str CHR ''.'' \<noteq> Some (length str - 1)"
    using parsed(1) by (auto simp: str_def)
  have digits: "(case str_find str CHR ''.'' of Some d \<Rightarrow> std_to_string (length str - d - 1) | None \<Rightarrow> ''0'') =
      std_to_string (length ds)"
    using parsed(1) by (simp add: str_def) code_simp
  have symbol: "symbol_from_string fc (std_to_string (length ds) @ '','' @ sym_name (sym a)) = Inr (sym a)"
    using symbol_from_printed [OF fc sv a(2) std_to_string_digits std_to_string_nonempty, of "length ds"] ds(1)
    by (simp add: decimal_value_std_to_string)
  obtain prec where prec: "sym_precision (sym a) = Inr prec" "uint prec = 10 ^ length ds"
    using sym_precision_valid [OF sv] ds(1) by metis
  have made: "make_asset (amount a) (sym a) = Inr a"
    using a(1) by (simp add: make_asset_def Let_def is_valid_asset_def is_amount_within_range_def)
  obtain i f where parts: "asset_parse_amount fc str (str_find str CHR ''.'') = Inr (i, f)"
    "is_int64 (i * 10 ^ length ds)" "i * 10 ^ length ds + f = amount a"
  proof -
    have "0 \<le> int ip * 10 ^ length ds" by simp
    moreover have "int ip * 10 ^ length ds + int (decimal_value ds) = \<bar>amount a\<bar>"
      using arg_cong [OF amt, of int] by simp
    ultimately show ?thesis
      using that parsed(2) rng
      by (cases "amount a < 0") (simp_all add: is_int64_def del: mult_nonneg_nonneg zero_le_mult_iff)
  qed
  have "is_int64 (i * 10 ^ length ds + f)" using rng unfolding parts(3) by (auto simp: is_int64_def)
  then have "asset_from_string fc ?s = Inr a"
    using parts(2, 3) made
    by (simp add: asset_from_string_def Let_def trims [simplified] space [simplified] dot [simplified]
        digits [simplified] symbol [simplified] parts(1) prec fc_safe [OF fc])
  then show ?thesis by (simp add: printed str_def sg_def)
qed

section \<open>A reference instance of the fc utilities\<close>

definition parse_digits :: "string \<Rightarrow> int result" where
  "parse_digits ds =
     (if ds \<noteq> [] \<and> list_all is_digit ds \<and> decimal_value ds < 2 ^ 63
      then Inr (int (decimal_value ds)) else Inl parse_error_exception)"

definition checked :: "int \<Rightarrow> int result" where
  "checked n = (if is_int64 n then Inr n else Inl overflow_exception)"

definition fc_reference :: fc_lib where
  "fc_reference =
     \<lparr>fc_trim = \<lambda>s. rev (dropWhile is_space (rev (dropWhile is_space s))),
      fc_to_int64 = \<lambda>s. (case s of
          c # ds \<Rightarrow> if c = CHR ''-'' then bindR (parse_digits ds) (\<lambda>n. Inr (- n)) else parse_digits s
        | [] \<Rightarrow> Inl parse_error_exception),
      fc_to_string = \<lambda>n. (if n < 0 then CHR ''-'' # std_to_string (nat (- n)) else std_to_string (nat n)),
      fc_safe_mul = \<lambda>a b. checked (a * b),
      fc_safe_add = \<lambda>a b. checked (a + b)\<rparr>"

lemma trim_nothing:
  assumes "s \<noteq> []" "\<not> is_space (hd s)" "\<not> is_space (last s)"
  shows "rev (dropWhile is_space (rev (dropWhile is_space s))) = s"
proof -
  have "dropWhile is_space s = s" using assms(1, 2) by (cases s) auto
  moreover have "dropWhile is_space (rev s) = rev s"
    using assms(1, 3) by (cases s rule: rev_cases) auto
  ultimately show ?thesis by simp
qed

lemma fc_ok_reference: "fc_ok fc_reference"
  using digit_facts(4)
  by (auto simp: fc_ok_def fc_reference_def trim_nothing parse_digits_def checked_def split: list.split)

section \<open>Properties\<close>

text \<open>
  C30: every valid asset whose symbol has a name is read back by \<^verbatim>\<open>asset::from_string\<close> from the text
  \<^verbatim>\<open>asset::to_string\<close> prints for it: sign, integer part, padded fraction, precision and symbol all
  survive, negative amounts between minus one and zero included.
\<close>

theorem asset_text_round_trip:
  assumes "fc_ok fc" "is_valid_asset a" "sym_name (sym a) \<noteq> []"
  shows "bindR (asset_to_string fc a) (asset_from_string fc) = Inr a"
  using assms by (rule asset_read_back)

lemma example_symbol: "string_to_symbol 4 ''EOS'' = Inr 0x534f4504" "sym_valid 0x534f4504"
    "sym_name 0x534f4504 = ''EOS''"
  by code_simp+

theorem asset_text_round_trip_witness:
  "bindR (asset_to_string fc_reference \<lparr>amount = - 5, sym = 0x534f4504\<rparr>) (asset_from_string fc_reference) =
     Inr \<lparr>amount = - 5, sym = 0x534f4504\<rparr>"
  by (rule asset_text_round_trip)
    (simp_all add: fc_ok_reference is_valid_asset_def is_amount_within_range_def max_amount_def example_symbol)

text \<open>
  Addition of two valid assets never overflows the 64-bit amount: it fails exactly when the symbols
  differ or the exact sum is outside the range, always with \<^verbatim>\<open>asset_type_exception\<close>, and otherwise
  returns the exact sum as a valid asset.
\<close>

theorem asset_plus_exact:
  assumes "is_valid_asset a" "is_valid_asset b"
  shows "asset_plus a b =
    (if sym a = sym b \<and> \<bar>amount a + amount b\<bar> \<le> max_amount
     then Inr \<lparr>amount = amount a + amount b, sym = sym a\<rparr> else Inl asset_type_exception)"
  using assms
  by (auto simp: asset_plus_def is_valid_asset_def is_amount_within_range_def make_asset_def
      int64_def is_int64_def max_amount_def EOS_ASSERT_def Let_def)

theorem asset_plus_exact_witness:
  "asset_plus \<lparr>amount = max_amount, sym = 0x534f4504\<rparr> \<lparr>amount = 1, sym = 0x534f4504\<rparr> =
     Inl asset_type_exception"
  using asset_plus_exact [of "\<lparr>amount = max_amount, sym = 0x534f4504\<rparr>" "\<lparr>amount = 1, sym = 0x534f4504\<rparr>"]
  by (simp add: is_valid_asset_def is_amount_within_range_def max_amount_def example_symbol)

text \<open>The compound assignment has no range check: it returns assets no constructor accepts.\<close>

lemma asset_add_assign_escapes:
  "asset_add_assign \<lparr>amount = max_amount, sym = 0x534f4504\<rparr> \<lparr>amount = 1, sym = 0x534f4504\<rparr> =
     Inr \<lparr>amount = 2 ^ 62, sym = 0x534f4504\<rparr>"
  "\<not> is_valid_asset \<lparr>amount = 2 ^ 62, sym = 0x534f4504\<rparr>"
  by (simp_all add: asset_add_assign_def int64_def is_int64_def max_amount_def is_valid_asset_def
      is_amount_within_range_def)

text \<open>
  C40: \<^verbatim>\<open>symbol::from_string\<close> reduces the written precision modulo 256 before it checks it against the
  maximum of 18: for every written precision whose remainder passes, the text is accepted with the
  remainder as its precision, so that 260 decimals are read as 4.
\<close>

theorem symbol_precision_truncated:
  assumes "fc_ok fc" "n < 2 ^ 63" "n mod 256 \<le> 18"
  shows "symbol_from_string fc (std_to_string n @ '',EOS'') = Inr (0x534f4500 OR of_nat (n mod 256))"
proof -
  let ?s = "std_to_string n @ '',EOS''"
  have digits: "list_all is_digit (std_to_string n)" "std_to_string n \<noteq> []"
    by (rule std_to_string_digits std_to_string_nonempty)+
  have "\<not> is_space (hd ?s)" using digits digit_facts(5) by (cases "std_to_string n") auto
  then have "fc_trim fc ?s = ?s"
    by (intro fc_trim_id [OF assms(1)]) (simp_all add: is_space_def chr_code_def)
  moreover have "str_find ?s CHR '','' = Some (length (std_to_string n))"
    using str_find_append [of "CHR '',''" "std_to_string n"] digits_not_in [OF digits(1), of "CHR '',''"]
      digit_facts(3) by auto
  moreover have "fc_to_int64 fc (std_to_string n) = Inr (int n)"
    using fc_to_int64_digits(1) [OF assms(1) digits(2, 1)] assms(2) by (simp add: decimal_value_std_to_string)
  moreover have p: "(word_of_int (int n) :: u8) = of_nat (n mod 256)"
    by (simp add: word_unat_eq_iff unsigned_of_nat take_bit_nat_def)
  moreover have "list_all (\<lambda>p. (of_nat p :: u8) \<le> max_precision \<and>
      bindR (string_to_symbol (of_nat p) ''EOS'') symbol_of_value = Inr (0x534f4500 OR of_nat p)) [0..<19]"
    by code_simp
  then have "(of_nat (n mod 256) :: u8) \<le> max_precision"
    "bindR (string_to_symbol (of_nat (n mod 256)) ''EOS'') symbol_of_value = Inr (0x534f4500 OR of_nat (n mod 256))"
    using assms(3) by (simp_all add: list_all_iff)
  ultimately show ?thesis by (simp add: symbol_from_string_def)
qed

theorem symbol_precision_truncated_witness:
  "symbol_from_string fc_reference (std_to_string 260 @ '',EOS'') = Inr 0x534f4504"
  using symbol_precision_truncated [OF fc_ok_reference, of 260] by simp

text \<open>A name of eight letters shifts a letter by the width of the type.\<close>

lemma symbol_loop_long:
  assumes "list_all is_upper cs" "i < 8" "8 \<le> i + length cs"
  shows "symbol_loop cs i res = Inl undefined_behaviour"
  using assms by (induction cs i res rule: symbol_loop.induct) (auto simp: EOS_ASSERT_def)

text \<open>
  \<^verbatim>\<open>string_to_symbol\<close> does not bound the length of the name: eight or more letters make it shift a
  64-bit value by 64, which has no defined result, before any check of the symbol.
\<close>

theorem symbol_long_name_undefined:
  assumes "list_all is_upper s" "8 \<le> length s"
  shows "string_to_symbol p s = Inl undefined_behaviour"
proof -
  have "c_str s = s" using assms(1) upper_not_NUL by (auto simp: c_str_def list_all_iff)
  then show ?thesis using symbol_loop_long [of s 0] assms by (simp add: string_to_symbol_def)
qed

theorem symbol_long_name_undefined_witness:
  "string_to_symbol 4 ''ABCDEFGH'' = Inl undefined_behaviour"
  by (rule symbol_long_name_undefined) (simp_all add: is_upper_def chr_code_def)

end
