(* ===== verification/Authority.thy ===== *)
theory Authority
  imports Ordered_Map "HOL-Library.Multiset"
begin

text \<open>
  Authorities and the algorithm that decides whether keys, permissions and a delay satisfy one
  (\<^verbatim>\<open>authority.hpp\<close>, \<^verbatim>\<open>authority_checker.hpp\<close>). Public keys are a type parameter with the order the
  code sorts them by; the function from a permission to its authority is an argument that may
  raise, as it is in the code.
\<close>

section \<open>Permission levels\<close>

datatype permission_level = permission_level (actor: u64) (permission: u64)

instantiation permission_level :: linorder
begin

definition less_permission_level :: "permission_level \<Rightarrow> permission_level \<Rightarrow> bool" where
  "less_permission_level a b \<longleftrightarrow> actor a < actor b \<or> actor a = actor b \<and> permission a < permission b"

definition less_eq_permission_level :: "permission_level \<Rightarrow> permission_level \<Rightarrow> bool" where
  "less_eq_permission_level a b \<longleftrightarrow> actor a < actor b \<or> actor a = actor b \<and> permission a \<le> permission b"

instance
  by standard
    (auto simp: less_permission_level_def less_eq_permission_level_def intro: permission_level.expand)

end

section \<open>Authorities\<close>

record permission_level_weight =
  pl_permission :: permission_level
  pl_weight :: u16

record 'k key_weight =
  kw_key :: 'k
  kw_weight :: u16

record wait_weight =
  wait_sec :: u32
  ww_weight :: u16

record 'k authority =
  threshold :: u32
  keys :: "'k key_weight list"
  accounts :: "permission_level_weight list"
  waits :: "wait_weight list"

definition authority_of_key :: "'k \<Rightarrow> u32 \<Rightarrow> 'k authority" where
  "authority_of_key k delay_sec =
     \<lparr>threshold = (if delay_sec > 0 then 2 else 1), keys = [\<lparr>kw_key = k, kw_weight = 1\<rparr>], accounts = [],
      waits = (if delay_sec > 0 then [\<lparr>wait_sec = delay_sec, ww_weight = 1\<rparr>] else [])\<rparr>"

definition authority_of_level :: "permission_level \<Rightarrow> u32 \<Rightarrow> 'k authority" where
  "authority_of_level p delay_sec =
     \<lparr>threshold = (if delay_sec > 0 then 2 else 1), keys = [],
      accounts = [\<lparr>pl_permission = p, pl_weight = 1\<rparr>],
      waits = (if delay_sec > 0 then [\<lparr>wait_sec = delay_sec, ww_weight = 1\<rparr>] else [])\<rparr>"

text \<open>Sizes are billed in units of 16 bytes, rounded up.\<close>

definition billable_size_v :: "nat \<Rightarrow> nat" where
  "billable_size_v v = ((v + 16 - 1) div 16) * 16"

text \<open>RAM billed for a stored authority; \<open>pack_size\<close> is the serialised size of a key.\<close>

definition get_billable_size :: "('k \<Rightarrow> nat) \<Rightarrow> 'k authority \<Rightarrow> nat" where
  "get_billable_size pack_size a =
     length (accounts a) * billable_size_v 24 + length (waits a) * billable_size_v 16 +
     (\<Sum>k \<leftarrow> keys a. billable_size_v 8 + pack_size (kw_key k))"

text \<open>
  The three loops of \<^verbatim>\<open>validate\<close>: each compares an entry with the previous one and adds its weight
  to the 32-bit total; \<open>None\<close> stands for the early \<^verbatim>\<open>return false\<close>.
\<close>

fun validate_loop :: "('e \<Rightarrow> 'e \<Rightarrow> bool) \<Rightarrow> ('e \<Rightarrow> u16) \<Rightarrow> 'e option \<Rightarrow> 'e list \<Rightarrow> u32 \<Rightarrow> u32 option" where
  "validate_loop before weight prev [] tot = Some tot"
| "validate_loop before weight prev (x # xs) tot =
     (if (case prev of None \<Rightarrow> False | Some p \<Rightarrow> \<not> before p x) then None
      else validate_loop before weight (Some x) xs (tot + ucast (weight x)))"

definition validate :: "'k :: linorder authority \<Rightarrow> bool" where
  "validate auth =
     (if length (keys auth) + length (accounts auth) + length (waits auth) > 2 ^ 16 then False
      else if threshold auth = 0 then False
      else case validate_loop (\<lambda>p k. kw_key p < kw_key k) kw_weight None (keys auth) 0 of
          None \<Rightarrow> False
        | Some t1 \<Rightarrow> (case validate_loop (\<lambda>p a. \<not> pl_permission p \<ge> pl_permission a) pl_weight None (accounts auth) t1 of
            None \<Rightarrow> False
          | Some t2 \<Rightarrow>
              if waits auth \<noteq> [] \<and> wait_sec (hd (waits auth)) = 0 then False
              else (case validate_loop (\<lambda>p w. \<not> wait_sec p \<ge> wait_sec w) ww_weight None (waits auth) t2 of
                None \<Rightarrow> False
              | Some t3 \<Rightarrow> t3 \<ge> threshold auth)))"

section \<open>The checker\<close>

datatype permission_cache_status = being_evaluated | permission_unsatisfied | permission_satisfied

type_synonym permission_cache = "(permission_level \<times> permission_cache_status) list"

record 'k checker =
  permission_to_authority :: "permission_level \<Rightarrow> 'k authority result"
  recursion_depth_limit :: u16
  provided_keys :: "'k list"
  provided_permissions :: "permission_level list"
  provided_delay :: int

record checker_state =
  marked :: "bool list"
  cached :: permission_cache

definition permission_status_in_cache :: "permission_cache \<Rightarrow> permission_level \<Rightarrow> permission_cache_status option" where
  "permission_status_in_cache permissions level =
     (case fm_find level permissions of
        Some s \<Rightarrow> Some s
      | None \<Rightarrow> (case fm_find (permission_level (actor level) 0) permissions of
            Some s \<Rightarrow> Some s
          | None \<Rightarrow> None))"

definition initialize_permission_cache :: "'k checker \<Rightarrow> permission_cache" where
  "initialize_permission_cache c =
     fold (\<lambda>p. fm_emplace p permission_satisfied) (provided_permissions c) []"

text \<open>A meta permission is one entry of an authority: an account, a key or a wait.\<close>

datatype 'k meta_permission =
    Meta_Account permission_level_weight | Meta_Key "'k key_weight" | Meta_Wait wait_weight

fun meta_weight :: "'k meta_permission \<Rightarrow> u16" where
  "meta_weight (Meta_Account a) = pl_weight a"
| "meta_weight (Meta_Key k) = kw_weight k"
| "meta_weight (Meta_Wait w) = ww_weight w"

fun meta_priority :: "'k meta_permission \<Rightarrow> int" where
  "meta_priority (Meta_Account a) = 1"
| "meta_priority (Meta_Key k) = 2"
| "meta_priority (Meta_Wait w) = 3"

definition meta_greater :: "'k meta_permission \<Rightarrow> 'k meta_permission \<Rightarrow> bool" where
  "meta_greater a b \<longleftrightarrow>
     meta_weight a > meta_weight b \<or> meta_weight a = meta_weight b \<and> meta_priority a > meta_priority b"

text \<open>The multimap is ordered by \<^verbatim>\<open>std::greater\<close>; an equal key goes behind those present.\<close>

fun meta_emplace :: "'k meta_permission \<Rightarrow> 'k meta_permission list \<Rightarrow> 'k meta_permission list" where
  "meta_emplace m [] = [m]"
| "meta_emplace m (x # xs) = (if meta_greater m x then m # x # xs else x # meta_emplace m xs)"

definition meta_permissions :: "'k authority \<Rightarrow> 'k meta_permission list" where
  "meta_permissions a =
     fold meta_emplace (map Meta_Wait (waits a))
       (fold meta_emplace (map Meta_Key (keys a))
         (fold meta_emplace (map Meta_Account (accounts a)) []))"

fun index_of :: "'a \<Rightarrow> 'a list \<Rightarrow> nat option" where
  "index_of x [] = None"
| "index_of x (y # ys) = (if x = y then Some 0 else map_option Suc (index_of x ys))"

text \<open>The three overloads of the tally visitor; \<open>sat\<close> is the recursive call on an authority.\<close>

definition visit_wait :: "'k checker \<Rightarrow> wait_weight \<Rightarrow> u32 \<Rightarrow> u32" where
  "visit_wait c w tot =
     (if provided_delay c \<ge> uint (wait_sec w) * 1000000 then tot + ucast (ww_weight w) else tot)"

definition visit_key :: "'k checker \<Rightarrow> 'k key_weight \<Rightarrow> u32 \<Rightarrow> checker_state \<Rightarrow> u32 \<times> checker_state" where
  "visit_key c k tot s =
     (case index_of (kw_key k) (provided_keys c) of
        None \<Rightarrow> (tot, s)
      | Some i \<Rightarrow> (tot + ucast (kw_weight k), s\<lparr>marked := (marked s)[i := True]\<rparr>))"

definition visit_account :: "'k checker \<Rightarrow> u16 \<Rightarrow>
    ('k authority \<Rightarrow> checker_state \<Rightarrow> (bool \<times> checker_state) result) \<Rightarrow>
    permission_level_weight \<Rightarrow> u32 \<Rightarrow> checker_state \<Rightarrow> (u32 \<times> checker_state) result" where
  "visit_account c depth sat a tot s =
     (case permission_status_in_cache (cached s) (pl_permission a) of
        None \<Rightarrow>
          if depth < recursion_depth_limit c then
            (case permission_to_authority c (pl_permission a) of
               Inl permission_query_exception \<Rightarrow> Inr (tot, s)
             | Inl e \<Rightarrow> Inl e
             | Inr auth \<Rightarrow>
                 bindR (sat auth (s\<lparr>cached := fm_set (pl_permission a) being_evaluated (cached s)\<rparr>)) (\<lambda>(r, s').
                   if r then Inr (tot + ucast (pl_weight a),
                     s'\<lparr>cached := fm_set (pl_permission a) permission_satisfied (cached s')\<rparr>)
                   else Inr (tot,
                     s'\<lparr>cached := fm_set (pl_permission a) permission_unsatisfied (cached s')\<rparr>)))
          else Inr (tot, s)
      | Some permission_satisfied \<Rightarrow> Inr (tot + ucast (pl_weight a), s)
      | Some _ \<Rightarrow> Inr (tot, s))"

definition visit :: "'k checker \<Rightarrow> u16 \<Rightarrow>
    ('k authority \<Rightarrow> checker_state \<Rightarrow> (bool \<times> checker_state) result) \<Rightarrow>
    'k meta_permission \<Rightarrow> u32 \<Rightarrow> checker_state \<Rightarrow> (u32 \<times> checker_state) result" where
  "visit c depth sat m tot s =
     (case m of
        Meta_Wait w \<Rightarrow> Inr (visit_wait c w tot, s)
      | Meta_Key k \<Rightarrow> Inr (visit_key c k tot s)
      | Meta_Account a \<Rightarrow> visit_account c depth sat a tot s)"

text \<open>The recursive call is only made below the depth limit, which is what makes the check end.\<close>

lemma visit_cong [fundef_cong]:
  assumes "c = c'" "depth = depth'" "m = m'" "tot = tot'" "s = s'"
    and "\<And>auth t. depth' < recursion_depth_limit c' \<Longrightarrow> sat auth t = sat' auth t"
  shows "visit c depth sat m tot s = visit c' depth' sat' m' tot' s'"
  using assms by (auto simp: visit_def visit_account_def split: meta_permission.split option.split sum.split exn.split)

lemma deeper_is_closer:
  assumes "(depth :: u16) < limit"
  shows "unat limit - unat (depth + 1) < unat limit - unat depth"
proof -
  have lt: "unat depth < unat limit" using assms by (simp add: word_less_nat_alt)
  moreover have "unat limit < 2 ^ LENGTH(16)" by (rule unsigned_less)
  ultimately have "unat (depth + 1) = unat depth + 1"
    using unat_plus_no_wrap [of depth 1] by simp
  with lt show ?thesis by linarith
qed

text \<open>The loop over the sorted entries, and the restoring of the used keys when it fails.\<close>

function satisfied_loop :: "'k checker \<Rightarrow> u16 \<Rightarrow> u32 \<Rightarrow> 'k meta_permission list \<Rightarrow> u32 \<Rightarrow> checker_state \<Rightarrow>
    (bool \<times> checker_state) result" where
  "satisfied_loop c depth thr [] tot s = Inr (False, s)"
| "satisfied_loop c depth thr (m # ms) tot s =
     bindR (visit c depth
         (\<lambda>auth t. bindR (satisfied_loop c (depth + 1) (threshold auth) (meta_permissions auth) 0 t)
            (\<lambda>(r, t'). Inr (r, if r then t' else t'\<lparr>marked := marked t\<rparr>)))
         m tot s)
       (\<lambda>(tot', s'). if tot' \<ge> thr then Inr (True, s') else satisfied_loop c depth thr ms tot' s')"
  by pat_completeness auto
termination
proof (relation "measures [\<lambda>(c, depth, thr, ms, tot, s). unat (recursion_depth_limit c) - unat depth,
    \<lambda>(c, depth, thr, ms, tot, s). length ms]", goal_cases)
  case (2 c depth thr m ms tot s auth t)
  then show ?case using deeper_is_closer by simp
qed auto

definition satisfied_auth :: "'k checker \<Rightarrow> u16 \<Rightarrow> 'k authority \<Rightarrow> checker_state \<Rightarrow> (bool \<times> checker_state) result" where
  "satisfied_auth c depth auth s =
     bindR (satisfied_loop c depth (threshold auth) (meta_permissions auth) 0 s)
       (\<lambda>(r, s'). Inr (r, if r then s' else s'\<lparr>marked := marked s\<rparr>))"

lemma satisfied_loop_Cons:
  "satisfied_loop c depth thr (m # ms) tot s =
     bindR (visit c depth (satisfied_auth c (depth + 1)) m tot s)
       (\<lambda>(tot', s'). if tot' \<ge> thr then Inr (True, s') else satisfied_loop c depth thr ms tot' s')"
  unfolding satisfied_loop.simps satisfied_auth_def ..

declare satisfied_loop.simps(2) [simp del]

text \<open>
  The public entry points. The cache is the one the caller passes, or a fresh one holding the
  provided permissions; an overriding delay holds for the one call.
\<close>

definition cache_or_initial :: "'k checker \<Rightarrow> permission_cache option \<Rightarrow> permission_cache" where
  "cache_or_initial c cached_perms =
     (case cached_perms of None \<Rightarrow> initialize_permission_cache c | Some m \<Rightarrow> m)"

definition satisfied_permission :: "'k checker \<Rightarrow> permission_level \<Rightarrow> permission_cache option \<Rightarrow> bool list \<Rightarrow>
    (bool \<times> checker_state) result" where
  "satisfied_permission c p cached_perms used =
     bindR (visit_account c 0 (satisfied_auth c 1) \<lparr>pl_permission = p, pl_weight = 1\<rparr> 0
         \<lparr>marked = used, cached = cache_or_initial c cached_perms\<rparr>)
       (\<lambda>(tot, s). Inr (tot > 0, s))"

definition satisfied_permission_with_delay :: "'k checker \<Rightarrow> permission_level \<Rightarrow> int \<Rightarrow> permission_cache option \<Rightarrow>
    bool list \<Rightarrow> (bool \<times> checker_state) result" where
  "satisfied_permission_with_delay c p override_provided_delay =
     satisfied_permission (c\<lparr>provided_delay := override_provided_delay\<rparr>) p"

definition satisfied_authority :: "'k checker \<Rightarrow> 'k authority \<Rightarrow> permission_cache option \<Rightarrow> bool list \<Rightarrow>
    (bool \<times> checker_state) result" where
  "satisfied_authority c auth cached_perms used =
     satisfied_auth c 0 auth \<lparr>marked = used, cached = cache_or_initial c cached_perms\<rparr>"

definition satisfied_authority_with_delay :: "'k checker \<Rightarrow> 'k authority \<Rightarrow> int \<Rightarrow> permission_cache option \<Rightarrow>
    bool list \<Rightarrow> (bool \<times> checker_state) result" where
  "satisfied_authority_with_delay c auth override_provided_delay =
     satisfied_authority (c\<lparr>provided_delay := override_provided_delay\<rparr>) auth"

definition initial_marks :: "'k checker \<Rightarrow> bool list" where
  "initial_marks c = replicate (length (provided_keys c)) False"

definition all_keys_used :: "bool list \<Rightarrow> bool" where
  "all_keys_used used = list_all (\<lambda>b. b = True) used"

definition filter_data_by_marker :: "'a list \<Rightarrow> bool list \<Rightarrow> bool \<Rightarrow> 'a list" where
  "filter_data_by_marker data markers marker_value =
     map fst (filter (\<lambda>(x, b). b = marker_value) (zip data markers))"

definition used_keys :: "'k checker \<Rightarrow> bool list \<Rightarrow> 'k list" where
  "used_keys c used = filter_data_by_marker (provided_keys c) used True"

definition unused_keys :: "'k checker \<Rightarrow> bool list \<Rightarrow> 'k list" where
  "unused_keys c used = filter_data_by_marker (provided_keys c) used False"

section \<open>What it means to be satisfied\<close>

text \<open>
  The reference: a permission holds if it is provided, if the whole account is (the entry with the
  empty permission name), or if entries of its authority that hold reach the threshold.
\<close>

definition weight_sum :: "'k meta_permission list \<Rightarrow> nat" where
  "weight_sum ms = (\<Sum>m \<leftarrow> ms. unat (meta_weight m))"

inductive permission_holds :: "'k checker \<Rightarrow> permission_level \<Rightarrow> bool"
  and entry_holds :: "'k checker \<Rightarrow> 'k meta_permission \<Rightarrow> bool"
  for c where
  provided: "p \<in> set (provided_permissions c) \<Longrightarrow> permission_holds c p"
| whole_account: "permission_holds c (permission_level (actor p) 0) \<Longrightarrow> permission_holds c p"
| by_authority: "permission_to_authority c p = Inr auth \<Longrightarrow> mset ms \<subseteq># mset (meta_permissions auth) \<Longrightarrow>
    (\<And>m. m \<in> set ms \<Longrightarrow> entry_holds c m) \<Longrightarrow> unat (threshold auth) \<le> weight_sum ms \<Longrightarrow> permission_holds c p"
| by_wait: "uint (wait_sec w) * 1000000 \<le> provided_delay c \<Longrightarrow> entry_holds c (Meta_Wait w)"
| by_key: "kw_key k \<in> set (provided_keys c) \<Longrightarrow> entry_holds c (Meta_Key k)"
| by_account: "permission_holds c (pl_permission a) \<Longrightarrow> entry_holds c (Meta_Account a)"

definition authority_holds :: "'k checker \<Rightarrow> 'k authority \<Rightarrow> bool" where
  "authority_holds c auth \<longleftrightarrow>
     (\<exists>ms. mset ms \<subseteq># mset (meta_permissions auth) \<and> (\<forall>m \<in> set ms. entry_holds c m) \<and>
           unat (threshold auth) \<le> weight_sum ms)"

inductive_simps entry_holds_simps [simp]:
  "entry_holds c (Meta_Wait w)"
  "entry_holds c (Meta_Key k)"
  "entry_holds c (Meta_Account a)"

lemma authority_holds_permission:
  "permission_to_authority c p = Inr auth \<Longrightarrow> authority_holds c auth \<Longrightarrow> permission_holds c p"
  unfolding authority_holds_def by (blast intro: by_authority)

definition cache_sound :: "'k checker \<Rightarrow> permission_cache \<Rightarrow> bool" where
  "cache_sound c m \<longleftrightarrow> (\<forall>p. fm_find p m = Some permission_satisfied \<longrightarrow> permission_holds c p)"

lemma mset_meta_emplace [simp]: "mset (meta_emplace m ms) = add_mset m (mset ms)"
  by (induction ms) auto

lemma mset_fold_meta_emplace: "mset (fold meta_emplace xs ms) = mset xs + mset ms"
  by (induction xs arbitrary: ms) auto

lemma mset_meta_permissions:
  "mset (meta_permissions a) =
     mset (map Meta_Wait (waits a)) + mset (map Meta_Key (keys a)) + mset (map Meta_Account (accounts a))"
  by (simp add: meta_permissions_def mset_fold_meta_emplace)

lemma status_sound:
  assumes "cache_sound c m" and "permission_status_in_cache m p = Some permission_satisfied"
  shows "permission_holds c p"
proof (cases "fm_find p m")
  case None
  then have "permission_holds c (permission_level (actor p) 0)"
    using assms by (auto simp: permission_status_in_cache_def cache_sound_def split: option.splits)
  then show ?thesis by (rule whole_account)
qed (use assms in \<open>auto simp: permission_status_in_cache_def cache_sound_def\<close>)

lemma cache_sound_set:
  "cache_sound c m \<Longrightarrow> (st = permission_satisfied \<Longrightarrow> permission_holds c p) \<Longrightarrow> cache_sound c (fm_set p st m)"
  by (auto simp: cache_sound_def fm_find_set)

lemma unat_add_le: "unat (a + b) \<le> unat a + unat (b :: 'a :: len word)"
  by (simp add: unat_word_ariths)

lemma index_of_Some: "index_of x xs = Some i \<Longrightarrow> i < length xs \<and> xs ! i = x"
  by (induction xs arbitrary: i) (auto split: if_splits)

lemma index_of_None: "index_of x xs = None \<longleftrightarrow> x \<notin> set xs"
  by (induction xs) auto

text \<open>
  One visit: it adds the weight of its entry or nothing, an added entry holds, and the cache stays
  sound.
\<close>

definition sound_call :: "'k checker \<Rightarrow> ('k authority \<Rightarrow> checker_state \<Rightarrow> (bool \<times> checker_state) result) \<Rightarrow> bool" where
  "sound_call c sat \<longleftrightarrow>
     (\<forall>auth s r s'. cache_sound c (cached s) \<longrightarrow> sat auth s = Inr (r, s') \<longrightarrow>
        cache_sound c (cached s') \<and> (r \<longrightarrow> authority_holds c auth))"

lemma visit_account_sound:
  assumes "depth < recursion_depth_limit c \<Longrightarrow> sound_call c sat" and "cache_sound c (cached s)"
    and "visit_account c depth sat a tot s = Inr (tot', s')"
  shows "cache_sound c (cached s') \<and>
    (tot' = tot \<or> tot' = tot + ucast (pl_weight a) \<and> permission_holds c (pl_permission a))"
proof (cases "permission_status_in_cache (cached s) (pl_permission a)")
  case (Some st)
  then show ?thesis
    using assms(2,3) status_sound [OF assms(2), of "pl_permission a"]
    by (cases st) (auto simp: visit_account_def)
next
  case None
  show ?thesis
  proof (cases "permission_to_authority c (pl_permission a)")
    case (Inl e)
    then show ?thesis
      using assms None by (cases e) (auto simp: visit_account_def split: if_splits)
  next
    case (Inr auth)
    let ?s = "s\<lparr>cached := fm_set (pl_permission a) being_evaluated (cached s)\<rparr>"
    have cs: "cache_sound c (cached ?s)" using cache_sound_set [OF assms(2), of being_evaluated] by simp
    show ?thesis
    proof (cases "depth < recursion_depth_limit c")
      case True
      obtain r t where t: "sat auth ?s = Inr (r, t)"
        using assms(3) None Inr True by (cases "sat auth ?s") (auto simp: visit_account_def bindR_def)
      have res: "tot' = (if r then tot + ucast (pl_weight a) else tot)"
        "cached s' = fm_set (pl_permission a) (if r then permission_satisfied else permission_unsatisfied) (cached t)"
        using assms(3) None Inr True t by (cases r; auto simp: visit_account_def bindR_def)+
      have ct: "cache_sound c (cached t)" and "r \<longrightarrow> authority_holds c auth"
        using assms(1) [OF True] cs t unfolding sound_call_def by blast+
      then have h: "r \<longrightarrow> permission_holds c (pl_permission a)"
        using authority_holds_permission [OF Inr] by blast
      with ct have "cache_sound c (cached s')" unfolding res by (intro cache_sound_set) auto
      with h show ?thesis by (simp add: res)
    next
      case False
      then show ?thesis using assms(2,3) None by (auto simp: visit_account_def)
    qed
  qed
qed

lemma visit_sound:
  assumes "depth < recursion_depth_limit c \<Longrightarrow> sound_call c sat" and "cache_sound c (cached s)"
    and "visit c depth sat m tot s = Inr (tot', s')"
  shows "cache_sound c (cached s') \<and> (tot' = tot \<or> tot' = tot + ucast (meta_weight m) \<and> entry_holds c m)"
proof (cases m)
  case (Meta_Account a)
  then show ?thesis using assms(3) visit_account_sound [OF assms(1,2)] by (auto simp: visit_def)
next
  case (Meta_Key k)
  then show ?thesis
    using assms(2,3) index_of_None [of "kw_key k" "provided_keys c"]
    by (auto simp: visit_def visit_key_def split: option.splits)
next
  case (Meta_Wait w)
  then show ?thesis using assms(2,3) by (auto simp: visit_def visit_wait_def split: if_splits)
qed

lemma satisfied_loop_sound:
  assumes "depth < recursion_depth_limit c \<Longrightarrow> sound_call c (satisfied_auth c (depth + 1))"
  shows "cache_sound c (cached s) \<Longrightarrow> satisfied_loop c depth thr ms tot s = Inr (r, s') \<Longrightarrow>
    cache_sound c (cached s') \<and>
    (r \<longrightarrow> (\<exists>xs. mset xs \<subseteq># mset ms \<and> (\<forall>m \<in> set xs. entry_holds c m) \<and> unat thr \<le> unat tot + weight_sum xs))"
proof (induction ms arbitrary: tot s)
  case (Cons m ms)
  obtain tot1 s1 where v: "visit c depth (satisfied_auth c (depth + 1)) m tot s = Inr (tot1, s1)"
    and rest: "if tot1 \<ge> thr then r \<and> s' = s1 else satisfied_loop c depth thr ms tot1 s1 = Inr (r, s')"
    using Cons.prems(2) unfolding satisfied_loop_Cons by (auto simp: bindR_Inr split: if_splits)
  have s1: "cache_sound c (cached s1)" and
    tot1: "tot1 = tot \<or> tot1 = tot + ucast (meta_weight m) \<and> entry_holds c m"
    using visit_sound [OF assms Cons.prems(1) v] by auto
  have gain: "\<exists>ys. mset ys \<subseteq># {#m#} \<and> (\<forall>m \<in> set ys. entry_holds c m) \<and> unat tot1 \<le> unat tot + weight_sum ys"
    using tot1
  proof
    assume "tot1 = tot"
    then show ?thesis by (intro exI [of _ "[]"]) (simp add: weight_sum_def)
  next
    assume a: "tot1 = tot + ucast (meta_weight m) \<and> entry_holds c m"
    have "unat (ucast (meta_weight m) :: u32) = unat (meta_weight m)"
      by (simp add: unsigned_ucast_eq take_bit_nat_eq_self unsigned_less [THEN order.strict_trans])
    then show ?thesis
      using a unat_add_le [of tot "ucast (meta_weight m)"]
      by (intro exI [of _ "[m]"]) (simp add: weight_sum_def)
  qed
  then obtain ys where ys: "mset ys \<subseteq># {#m#}" "\<forall>m \<in> set ys. entry_holds c m"
    "unat tot1 \<le> unat tot + weight_sum ys" by blast
  show ?case
  proof (cases "tot1 \<ge> thr")
    case True
    then have "unat thr \<le> unat tot + weight_sum ys" using ys(3) by (simp add: word_le_nat_alt)
    moreover have "mset ys \<subseteq># mset (m # ms)"
      using ys(1) by (auto intro: subset_mset.trans)
    ultimately show ?thesis using True rest s1 ys(2) by auto
  next
    case False
    then have "satisfied_loop c depth thr ms tot1 s1 = Inr (r, s')" using rest by simp
    note ih = Cons.IH [OF s1 this]
    show ?thesis
    proof (intro conjI impI)
      show "cache_sound c (cached s')" using ih by simp
      assume r
      then obtain xs where xs: "mset xs \<subseteq># mset ms" "\<forall>m\<in>set xs. entry_holds c m"
        "unat thr \<le> unat tot1 + weight_sum xs" using ih by blast
      have "mset (ys @ xs) \<subseteq># mset (m # ms)"
        using subset_mset.add_mono [OF ys(1) xs(1)] by simp
      moreover have "unat thr \<le> unat tot + weight_sum (ys @ xs)"
        using ys(3) xs(3) by (simp add: weight_sum_def)
      ultimately show "\<exists>xs. mset xs \<subseteq># mset (m # ms) \<and> (\<forall>m\<in>set xs. entry_holds c m) \<and>
          unat thr \<le> unat tot + weight_sum xs"
        using ys(2) xs(2) by (intro exI [of _ "ys @ xs"]) auto
    qed
  qed
qed simp

lemma satisfied_auth_sound: "sound_call c (satisfied_auth c depth)"
proof (induction "unat (recursion_depth_limit c) - unat depth" arbitrary: depth rule: less_induct)
  case less
  have sc: "sound_call c (satisfied_auth c (depth + 1))" if "depth < recursion_depth_limit c"
    by (rule less [OF deeper_is_closer [OF that]])
  show ?case
    unfolding sound_call_def satisfied_auth_def
  proof (intro allI impI, goal_cases)
    case (1 auth s r s')
    then obtain t where t: "satisfied_loop c depth (threshold auth) (meta_permissions auth) 0 s = Inr (r, t)"
      "cached s' = cached t"
      by (auto simp: bindR_Inr)
    have "cache_sound c (cached t) \<and> (r \<longrightarrow> authority_holds c auth)"
      using satisfied_loop_sound [OF _ 1(1) t(1)] sc by (auto simp: authority_holds_def)
    then show ?case by (simp add: t(2))
  qed
qed

lemma initial_cache_sound: "cache_sound c (initialize_permission_cache c)"
proof -
  have "fm_find p (fold (\<lambda>p. fm_emplace p permission_satisfied) ps m) = Some permission_satisfied \<Longrightarrow>
    p \<in> set ps \<or> fm_find p m = Some permission_satisfied" for p ps m
    by (induction ps arbitrary: m) (fastforce simp: fm_find_emplace split: if_splits)+
  from this [of _ "provided_permissions c" "[]"] show ?thesis
    by (auto simp: cache_sound_def initialize_permission_cache_def intro: provided)
qed

section \<open>The marks of used keys\<close>

definition marks_grow :: "bool list \<Rightarrow> bool list \<Rightarrow> bool" where
  "marks_grow u v \<longleftrightarrow> length v = length u \<and> (\<forall>i < length u. u ! i \<longrightarrow> v ! i)"

lemma marks_grow_refl [simp]: "marks_grow u u"
  by (simp add: marks_grow_def)

lemma marks_grow_trans: "marks_grow u v \<Longrightarrow> marks_grow v w \<Longrightarrow> marks_grow u w"
  by (auto simp: marks_grow_def)

lemma marks_grow_mark: "marks_grow u (u[i := True])"
  unfolding marks_grow_def by (metis length_list_update nth_list_update nth_list_update_neq)

definition growing_call :: "('k authority \<Rightarrow> checker_state \<Rightarrow> (bool \<times> checker_state) result) \<Rightarrow> bool" where
  "growing_call sat \<longleftrightarrow> (\<forall>auth s r s'. sat auth s = Inr (r, s') \<longrightarrow> marks_grow (marked s) (marked s'))"

lemma visit_account_grow:
  assumes "depth < recursion_depth_limit c \<Longrightarrow> growing_call sat"
    and "visit_account c depth sat a tot s = Inr (tot', s')"
  shows "marks_grow (marked s) (marked s')"
proof (cases "permission_status_in_cache (cached s) (pl_permission a)")
  case (Some st)
  then show ?thesis using assms(2) by (cases st) (auto simp: visit_account_def)
next
  case None
  let ?s = "s\<lparr>cached := fm_set (pl_permission a) being_evaluated (cached s)\<rparr>"
  show ?thesis
  proof (cases "permission_to_authority c (pl_permission a)")
    case (Inl e)
    then show ?thesis
      using assms(2) None by (cases e) (auto simp: visit_account_def split: if_splits)
  next
    case (Inr auth)
    show ?thesis
    proof (cases "depth < recursion_depth_limit c")
      case True
      obtain r t where t: "sat auth ?s = Inr (r, t)"
        using assms(2) None Inr True by (cases "sat auth ?s") (auto simp: visit_account_def bindR_def)
      have "marked s' = marked t"
        using assms(2) None Inr True t by (cases r) (auto simp: visit_account_def bindR_def)
      moreover have "marks_grow (marked ?s) (marked t)"
        using assms(1) [OF True] t unfolding growing_call_def by blast
      ultimately show ?thesis by simp
    qed (use assms(2) None in \<open>auto simp: visit_account_def\<close>)
  qed
qed

lemma visit_grow:
  assumes "depth < recursion_depth_limit c \<Longrightarrow> growing_call sat"
    and "visit c depth sat m tot s = Inr (tot', s')"
  shows "marks_grow (marked s) (marked s')"
proof (cases m)
  case (Meta_Account a)
  then show ?thesis using assms(2) visit_account_grow [OF assms(1)] by (auto simp: visit_def)
next
  case (Meta_Key k)
  then show ?thesis
    using assms(2) by (auto simp: visit_def visit_key_def marks_grow_mark split: option.splits)
next
  case (Meta_Wait w)
  then show ?thesis using assms(2) by (auto simp: visit_def)
qed

lemma satisfied_loop_grow:
  assumes "depth < recursion_depth_limit c \<Longrightarrow> growing_call (satisfied_auth c (depth + 1))"
  shows "satisfied_loop c depth thr ms tot s = Inr (r, s') \<Longrightarrow> marks_grow (marked s) (marked s')"
proof (induction ms arbitrary: tot s)
  case (Cons m ms)
  obtain tot1 s1 where v: "visit c depth (satisfied_auth c (depth + 1)) m tot s = Inr (tot1, s1)"
    and rest: "s' = s1 \<or> satisfied_loop c depth thr ms tot1 s1 = Inr (r, s')"
    using Cons.prems unfolding satisfied_loop_Cons by (auto simp: bindR_Inr split: if_splits)
  have "marks_grow (marked s) (marked s1)"
    using assms by (rule visit_grow [OF _ v])
  then show ?case
    using rest Cons.IH by (auto intro: marks_grow_trans)
qed simp

lemma satisfied_auth_grow: "growing_call (satisfied_auth c depth)"
proof (induction "unat (recursion_depth_limit c) - unat depth" arbitrary: depth rule: less_induct)
  case less
  have sc: "growing_call (satisfied_auth c (depth + 1))" if "depth < recursion_depth_limit c"
    by (rule less [OF deeper_is_closer [OF that]])
  show ?case
    unfolding growing_call_def satisfied_auth_def
    using satisfied_loop_grow [OF sc]
    by (auto simp: bindR_Inr split: if_splits)
qed

section \<open>Authorities without accounts\<close>

fun is_account :: "'k meta_permission \<Rightarrow> bool" where
  "is_account (Meta_Account a) = True"
| "is_account _ = False"

lemma unat_ucast_16_32 [simp]: "unat (ucast (w :: u16) :: u32) = unat w"
  by (simp add: unsigned_ucast_eq take_bit_nat_eq_self unsigned_less [THEN order.strict_trans])

lemma visit_flat:
  assumes "\<not> is_account m"
  shows "\<exists>s'. visit c depth sat m tot s =
    Inr (if entry_holds c m then tot + ucast (meta_weight m) else tot, s')"
proof (cases m)
  case (Meta_Key k)
  then show ?thesis
    using index_of_None [of "kw_key k" "provided_keys c"]
    by (cases "index_of (kw_key k) (provided_keys c)") (auto simp: visit_def visit_key_def)
qed (use assms in \<open>auto simp: visit_def visit_wait_def\<close>)

lemma satisfied_loop_flat:
  assumes "\<forall>m \<in> set ms. \<not> is_account m" and "unat tot + weight_sum ms < 2 ^ 32" and "tot < thr"
  shows "\<exists>s'. satisfied_loop c depth thr ms tot s =
    Inr (unat thr \<le> unat tot + weight_sum (filter (entry_holds c) ms), s')"
  using assms
proof (induction ms arbitrary: tot s)
  case Nil
  then show ?case by (simp add: weight_sum_def word_less_nat_alt)
next
  case (Cons m ms)
  define tot1 where "tot1 = (if entry_holds c m then tot + ucast (meta_weight m) else tot)"
  obtain s1 where v: "visit c depth (satisfied_auth c (depth + 1)) m tot s = Inr (tot1, s1)"
    using visit_flat [of m c depth "satisfied_auth c (depth + 1)" tot s] Cons.prems(1)
    unfolding tot1_def by auto
  have "unat tot + unat (meta_weight m) < 2 ^ 32"
    using Cons.prems(2) by (simp add: weight_sum_def)
  then have u: "unat tot1 = unat tot + (if entry_holds c m then unat (meta_weight m) else 0)"
    using unat_plus_no_wrap [of tot "ucast (meta_weight m)"] by (simp add: tot1_def)
  have split: "weight_sum (filter (entry_holds c) (m # ms)) =
      (if entry_holds c m then unat (meta_weight m) else 0) + weight_sum (filter (entry_holds c) ms)"
    by (simp add: weight_sum_def)
  show ?case
  proof (cases "tot1 \<ge> thr")
    case True
    then have "unat thr \<le> unat tot + weight_sum (filter (entry_holds c) (m # ms))"
      using u unfolding split word_le_nat_alt by linarith
    then show ?thesis
      using True v by (simp add: satisfied_loop_Cons bindR_def del: filter.simps)
  next
    case False
    have "unat tot1 + weight_sum ms < 2 ^ 32"
      using Cons.prems(2) u by (simp add: weight_sum_def split: if_splits)
    then obtain s2 where "satisfied_loop c depth thr ms tot1 s1 =
        Inr (unat thr \<le> unat tot1 + weight_sum (filter (entry_holds c) ms), s2)"
      using Cons.IH [of tot1 s1] Cons.prems(1) False by (auto simp: not_le)
    then show ?thesis
      using False v u unfolding split by (simp add: satisfied_loop_Cons bindR_def add.assoc)
  qed
qed

lemma weight_sum_mset: "weight_sum ms = sum_mset (image_mset (\<lambda>m. unat (meta_weight m)) (mset ms))"
  by (simp add: weight_sum_def flip: sum_mset_sum_list)

lemma weight_sum_subset: "mset xs \<subseteq># mset ys \<Longrightarrow> weight_sum xs \<le> weight_sum ys"
  by (auto simp: weight_sum_mset mset_subset_eq_exists_conv)

lemma authority_holds_iff:
  "authority_holds c auth \<longleftrightarrow>
   unat (threshold auth) \<le> weight_sum (filter (entry_holds c) (meta_permissions auth))"
proof
  assume "authority_holds c auth"
  then obtain ms where ms: "mset ms \<subseteq># mset (meta_permissions auth)" "\<forall>m \<in> set ms. entry_holds c m"
    "unat (threshold auth) \<le> weight_sum ms" by (auto simp: authority_holds_def)
  have "mset (filter (entry_holds c) ms) \<subseteq># mset (filter (entry_holds c) (meta_permissions auth))"
    using multiset_filter_mono [OF ms(1)] by simp
  moreover have "filter (entry_holds c) ms = ms" using ms(2) by (simp add: filter_True)
  ultimately show "unat (threshold auth) \<le> weight_sum (filter (entry_holds c) (meta_permissions auth))"
    using ms(3) weight_sum_subset by (metis order.trans)
next
  assume "unat (threshold auth) \<le> weight_sum (filter (entry_holds c) (meta_permissions auth))"
  then show "authority_holds c auth"
    unfolding authority_holds_def
    by (intro exI [of _ "filter (entry_holds c) (meta_permissions auth)"]) auto
qed

lemma length_meta_permissions:
  "length (meta_permissions a) = length (keys a) + length (accounts a) + length (waits a)"
  using arg_cong [OF mset_meta_permissions [of a], of size] by simp

lemma weight_sum_bound: "weight_sum ms \<le> length ms * 65535"
proof -
  have "unat (meta_weight m) \<le> 65535" for m :: "'a meta_permission"
    using unsigned_less [of "meta_weight m", where ?'a = nat] by simp
  then show ?thesis unfolding weight_sum_def by (rule sum_list_bounded_nat)
qed

lemma set_meta_permissions:
  "set (meta_permissions a) = Meta_Wait ` set (waits a) \<union> Meta_Key ` set (keys a) \<union> Meta_Account ` set (accounts a)"
  by (metis mset_meta_permissions set_map set_mset_mset set_mset_union)

lemma sum_list_filter_if: "sum_list (map f (filter P xs)) = (\<Sum>x \<leftarrow> xs. if P x then f x else (0 :: nat))"
  by (induction xs) auto

lemma weight_sum_filter_flat:
  assumes "accounts auth = []"
  shows "weight_sum (filter (entry_holds c) (meta_permissions auth)) =
    (\<Sum>k \<leftarrow> keys auth. if kw_key k \<in> set (provided_keys c) then unat (kw_weight k) else 0) +
    (\<Sum>w \<leftarrow> waits auth. if uint (wait_sec w) * 1000000 \<le> provided_delay c then unat (ww_weight w) else 0)"
proof -
  have "mset (filter (entry_holds c) (meta_permissions auth)) =
    mset (filter (entry_holds c) (map Meta_Wait (waits auth) @ map Meta_Key (keys auth)))"
    using assms by (simp add: mset_meta_permissions)
  then have "weight_sum (filter (entry_holds c) (meta_permissions auth)) =
    weight_sum (filter (entry_holds c) (map Meta_Wait (waits auth) @ map Meta_Key (keys auth)))"
    by (simp only: weight_sum_mset)
  then show ?thesis
    by (simp add: weight_sum_def sum_list_filter_if filter_map comp_def)
qed

section \<open>Validation\<close>

lemma validate_loop_Some:
  "validate_loop before weight prev xs tot =
     (if (case prev of None \<Rightarrow> True | Some p \<Rightarrow> successively before (p # xs)) \<and> successively before xs
      then Some (tot + (\<Sum>x \<leftarrow> xs. ucast (weight x))) else None)"
proof (induction xs arbitrary: prev tot)
  case (Cons x xs)
  have "successively before (x # xs) \<Longrightarrow> successively before xs"
    by (cases xs) auto
  then show ?case
    using Cons.IH [of "Some x"] by (auto simp: add.assoc split: option.split)
qed (auto split: option.split)

lemma unat_sum_list_ucast:
  "(\<Sum>x \<leftarrow> xs. unat (w x :: u16)) < 2 ^ 32 \<Longrightarrow>
   unat (\<Sum>x \<leftarrow> xs. ucast (w x) :: u32) = (\<Sum>x \<leftarrow> xs. unat (w x))"
  by (induction xs) (simp_all add: unat_plus_no_wrap)

lemma weight_sum_authority:
  "weight_sum (meta_permissions a) =
     (\<Sum>k \<leftarrow> keys a. unat (kw_weight k)) + (\<Sum>p \<leftarrow> accounts a. unat (pl_weight p)) + (\<Sum>w \<leftarrow> waits a. unat (ww_weight w))"
proof -
  have "mset (meta_permissions a) =
    mset (map Meta_Wait (waits a) @ map Meta_Key (keys a) @ map Meta_Account (accounts a))"
    by (simp add: mset_meta_permissions)
  then have "weight_sum (meta_permissions a) =
    weight_sum (map Meta_Wait (waits a) @ map Meta_Key (keys a) @ map Meta_Account (accounts a))"
    by (simp only: weight_sum_mset)
  then show ?thesis by (simp add: weight_sum_def comp_def)
qed

lemma successively_key_sorted:
  "successively (\<lambda>x y. f x < (f y :: 'b :: linorder)) xs \<longleftrightarrow> sorted_wrt (<) (map f xs)"
proof -
  have "transp (\<lambda>x y. f x < f y)" by (auto intro!: transpI)
  then show ?thesis by (simp add: successively_conv_sorted_wrt sorted_wrt_map)
qed

lemma satisfied_permission_sound:
  assumes "satisfied_permission c p None used = Inr (True, s)"
  shows "permission_holds c p"
proof -
  let ?s = "\<lparr>marked = used, cached = initialize_permission_cache c\<rparr>"
  have c: "cache_sound c (cached ?s)" by (simp add: initial_cache_sound)
  obtain tot t where v: "visit_account c 0 (satisfied_auth c 1) \<lparr>pl_permission = p, pl_weight = 1\<rparr> 0 ?s = Inr (tot, t)"
    and "tot > 0"
    using assms by (auto simp: satisfied_permission_def cache_or_initial_def bindR_pair_Inr)
  then show ?thesis using visit_account_sound [OF satisfied_auth_sound c v] by auto
qed

section \<open>Properties\<close>

text \<open>
  C2: the checker is sound. If it accepts a permission or an authority, then provided keys, provided
  permissions and the provided delay really justify it: entries that hold reach the threshold of the
  authority, through chains of permissions that are each justified. Neither the cache, nor cyclic
  references, nor the depth limit, nor wrap-around of the 32-bit total can make it accept more.
\<close>

theorem authority_checker_sound:
  "(satisfied_permission c p None used = Inr (True, s) \<longrightarrow> permission_holds c p) \<and>
   (satisfied_authority c auth None used = Inr (True, s') \<longrightarrow> authority_holds c auth)"
proof -
  have sc: "sound_call c (satisfied_auth c d)" for d by (rule satisfied_auth_sound)
  let ?s = "\<lparr>marked = used, cached = initialize_permission_cache c\<rparr>"
  have c: "cache_sound c (cached ?s)" by (simp add: initial_cache_sound)
  have "permission_holds c p" if "satisfied_permission c p None used = Inr (True, s)"
    using satisfied_permission_sound [OF that] .
  moreover have "authority_holds c auth" if "satisfied_authority c auth None used = Inr (True, s')"
    using that sc c unfolding satisfied_authority_def cache_or_initial_def sound_call_def option.case by blast
  ultimately show ?thesis by blast
qed

definition pta_example :: "permission_level \<Rightarrow> nat authority result" where
  "pta_example p =
     (if p = permission_level 1 10 then Inr \<lparr>threshold = 2, keys = [\<lparr>kw_key = 7, kw_weight = 1\<rparr>],
        accounts = [\<lparr>pl_permission = permission_level 2 10, pl_weight = 1\<rparr>], waits = []\<rparr>
      else if p = permission_level 2 10 then Inr \<lparr>threshold = 1, keys = [\<lparr>kw_key = 8, kw_weight = 1\<rparr>],
        accounts = [\<lparr>pl_permission = permission_level 1 10, pl_weight = 1\<rparr>], waits = []\<rparr>
      else Inl permission_query_exception)"

definition checker_example :: "nat checker" where
  "checker_example = \<lparr>permission_to_authority = pta_example, recursion_depth_limit = 6,
     provided_keys = [7, 8], provided_permissions = [], provided_delay = 0\<rparr>"

theorem authority_checker_sound_witness:
  "permission_holds checker_example (permission_level 1 10) \<and>
   authority_holds checker_example (authority_of_key 8 0)"
proof -
  have "satisfied_permission checker_example (permission_level 1 10) None [False, False] =
    Inr (True, \<lparr>marked = [True, True], cached = [(permission_level 1 10, permission_satisfied),
      (permission_level 2 10, permission_satisfied)]\<rparr>)"
    by code_simp
  moreover have "satisfied_authority checker_example (authority_of_key 8 0) None [False, False] =
    Inr (True, \<lparr>marked = [False, True], cached = []\<rparr>)"
    by code_simp
  ultimately show ?thesis
    using authority_checker_sound by blast
qed

text \<open>
  C23: marks of used keys are only ever added, and an authority that is not satisfied leaves them as
  they were.
\<close>

theorem used_keys_reverted_on_failure:
  assumes "satisfied_authority c auth cached_perms used = Inr (r, s)"
  shows "marks_grow used (marked s) \<and> (\<not> r \<longrightarrow> marked s = used)"
proof -
  have "marks_grow used (marked s)"
    using assms satisfied_auth_grow [of c 0] unfolding satisfied_authority_def growing_call_def by fastforce
  moreover have "\<not> r \<longrightarrow> marked s = used"
    using assms by (auto simp: satisfied_authority_def satisfied_auth_def bindR_Inr split: if_splits)
  ultimately show ?thesis ..
qed

theorem used_keys_reverted_on_failure_witness:
  "marks_grow [False, False] [False, False] \<and>
   satisfied_authority checker_example
      \<lparr>threshold = 9, keys = [\<lparr>kw_key = 7, kw_weight = 1\<rparr>], accounts = [], waits = []\<rparr> None [False, False] =
    Inr (False, \<lparr>marked = [False, False], cached = []\<rparr>)"
proof -
  have e: "satisfied_authority checker_example
      \<lparr>threshold = 9, keys = [\<lparr>kw_key = 7, kw_weight = 1\<rparr>], accounts = [], waits = []\<rparr> None [False, False] =
    Inr (False, \<lparr>marked = [False, False], cached = []\<rparr>)"
    by code_simp
  show ?thesis using used_keys_reverted_on_failure [OF e] e by simp
qed

text \<open>
  C22: for an authority without account entries, of at most \<open>2 ^ 16\<close> entries and with a positive
  threshold, as \<^verbatim>\<open>validate\<close> demands, the checker decides exactly whether the weights of the matching
  keys and waits reach the threshold.
\<close>

theorem flat_authority_decided:
  assumes "accounts auth = []" and "length (keys auth) + length (waits auth) \<le> 2 ^ 16" and "threshold auth \<noteq> 0"
  shows "\<exists>s. satisfied_authority c auth cached_perms used =
    Inr (unat (threshold auth) \<le>
        (\<Sum>k \<leftarrow> keys auth. if kw_key k \<in> set (provided_keys c) then unat (kw_weight k) else 0) +
        (\<Sum>w \<leftarrow> waits auth. if uint (wait_sec w) * 1000000 \<le> provided_delay c then unat (ww_weight w) else 0), s)"
proof -
  let ?ms = "meta_permissions auth"
  have flat: "\<forall>m \<in> set ?ms. \<not> is_account m" using assms(1) by (auto simp: set_meta_permissions)
  have "length ?ms \<le> 2 ^ 16" using assms by (simp add: length_meta_permissions)
  then have "weight_sum ?ms < 2 ^ 32" using weight_sum_bound [of ?ms] by simp
  moreover have "0 < threshold auth" using assms(3) by (simp add: word_gt_0)
  moreover have "weight_sum (filter (entry_holds c) ?ms) =
        (\<Sum>k \<leftarrow> keys auth. if kw_key k \<in> set (provided_keys c) then unat (kw_weight k) else 0) +
        (\<Sum>w \<leftarrow> waits auth. if uint (wait_sec w) * 1000000 \<le> provided_delay c then unat (ww_weight w) else 0)"
    by (rule weight_sum_filter_flat [OF assms(1)])
  ultimately obtain s where "satisfied_loop c 0 (threshold auth) ?ms 0
      \<lparr>marked = used, cached = cache_or_initial c cached_perms\<rparr> =
    Inr (unat (threshold auth) \<le>
        (\<Sum>k \<leftarrow> keys auth. if kw_key k \<in> set (provided_keys c) then unat (kw_weight k) else 0) +
        (\<Sum>w \<leftarrow> waits auth. if uint (wait_sec w) * 1000000 \<le> provided_delay c then unat (ww_weight w) else 0), s)"
    using satisfied_loop_flat [OF flat, of 0 "threshold auth" c 0
        "\<lparr>marked = used, cached = cache_or_initial c cached_perms\<rparr>"]
    by auto
  then show ?thesis
    by (simp add: satisfied_authority_def satisfied_auth_def bindR_def)
qed

theorem flat_authority_decided_witness:
  "\<exists>s. satisfied_authority checker_example
      \<lparr>threshold = 3, keys = [\<lparr>kw_key = 7, kw_weight = 2\<rparr>, \<lparr>kw_key = 9, kw_weight = 5\<rparr>], accounts = [],
       waits = [\<lparr>wait_sec = 0, ww_weight = 1\<rparr>]\<rparr> None [False, False] = Inr (True, s)"
  using flat_authority_decided [of "\<lparr>threshold = 3, keys = [\<lparr>kw_key = 7, kw_weight = 2\<rparr>, \<lparr>kw_key = 9, kw_weight = 5\<rparr>],
      accounts = [], waits = [\<lparr>wait_sec = 0, ww_weight = 1\<rparr>]\<rparr>" checker_example None "[False, False]"]
  by (simp add: checker_example_def)

text \<open>
  C24: \<^verbatim>\<open>validate\<close> accepts exactly the authorities with at most \<open>2 ^ 16\<close> entries, a positive
  threshold, keys, permissions and waits in strictly ascending order, no wait of zero seconds, and a
  true total weight, without wrap-around, that reaches the threshold.
\<close>

theorem validate_iff:
  "validate auth \<longleftrightarrow>
     length (keys auth) + length (accounts auth) + length (waits auth) \<le> 2 ^ 16 \<and> threshold auth \<noteq> 0 \<and>
     sorted_wrt (<) (map kw_key (keys auth)) \<and> sorted_wrt (<) (map pl_permission (accounts auth)) \<and>
     sorted_wrt (<) (map wait_sec (waits auth)) \<and> 0 \<notin> wait_sec ` set (waits auth) \<and>
     unat (threshold auth) \<le> weight_sum (meta_permissions auth)"
proof (cases "length (keys auth) + length (accounts auth) + length (waits auth) \<le> 2 ^ 16")
  case True
  let ?K = "\<Sum>k \<leftarrow> keys auth. unat (kw_weight k)" and ?A = "\<Sum>p \<leftarrow> accounts auth. unat (pl_weight p)"
    and ?W = "\<Sum>w \<leftarrow> waits auth. unat (ww_weight w)"
  let ?t = "(\<Sum>k \<leftarrow> keys auth. ucast (kw_weight k)) + (\<Sum>p \<leftarrow> accounts auth. ucast (pl_weight p)) +
      (\<Sum>w \<leftarrow> waits auth. ucast (ww_weight w)) :: u32"
  have ws: "weight_sum (meta_permissions auth) = ?K + ?A + ?W" by (rule weight_sum_authority)
  have "length (meta_permissions auth) * 65535 \<le> 2 ^ 16 * 65535"
    using True by (intro mult_le_mono1) (simp add: length_meta_permissions)
  then have b: "?K + ?A + ?W < 2 ^ 32"
    using weight_sum_bound [of "meta_permissions auth"] unfolding ws by simp
  have t: "unat ?t = ?K + ?A + ?W"
    using b by (simp add: unat_plus_no_wrap unat_sum_list_ucast)
  have t0: "unat ((\<Sum>k \<leftarrow> keys auth. ucast (kw_weight k)) + (\<Sum>p \<leftarrow> accounts auth. ucast (pl_weight p)) :: u32) = ?K + ?A"
    using b by (simp add: unat_plus_no_wrap unat_sum_list_ucast)
  have zero: "sorted_wrt (<) (map wait_sec (waits auth)) \<Longrightarrow>
      (waits auth \<noteq> [] \<and> wait_sec (hd (waits auth)) = 0) \<longleftrightarrow> 0 \<in> wait_sec ` set (waits auth)"
    by (cases "waits auth") (auto dest: bspec)
  show ?thesis
    using True zero
    by (auto simp: validate_def validate_loop_Some successively_key_sorted not_le ws
        word_le_nat_alt [of "threshold auth"] t t0 add.assoc [symmetric] split: option.split)
qed (auto simp: validate_def)

definition pta_hidden_use :: "permission_level \<Rightarrow> nat authority result" where
  "pta_hidden_use p =
     (if p = permission_level 1 1 then Inr \<lparr>threshold = 1, keys = [],
        accounts = [\<lparr>pl_permission = permission_level 2 1, pl_weight = 2\<rparr>,
                    \<lparr>pl_permission = permission_level 3 1, pl_weight = 1\<rparr>], waits = []\<rparr>
      else if p = permission_level 2 1 then Inr \<lparr>threshold = 2, keys = [\<lparr>kw_key = 9, kw_weight = 1\<rparr>],
        accounts = [\<lparr>pl_permission = permission_level 3 1, pl_weight = 1\<rparr>], waits = []\<rparr>
      else if p = permission_level 3 1 then Inr (authority_of_key 7 0)
      else Inl permission_query_exception)"

text \<open>
  C38: the cache can hide the use of a key. Here the account needs key 7, by way of permission (3, 1),
  and the checker accepts with key 7 and rejects without it, yet reports the key as unused: permission
  (3, 1) was first found satisfied inside an authority that then failed, which reset the mark but
  not the cache. A caller that forbids unused keys rejects this transaction.
\<close>

theorem needed_key_reported_unused:
  "let c = \<lparr>permission_to_authority = pta_hidden_use, recursion_depth_limit = 6,
            provided_keys = [7], provided_permissions = [], provided_delay = 0\<rparr>
   in (\<exists>s. satisfied_permission c (permission_level 1 1) None (initial_marks c) = Inr (True, s) \<and>
           unused_keys c (marked s) = [7] \<and> \<not> all_keys_used (marked s)) \<and>
      (\<exists>s. satisfied_permission (c\<lparr>provided_keys := []\<rparr>) (permission_level 1 1) None [] = Inr (False, s))"
proof -
  let ?c = "\<lparr>permission_to_authority = pta_hidden_use, recursion_depth_limit = 6,
            provided_keys = [7], provided_permissions = [], provided_delay = 0\<rparr>"
  let ?without = "\<lparr>permission_to_authority = pta_hidden_use, recursion_depth_limit = 6,
            provided_keys = [], provided_permissions = [], provided_delay = 0\<rparr>"
  have "satisfied_permission ?c (permission_level 1 1) None [False] =
    Inr (True, \<lparr>marked = [False], cached = [(permission_level 1 1, permission_satisfied),
      (permission_level 2 1, permission_unsatisfied), (permission_level 3 1, permission_satisfied)]\<rparr>)"
    by code_simp
  moreover have "satisfied_permission ?without (permission_level 1 1) None [] =
    Inr (False, \<lparr>marked = [], cached = [(permission_level 1 1, permission_unsatisfied),
      (permission_level 2 1, permission_unsatisfied), (permission_level 3 1, permission_unsatisfied)]\<rparr>)"
    by code_simp
  ultimately show ?thesis
    by (simp add: Let_def initial_marks_def unused_keys_def filter_data_by_marker_def all_keys_used_def)
qed

end
