(* ===== verification/Producer_Schedule.thy ===== *)
theory Producer_Schedule
  imports Authority
begin

text \<open>
  Block signing authorities and producer schedules (\<^verbatim>\<open>producer_schedule.hpp\<close>), their copies in the
  shared-memory database (\<^verbatim>\<open>shared_public_key\<close>, \<^verbatim>\<open>shared_key_weight\<close> of \<^verbatim>\<open>authority.hpp\<close>), and the slots
  that block times are counted in (\<^verbatim>\<open>block_timestamp.hpp\<close>).
\<close>

section \<open>Keys in shared memory\<close>

text \<open>
  A public key is one of three storage types; a WebAuthn key is stored in serialised form. The
  serialisation functions are parameters.
\<close>

datatype ('e, 'r, 'w) public_key = K1 'e | R1 'r | WA 'w

datatype ('e, 'r) shared_public_key = Shared_K1 'e | Shared_R1 'r | Shared_WA "u8 list"

record ('e, 'r) shared_key_weight =
  skw_key :: "('e, 'r) shared_public_key"
  skw_weight :: u16

definition shared_key_weight_convert :: "('w \<Rightarrow> u8 list) \<Rightarrow> ('e, 'r, 'w) public_key key_weight \<Rightarrow>
    ('e, 'r) shared_key_weight" where
  "shared_key_weight_convert pack k =
     (case kw_key k of
        K1 e \<Rightarrow> \<lparr>skw_key = Shared_K1 e, skw_weight = kw_weight k\<rparr>
      | R1 r \<Rightarrow> \<lparr>skw_key = Shared_R1 r, skw_weight = kw_weight k\<rparr>
      | WA w \<Rightarrow> \<lparr>skw_key = Shared_WA (pack w), skw_weight = kw_weight k\<rparr>)"

definition to_public_key :: "(u8 list \<Rightarrow> 'w result) \<Rightarrow> ('e, 'r) shared_public_key \<Rightarrow>
    ('e, 'r, 'w) public_key result" where
  "to_public_key unpack pubkey =
     (case pubkey of
        Shared_K1 e \<Rightarrow> Inr (K1 e)
      | Shared_R1 r \<Rightarrow> Inr (R1 r)
      | Shared_WA wa \<Rightarrow> bindR (unpack wa) (\<lambda>w. Inr (WA w)))"

definition to_key_weight :: "(u8 list \<Rightarrow> 'w result) \<Rightarrow> ('e, 'r) shared_key_weight \<Rightarrow>
    ('e, 'r, 'w) public_key key_weight result" where
  "to_key_weight unpack s =
     bindR (to_public_key unpack (skw_key s)) (\<lambda>k. Inr \<lparr>kw_key = k, kw_weight = skw_weight s\<rparr>)"

definition shared_key_eq :: "(u8 list \<Rightarrow> 'w result) \<Rightarrow> ('e, 'r) shared_public_key \<Rightarrow>
    ('e, 'r, 'w) public_key \<Rightarrow> bool result" where
  "shared_key_eq unpack l r =
     (case (l, r) of
        (Shared_K1 e, K1 e') \<Rightarrow> Inr (e = e')
      | (Shared_R1 k, R1 k') \<Rightarrow> Inr (k = k')
      | (Shared_WA wa, WA w) \<Rightarrow> bindR (unpack wa) (\<lambda>pub. Inr (pub = w))
      | _ \<Rightarrow> Inr False)"

section \<open>Block signing authorities\<close>

record 'k block_signing_authority_v0 =
  bsa_threshold :: u32
  bsa_keys :: "'k key_weight list"

text \<open>The loop of \<^verbatim>\<open>keys_satisfy_and_relevant\<close> over the keys of the authority.\<close>

fun relevant_loop :: "u32 \<Rightarrow> 'k list \<Rightarrow> 'k key_weight list \<Rightarrow> nat \<Rightarrow> u32 \<Rightarrow> nat \<times> u32" where
  "relevant_loop thr presented [] num_relevant_keys total_weight = (num_relevant_keys, total_weight)"
| "relevant_loop thr presented (kw # kws) num_relevant_keys total_weight =
     (if kw_key kw \<in> set presented
      then relevant_loop thr presented kws (num_relevant_keys + 1)
             (if total_weight < thr
              then total_weight + min (- 1 - total_weight) (ucast (kw_weight kw))
              else total_weight)
      else relevant_loop thr presented kws num_relevant_keys total_weight)"

definition keys_satisfy_and_relevant :: "'k list \<Rightarrow> 'k block_signing_authority_v0 \<Rightarrow> bool \<times> nat" where
  "keys_satisfy_and_relevant presented_keys a =
     (let (num_relevant_keys, total_weight) = relevant_loop (bsa_threshold a) presented_keys (bsa_keys a) 0 0
      in (total_weight \<ge> bsa_threshold a, num_relevant_keys))"

record ('e, 'r) shared_block_signing_authority_v0 =
  shared_threshold :: u32
  shared_keys :: "('e, 'r) shared_key_weight list"

definition bsa_to_shared :: "('w \<Rightarrow> u8 list) \<Rightarrow> ('e, 'r, 'w) public_key block_signing_authority_v0 \<Rightarrow>
    ('e, 'r) shared_block_signing_authority_v0" where
  "bsa_to_shared pack a =
     \<lparr>shared_threshold = bsa_threshold a, shared_keys = map (shared_key_weight_convert pack) (bsa_keys a)\<rparr>"

definition bsa_from_shared :: "(u8 list \<Rightarrow> 'w result) \<Rightarrow> ('e, 'r) shared_block_signing_authority_v0 \<Rightarrow>
    ('e, 'r, 'w) public_key block_signing_authority_v0 result" where
  "bsa_from_shared unpack src =
     bindR (mapR (to_key_weight unpack) (shared_keys src)) (\<lambda>ks.
       Inr \<lparr>bsa_threshold = shared_threshold src, bsa_keys = ks\<rparr>)"

section \<open>Schedules\<close>

record 'k producer_authority =
  producer_name :: u64
  pa_authority :: "'k block_signing_authority_v0"

record 'k producer_authority_schedule =
  version :: u32
  producers :: "'k producer_authority list"

definition empty_schedule :: "'k producer_authority_schedule" where
  "empty_schedule = \<lparr>version = 0, producers = []\<rparr>"

record ('e, 'r) shared_producer_authority =
  spa_name :: u64
  spa_authority :: "('e, 'r) shared_block_signing_authority_v0"

record ('e, 'r) shared_producer_authority_schedule =
  shared_version :: u32
  shared_producers :: "('e, 'r) shared_producer_authority list"

definition pa_to_shared :: "('w \<Rightarrow> u8 list) \<Rightarrow> ('e, 'r, 'w) public_key producer_authority \<Rightarrow>
    ('e, 'r) shared_producer_authority" where
  "pa_to_shared pack p = \<lparr>spa_name = producer_name p, spa_authority = bsa_to_shared pack (pa_authority p)\<rparr>"

definition pa_from_shared :: "(u8 list \<Rightarrow> 'w result) \<Rightarrow> ('e, 'r) shared_producer_authority \<Rightarrow>
    ('e, 'r, 'w) public_key producer_authority result" where
  "pa_from_shared unpack src =
     bindR (bsa_from_shared unpack (spa_authority src)) (\<lambda>a.
       Inr \<lparr>producer_name = spa_name src, pa_authority = a\<rparr>)"

definition schedule_to_shared :: "('w \<Rightarrow> u8 list) \<Rightarrow> ('e, 'r, 'w) public_key producer_authority_schedule \<Rightarrow>
    ('e, 'r) shared_producer_authority_schedule" where
  "schedule_to_shared pack s =
     \<lparr>shared_version = version s, shared_producers = map (pa_to_shared pack) (producers s)\<rparr>"

definition schedule_from_shared :: "(u8 list \<Rightarrow> 'w result) \<Rightarrow> ('e, 'r) shared_producer_authority_schedule \<Rightarrow>
    ('e, 'r, 'w) public_key producer_authority_schedule result" where
  "schedule_from_shared unpack src =
     bindR (mapR (pa_from_shared unpack) (shared_producers src)) (\<lambda>ps.
       Inr \<lparr>version = shared_version src, producers = ps\<rparr>)"

text \<open>The equality of schedules, element by element.\<close>

fun producers_eq_loop :: "'k producer_authority list \<Rightarrow> 'k producer_authority list \<Rightarrow> nat \<Rightarrow> nat \<Rightarrow> bool" where
  "producers_eq_loop a b i 0 = True"
| "producers_eq_loop a b i (Suc k) = (if \<not> (a ! i = b ! i) then False else producers_eq_loop a b (i + 1) k)"

definition schedule_eq :: "'k producer_authority_schedule \<Rightarrow> 'k producer_authority_schedule \<Rightarrow> bool" where
  "schedule_eq a b =
     (if version a \<noteq> version b then False
      else if length (producers a) \<noteq> length (producers b) then False
      else producers_eq_loop (producers a) (producers b) 0 (length (producers a)))"

text \<open>
  Comparison of a producer with its stored copy, which decides whether a proposed schedule is new;
  \<^verbatim>\<open>std::equal\<close> compares the lengths before it unpacks a key.
\<close>

fun shared_keys_eq :: "(u8 list \<Rightarrow> 'w result) \<Rightarrow> ('e, 'r, 'w) public_key key_weight list \<Rightarrow>
    ('e, 'r) shared_key_weight list \<Rightarrow> bool result" where
  "shared_keys_eq unpack [] [] = Inr True"
| "shared_keys_eq unpack (k # ks) (s # ss) =
     bindR (to_key_weight unpack s) (\<lambda>k'. if k = k' then shared_keys_eq unpack ks ss else Inr False)"
| "shared_keys_eq unpack _ _ = Inr False"

definition producer_eq_shared :: "(u8 list \<Rightarrow> 'w result) \<Rightarrow> ('e, 'r, 'w) public_key producer_authority \<Rightarrow>
    ('e, 'r) shared_producer_authority \<Rightarrow> bool result" where
  "producer_eq_shared unpack pa pb =
     (if producer_name pa \<noteq> spa_name pb then Inr False
      else if bsa_threshold (pa_authority pa) \<noteq> shared_threshold (spa_authority pb) then Inr False
      else if length (bsa_keys (pa_authority pa)) \<noteq> length (shared_keys (spa_authority pb)) then Inr False
      else shared_keys_eq unpack (bsa_keys (pa_authority pa)) (shared_keys (spa_authority pb)))"

section \<open>Block times\<close>

text \<open>
  A block timestamp counts half-second slots since the epoch; a time point is its count of
  microseconds, and \<open>milliseconds\<close> is the conversion of the fc library.
\<close>

definition IntervalMs :: int where
  "IntervalMs = 500"

definition EpochMs :: int where
  "EpochMs = 1577880000000"

definition timestamp_next :: "u32 \<Rightarrow> u32 result" where
  "timestamp_next slot = EOS_ASSERT (- 1 - slot \<ge> 1) overflow_exception (Inr (slot + 1))"

definition to_time_point :: "(int \<Rightarrow> int) \<Rightarrow> u32 \<Rightarrow> int" where
  "to_time_point milliseconds slot = milliseconds (uint slot * IntervalMs + EpochMs)"

text \<open>
  The difference mixes a signed and an unsigned operand and is computed modulo \<open>2 ^ 64\<close>; the division
  of the microseconds rounds towards zero; the result is cut to 32 bits.
\<close>

definition quot :: "int \<Rightarrow> int \<Rightarrow> int" where
  "quot a b = sgn a * sgn b * (\<bar>a\<bar> div \<bar>b\<bar>)"

definition set_time_point :: "int \<Rightarrow> u32" where
  "set_time_point micro_since_epoch =
     word_of_int (uint (word_of_int (quot micro_since_epoch 1000 - EpochMs) :: u64) div IntervalMs)"

definition set_time_point_sec :: "u32 \<Rightarrow> u32" where
  "set_time_point_sec sec_since_epoch =
     word_of_int (uint (ucast sec_since_epoch * 1000 - word_of_int EpochMs :: u64) div IntervalMs)"

section \<open>Lemmas\<close>

lemma relevant_loop_count:
  "fst (relevant_loop thr ks kws n w) = n + length (filter (\<lambda>kw. kw_key kw \<in> set ks) kws)"
  by (induction thr ks kws n w rule: relevant_loop.induct) simp_all

lemma saturating_step:
  fixes w :: u32
  shows "unat (w + min (- 1 - w) (ucast (v :: u16))) = min (unat w + unat v) (2 ^ 32 - 1)"
proof -
  have max: "unat (- 1 - w) = 2 ^ 32 - 1 - unat w"
    using unat_sub [of w "- 1"] unat_max_word [where ?'a = 32] by simp
  have "unat (ucast v :: u32) = unat v"
    by (simp add: unsigned_ucast_eq take_bit_nat_eq_self unsigned_less [THEN order.strict_trans])
  then have "unat (min (- 1 - w) (ucast v)) = min (2 ^ 32 - 1 - unat w) (unat v)"
    using max by (simp add: min_def word_le_nat_alt)
  moreover have "unat w \<le> 2 ^ 32 - 1" using unsigned_less [of w, where ?'a = nat] by simp
  ultimately show ?thesis by (subst unat_plus_no_wrap) auto
qed

lemma relevant_loop_weight:
  assumes "unat w = t \<or> unat thr \<le> unat w \<and> unat thr \<le> t"
  shows "unat thr \<le> unat (snd (relevant_loop thr ks kws n w)) \<longleftrightarrow>
    unat thr \<le> t + sum_list (map (\<lambda>kw. unat (kw_weight kw)) (filter (\<lambda>kw. kw_key kw \<in> set ks) kws))"
  using assms
proof (induction kws arbitrary: n w t)
  case (Cons kw kws)
  show ?case
  proof (cases "kw_key kw \<in> set ks")
    case True
    let ?w = "if w < thr then w + min (- 1 - w) (ucast (kw_weight kw)) else w"
    have "unat thr \<le> 2 ^ 32 - 1" using unsigned_less [of thr, where ?'a = nat] by simp
    then have "unat ?w = t + unat (kw_weight kw) \<or> unat thr \<le> unat ?w \<and> unat thr \<le> t + unat (kw_weight kw)"
      using Cons.prems saturating_step [of w "kw_weight kw"]
      by (auto simp: word_less_nat_alt min_def)
    from Cons.IH [OF this, of "n + 1"] show ?thesis using True by (simp add: add.assoc)
  next
    case False
    then show ?thesis using Cons by simp
  qed
qed auto

lemma keys_satisfy_and_relevant_eq:
  "keys_satisfy_and_relevant ks a =
     (let matching = filter (\<lambda>kw. kw_key kw \<in> set ks) (bsa_keys a)
      in (unat (bsa_threshold a) \<le> sum_list (map (\<lambda>kw. unat (kw_weight kw)) matching), length matching))"
  using relevant_loop_weight [of 0 0 "bsa_threshold a" ks "bsa_keys a" 0]
    relevant_loop_count [of "bsa_threshold a" ks "bsa_keys a" 0 0]
  by (simp add: keys_satisfy_and_relevant_def Let_def word_le_nat_alt split: prod.split) auto

lemma to_key_weight_convert:
  assumes "\<And>w. unpack (pack w) = Inr w"
  shows "to_key_weight unpack (shared_key_weight_convert pack k) = Inr k"
  using assms
  by (cases "kw_key k") (simp_all add: to_key_weight_def shared_key_weight_convert_def to_public_key_def)

lemma mapR_inverse: "(\<And>x. f (g x) = Inr x) \<Longrightarrow> mapR f (map g xs) = Inr xs"
  by (induction xs) simp_all

lemma schedule_from_to_shared:
  assumes "\<And>w. unpack (pack w) = Inr w"
  shows "schedule_from_shared unpack (schedule_to_shared pack s) = Inr s"
proof -
  have bsa: "bsa_from_shared unpack (bsa_to_shared pack a) = Inr a" for a
    by (simp add: bsa_from_shared_def bsa_to_shared_def mapR_inverse to_key_weight_convert [OF assms]
        exI [of _ "bsa_keys a"])
  have "pa_from_shared unpack (pa_to_shared pack p) = Inr p" for p
    by (simp add: pa_from_shared_def pa_to_shared_def bsa)
  then have "mapR (pa_from_shared unpack) (map (pa_to_shared pack) (producers s)) = Inr (producers s)"
    by (rule mapR_inverse)
  then show ?thesis
    by (simp add: schedule_from_shared_def schedule_to_shared_def)
qed

lemma producers_eq_loop_iff:
  "producers_eq_loop a b i k \<longleftrightarrow> (\<forall>j. i \<le> j \<and> j < i + k \<longrightarrow> a ! j = b ! j)"
proof (induction a b i k rule: producers_eq_loop.induct)
  case (2 a b i k)
  have "(\<forall>j. i \<le> j \<and> j < i + Suc k \<longrightarrow> a ! j = b ! j) \<longleftrightarrow>
      a ! i = b ! i \<and> (\<forall>j. i + 1 \<le> j \<and> j < i + 1 + k \<longrightarrow> a ! j = b ! j)"
    by (auto simp: Suc_le_eq) (metis le_eq_less_or_eq)
  then show ?case using 2 by simp
qed auto

lemma schedule_eq_iff: "schedule_eq a b \<longleftrightarrow> a = b"
  by (auto simp: schedule_eq_def producers_eq_loop_iff intro!: nth_equalityI producer_authority_schedule.equality)

lemma shared_keys_eq_iff:
  assumes "\<And>w. unpack (pack w) = Inr w"
  shows "shared_keys_eq unpack ks (map (shared_key_weight_convert pack) ks') = Inr (ks = ks')"
proof (induction ks arbitrary: ks')
  case Nil
  then show ?case by (cases ks') simp_all
next
  case (Cons k ks)
  then show ?case by (cases ks') (simp_all add: to_key_weight_convert [of unpack pack, OF assms])
qed

section \<open>Properties\<close>

text \<open>
  \<^verbatim>\<open>keys_satisfy_and_relevant\<close> reports exactly whether the exact sum of the weights of the presented
  keys reaches the threshold, saturation of the 32-bit total included, together with the number of
  keys of the authority that were presented.
\<close>

theorem keys_satisfy_and_relevant_exact:
  "keys_satisfy_and_relevant ks a =
     (let matching = filter (\<lambda>kw. kw_key kw \<in> set ks) (bsa_keys a)
      in (unat (bsa_threshold a) \<le> sum_list (map (\<lambda>kw. unat (kw_weight kw)) matching), length matching))"
  by (rule keys_satisfy_and_relevant_eq)

text \<open>
  C33: a producer compares equal to the stored copy of a producer exactly when it is that producer, and
  a schedule is read back unchanged from its stored copy, provided serialisation of WebAuthn keys is
  inverted by deserialisation.
\<close>

theorem stored_schedule_faithful:
  assumes "\<And>w. unpack (pack w) = Inr w"
  shows "schedule_from_shared unpack (schedule_to_shared pack s) = Inr s \<and>
    producer_eq_shared unpack p (pa_to_shared pack q) = Inr (p = q)"
proof -
  have "p = q \<longleftrightarrow> producer_name p = producer_name q \<and>
      bsa_threshold (pa_authority p) = bsa_threshold (pa_authority q) \<and>
      bsa_keys (pa_authority p) = bsa_keys (pa_authority q)"
    by (auto intro!: producer_authority.equality block_signing_authority_v0.equality)
  then show ?thesis
    using schedule_from_to_shared [of unpack pack s, OF assms]
    by (auto simp: shared_keys_eq_iff [OF assms] producer_eq_shared_def pa_to_shared_def bsa_to_shared_def)
qed

theorem stored_schedule_faithful_witness:
  "schedule_from_shared (\<lambda>bs. Inr bs) (schedule_to_shared (\<lambda>w. w)
     \<lparr>version = 1, producers = [\<lparr>producer_name = 7, pa_authority =
        \<lparr>bsa_threshold = 1, bsa_keys = [\<lparr>kw_key = WA [1, 2] :: (nat, nat, u8 list) public_key, kw_weight = 1\<rparr>]\<rparr>\<rparr>]\<rparr>) =
   Inr \<lparr>version = 1, producers = [\<lparr>producer_name = 7, pa_authority =
        \<lparr>bsa_threshold = 1, bsa_keys = [\<lparr>kw_key = WA [1, 2], kw_weight = 1\<rparr>]\<rparr>\<rparr>]\<rparr>"
  using stored_schedule_faithful [of "\<lambda>bs. Inr bs" "\<lambda>w. w"] by blast

text \<open>
  Converting a slot to a time point and back gives the slot, for all 32-bit slots, and every time
  point inside a slot is read as that slot.
\<close>

theorem block_time_round_trip:
  assumes "\<And>n. milliseconds n = 1000 * n" "0 \<le> d" "d < 500000"
  shows "set_time_point (to_time_point milliseconds slot + d) = slot"
proof -
  let ?us = "1000 * (uint slot * 500 + 1577880000000) + d"
  have "quot ?us 1000 = ?us div 1000" using assms(2) by (simp add: quot_def sgn_if)
  moreover have "?us div 1000 = uint slot * 500 + 1577880000000 + d div 1000" by simp
  moreover have "0 \<le> d div 1000" "d div 1000 < 500" using assms by auto
  moreover have "uint slot < 2 ^ 32" using unsigned_less [of slot, where ?'a = int] by simp
  ultimately have "quot ?us 1000 - EpochMs = uint slot * 500 + d div 1000"
    "0 \<le> uint slot * 500 + d div 1000" "uint slot * 500 + d div 1000 < 2 ^ 64"
    by (simp_all add: EpochMs_def)
  then have "uint (word_of_int (quot ?us 1000 - EpochMs) :: u64) = uint slot * 500 + d div 1000"
    by (simp only: uint_word_of_int_eq take_bit_int_eq_self_iff len_num1 len_bit0) simp
  moreover have "(uint slot * 500 + d div 1000) div 500 = uint slot"
    using \<open>0 \<le> d div 1000\<close> \<open>d div 1000 < 500\<close> by simp
  ultimately show ?thesis
    by (simp add: set_time_point_def to_time_point_def assms(1) IntervalMs_def EpochMs_def)
qed

theorem block_time_round_trip_witness:
  "set_time_point (to_time_point (\<lambda>n. 1000 * n) 12345 + 499999) = 12345"
  using block_time_round_trip [of "\<lambda>n. 1000 * n" 499999 12345] by simp

end
