(* ===== verification/Merkle.thy ===== *)
theory Merkle
  imports Chain_Prelude
begin

unbundle bit_operations_syntax

text \<open>
  Merkle roots (\<^verbatim>\<open>merkle.cpp\<close>, \<^verbatim>\<open>incremental_merkle.hpp\<close>): the batch computation over a vector of
  digests, and the accumulator that keeps only the frontier of the tree. The hash of a pair of
  digests (\<^verbatim>\<open>digest_type::hash\<close>, SHA-256 of the \<^verbatim>\<open>fc\<close> library) is a parameter \<open>H\<close> throughout. The main
  result is that the accumulator's root is the batch root of everything appended so far, for every
  number of leaves the 64-bit counter can hold.
\<close>

section \<open>Digests\<close>

text \<open>A 256-bit digest, the four 64-bit words \<^verbatim>\<open>_hash[0..3]\<close> of \<^verbatim>\<open>fc::sha256\<close>.\<close>

record digest =
  hash0 :: u64
  hash1 :: u64
  hash2 :: u64
  hash3 :: u64

definition digest_zero :: digest where
  "digest_zero = \<lparr>hash0 = 0, hash1 = 0, hash2 = 0, hash3 = 0\<rparr>"

definition make_canonical_left :: "digest \<Rightarrow> digest" where
  "make_canonical_left val = val\<lparr>hash0 := hash0 val AND 0xFFFFFFFFFFFFFF7F\<rparr>"

definition make_canonical_right :: "digest \<Rightarrow> digest" where
  "make_canonical_right val = val\<lparr>hash0 := hash0 val OR 0x0000000000000080\<rparr>"

definition is_canonical_left :: "digest \<Rightarrow> bool" where
  "is_canonical_left val \<longleftrightarrow> hash0 val AND 0x0000000000000080 = 0"

definition is_canonical_right :: "digest \<Rightarrow> bool" where
  "is_canonical_right val \<longleftrightarrow> hash0 val AND 0x0000000000000080 \<noteq> 0"

definition make_canonical_pair :: "digest \<Rightarrow> digest \<Rightarrow> digest \<times> digest" where
  "make_canonical_pair l r = (make_canonical_left l, make_canonical_right r)"

section \<open>The batch computation\<close>

text \<open>
  One turn of the outer loop: double the last entry of an odd vector, overwrite the first half in
  place (entry \<open>i\<close> is written from entries \<open>2 * i\<close> and \<open>2 * i + 1\<close>) and drop the second half.
\<close>

definition merkle_round :: "(digest \<times> digest \<Rightarrow> digest) \<Rightarrow> digest list \<Rightarrow> digest list" where
  "merkle_round H ids =
     (let ids = (if odd (length ids) then ids @ [last ids] else ids);
          ids = foldl (\<lambda>ids i. ids[i := H (make_canonical_pair (ids ! (2 * i)) (ids ! (2 * i + 1)))])
                  ids [0..<length ids div 2]
      in take (length ids div 2) ids)"

lemma length_merkle_round: "length (merkle_round H ids) = (length ids + 1) div 2"
proof -
  have fl: "length (foldl (\<lambda>ids i. ids[i := g ids i]) xs is) = length xs"
    for g and xs :: "digest list" and "is"
    by (rule foldl_list_update_length)
  show ?thesis
    unfolding merkle_round_def Let_def
    by (auto simp: fl elim: oddE)
qed

function merkle_loop :: "(digest \<times> digest \<Rightarrow> digest) \<Rightarrow> digest list \<Rightarrow> digest list" where
  "merkle_loop H ids = (if length ids > 1 then merkle_loop H (merkle_round H ids) else ids)"
  by pat_completeness auto
termination
  by (relation "measure (\<lambda>(H, ids). length ids)") (auto simp: length_merkle_round)

declare merkle_loop.simps [simp del]

definition merkle :: "(digest \<times> digest \<Rightarrow> digest) \<Rightarrow> digest list \<Rightarrow> digest" where
  "merkle H ids = (if length ids = 0 then digest_zero else hd (merkle_loop H ids))"

section \<open>The accumulator\<close>

definition next_power_of_2 :: "u64 \<Rightarrow> u64" where
  "next_power_of_2 value =
     (let v = value - 1;
          v = v OR drop_bit 1 v;
          v = v OR drop_bit 2 v;
          v = v OR drop_bit 4 v;
          v = v OR drop_bit 8 v;
          v = v OR drop_bit 16 v;
          v = v OR drop_bit 32 v
      in v + 1)"

definition clz_power_2 :: "u64 \<Rightarrow> int" where
  "clz_power_2 value =
     (let lz = 64;
          lz = (if value \<noteq> 0 then lz - 1 else lz);
          lz = (if value AND 0x00000000FFFFFFFF \<noteq> 0 then lz - 32 else lz);
          lz = (if value AND 0x0000FFFF0000FFFF \<noteq> 0 then lz - 16 else lz);
          lz = (if value AND 0x00FF00FF00FF00FF \<noteq> 0 then lz - 8 else lz);
          lz = (if value AND 0x0F0F0F0F0F0F0F0F \<noteq> 0 then lz - 4 else lz);
          lz = (if value AND 0x3333333333333333 \<noteq> 0 then lz - 2 else lz);
          lz = (if value AND 0x5555555555555555 \<noteq> 0 then lz - 1 else lz)
      in lz)"

definition calcluate_max_depth :: "u64 \<Rightarrow> int" where
  "calcluate_max_depth node_count =
     (if node_count = 0 then 0
      else let implied_count = next_power_of_2 node_count
           in clz_power_2 implied_count + 1)"

record incremental_merkle =
  node_count :: u64
  active_nodes :: "digest list"

definition incremental_merkle_empty :: incremental_merkle where
  "incremental_merkle_empty = \<lparr>node_count = 0, active_nodes = []\<rparr>"

text \<open>
  The loop of \<^verbatim>\<open>append\<close>: \<open>current_depth\<close> turns, with \<open>active_iter\<close> the part of the old active nodes
  that is still to be read. Reading past its end has no defined meaning in the source.
\<close>

fun append_loop :: "(digest \<times> digest \<Rightarrow> digest) \<Rightarrow> nat \<Rightarrow> bool \<Rightarrow> u64 \<Rightarrow> digest \<Rightarrow> digest list \<Rightarrow>
    digest list \<Rightarrow> (digest \<times> digest list) result" where
  "append_loop H 0 partial index top_node active_iter updated = Inr (top_node, updated)"
| "append_loop H (Suc current_depth) partial index top_node active_iter updated =
     (if index AND 1 = 0 then
        append_loop H current_depth True (drop_bit 1 index) (H (make_canonical_pair top_node top_node))
          active_iter (if partial then updated else updated @ [top_node])
      else (case active_iter of
          [] \<Rightarrow> Inl undefined_behaviour
        | left_value # active_iter' \<Rightarrow>
            append_loop H current_depth partial (drop_bit 1 index)
              (H (make_canonical_pair left_value top_node)) active_iter'
              (if partial then updated @ [left_value] else updated)))"

definition append_im :: "(digest \<times> digest \<Rightarrow> digest) \<Rightarrow> digest \<Rightarrow> incremental_merkle \<Rightarrow>
    (incremental_merkle \<times> digest) result" where
  "append_im H digest m =
     (let max_depth = calcluate_max_depth (node_count m + 1);
          current_depth = max_depth - 1
      in bindR (append_loop H (nat current_depth) False (node_count m) digest (active_nodes m) [])
           (\<lambda>(top_node, updated).
              let updated = updated @ [top_node]
              in Inr (\<lparr>node_count = node_count m + 1, active_nodes = updated\<rparr>, last updated)))"

definition get_root :: "incremental_merkle \<Rightarrow> digest" where
  "get_root m = (if node_count m > 0 then last (active_nodes m) else digest_zero)"

text \<open>Appending a sequence of digests, one call after the other.\<close>

definition append_all :: "(digest \<times> digest \<Rightarrow> digest) \<Rightarrow> digest list \<Rightarrow> incremental_merkle \<Rightarrow>
    incremental_merkle result" where
  "append_all H ids m = foldR (\<lambda>d m. bindR (append_im H d m) (\<lambda>r. Inr (fst r))) ids m"

section \<open>The two bit tricks\<close>

lemma smear_step:
  fixes v w :: u64
  assumes "\<And>i. bit w i \<longleftrightarrow> (\<exists>j<m. bit v (i + j))"
  shows "bit (w OR drop_bit m w) i \<longleftrightarrow> (\<exists>j<2 * m. bit v (i + j))"
proof -
  have "(\<exists>j<2 * m. bit v (i + j)) \<longleftrightarrow> (\<exists>j<m. bit v (i + j)) \<or> (\<exists>j<m. bit v (i + (m + j)))"
  proof
    assume "\<exists>j<2 * m. bit v (i + j)"
    then obtain j where j: "j < 2 * m" "bit v (i + j)" by blast
    show "(\<exists>j<m. bit v (i + j)) \<or> (\<exists>j<m. bit v (i + (m + j)))"
    proof (cases "j < m")
      case True
      with j show ?thesis by blast
    next
      case False
      with j have "j - m < m" "bit v (i + (m + (j - m)))" by auto
      then show ?thesis by blast
    qed
  next
    assume "(\<exists>j<m. bit v (i + j)) \<or> (\<exists>j<m. bit v (i + (m + j)))"
    then show "\<exists>j<2 * m. bit v (i + j)"
    proof (elim disjE exE conjE)
      fix j
      assume "j < m" "bit v (i + j)"
      then show ?thesis by (intro exI [of _ j]) simp
    next
      fix j
      assume "j < m" "bit v (i + (m + j))"
      then show ?thesis by (intro exI [of _ "m + j"]) simp
    qed
  qed
  then show ?thesis
    by (simp add: bit_or_iff bit_drop_bit_eq assms ac_simps)
qed

lemma smear_64:
  fixes v :: u64
  shows "next_power_of_2 (v + 1) = mask (LEAST k. unat v < 2 ^ k) + 1"
proof -
  define w where "w = (let v = v OR drop_bit 1 v; v = v OR drop_bit 2 v; v = v OR drop_bit 4 v;
      v = v OR drop_bit 8 v; v = v OR drop_bit 16 v; v = v OR drop_bit 32 v in v)"
  have bits: "bit w i \<longleftrightarrow> (\<exists>j<64. bit v (i + j))" for i
  proof -
    have b0: "bit v i \<longleftrightarrow> (\<exists>j<1. bit v (i + j))" for i by auto
    note b1 = smear_step [OF b0]
    note b2 = smear_step [OF b1, simplified]
    note b3 = smear_step [OF b2, simplified]
    note b4 = smear_step [OF b3, simplified]
    note b5 = smear_step [OF b4, simplified]
    note b6 = smear_step [OF b5, simplified]
    show ?thesis using b6 [of i] unfolding w_def Let_def by simp
  qed
  define k where "k = (LEAST k. unat v < 2 ^ k)"
  have vk: "unat v < 2 ^ k"
    unfolding k_def by (rule LeastI_ex) (rule exI [of _ "unat v"], simp)
  have low: "2 ^ (k - 1) \<le> unat v" if "0 < k"
    using not_less_Least [of "k - 1" "\<lambda>k. unat v < 2 ^ k"] that unfolding k_def by simp
  have bv: "bit v i \<longleftrightarrow> odd (unat v div 2 ^ i)" for i
  proof -
    have "bit v i \<longleftrightarrow> bit (unat v) i" by (simp add: bit_unsigned_iff)
    then show ?thesis by (simp only: bit_iff_odd)
  qed
  have "bit w i \<longleftrightarrow> bit (mask k :: u64) i" for i
  proof (cases "i < k")
    case True
    have "odd (unat v div 2 ^ (k - 1))"
    proof -
      have "unat v div 2 ^ (k - 1) = 1"
        using low True vk by (cases k) (auto intro!: div_nat_eqI)
      then show ?thesis by simp
    qed
    then have b: "bit v (i + (k - 1 - i))" using True by (simp add: bv)
    then have "k - 1 < 64" using True bit_imp_le_length [OF b] by simp
    then have "bit w i" unfolding bits using b by (intro exI [of _ "k - 1 - i"]) auto
    with True \<open>k - 1 < 64\<close> show ?thesis by (simp add: bit_mask_iff)
  next
    case False
    have "\<not> bit v (i + j)" for j
    proof -
      have "unat v < 2 ^ (i + j)" using vk False
        by (meson le_add1 le_trans less_le_trans not_less one_le_numeral power_increasing)
      then show ?thesis by (simp add: bv)
    qed
    then show ?thesis using False by (simp add: bits bit_mask_iff)
  qed
  then have "w = mask k" by (rule bit_word_eqI)
  then show ?thesis
    unfolding k_def next_power_of_2_def w_def Let_def by simp
qed

lemma exp_and_nonzero: "k < 64 \<Longrightarrow> (2 ^ k AND c :: u64) \<noteq> 0 \<longleftrightarrow> bit c k"
proof -
  assume k: "k < 64"
  have "(2 ^ k AND c) = (if bit c k then 2 ^ k else 0)"
    by (rule bit_word_eqI) (auto simp: bit_simps)
  then show ?thesis using k by simp
qed

lemma clz_masks: "list_all (\<lambda>k. (64::int) - 1 - (if bit (0x00000000FFFFFFFF :: int) k then 32 else 0) 
   - (if bit (0x0000FFFF0000FFFF :: int) k then 16 else 0) - (if bit (0x00FF00FF00FF00FF :: int) k then 8 else 0)
   - (if bit (0x0F0F0F0F0F0F0F0F :: int) k then 4 else 0)- (if bit (0x3333333333333333 :: int) k then 2 else 0)
   - (if bit (0x5555555555555555 :: int) k then 1 else 0) = int k) [0..<64]"
  by code_simp

lemma clz_2_pow:
  assumes k: "k < 64"
  shows "clz_power_2 (2 ^ k) = int k"
proof -
  have z: "(2 ^ k :: u64) \<noteq> 0" using k by simp
  have b: "bit (numeral n :: u64) k = bit (numeral n :: int) k" for n
    using k by (simp add: bit_numeral_word_iff)
  have "k \<in> set [0..<64]" using k by simp
  with clz_masks have "(64::int) - 1 - (if bit (0x00000000FFFFFFFF :: int) k then 32 else 0) 
   - (if bit (0x0000FFFF0000FFFF :: int) k then 16 else 0) - (if bit (0x00FF00FF00FF00FF :: int) k then 8 else 0)
   - (if bit (0x0F0F0F0F0F0F0F0F :: int) k then 4 else 0)- (if bit (0x3333333333333333 :: int) k then 2 else 0)
   - (if bit (0x5555555555555555 :: int) k then 1 else 0) = int k"
    unfolding list_all_iff by blast
  then show ?thesis
    unfolding clz_power_2_def Let_def exp_and_nonzero [OF k] b using z by (simp only: if_True if_not_P not_False_eq_True) (auto split: if_splits)
qed

lemma unat_2_pow:
  assumes "k < 64"
  shows "unat (2 ^ k :: u64) = 2 ^ k"
proof -
  have "(2 :: nat) ^ k < 2 ^ 64" using assms by (intro power_strict_increasing) auto
  then have "unat (of_nat (2 ^ k) :: u64) = 2 ^ k"
    using assms by (simp only: unsigned_of_nat) (simp add: take_bit_nat_eq_self)
  then show ?thesis by simp
qed

text \<open>The ceiling of the binary logarithm, the depth of the smallest balanced tree.\<close>

definition clog :: "nat \<Rightarrow> nat" where
  "clog n = (LEAST k. n \<le> 2 ^ k)"

lemma clog_upper: "n \<le> 2 ^ clog n"
  unfolding clog_def by (rule LeastI_ex) (rule exI [of _ n], simp)

lemma clog_least: "n \<le> 2 ^ k \<Longrightarrow> clog n \<le> k"
  unfolding clog_def by (rule Least_le)

lemma clog_lower: "0 < clog n \<Longrightarrow> 2 ^ (clog n - 1) < n"
  using clog_least [of n "clog n - 1"] by (meson diff_less less_one not_le)

lemma clog_eqI: "n \<le> 2 ^ k \<Longrightarrow> (0 < k \<Longrightarrow> 2 ^ (k - 1) < n) \<Longrightarrow> clog n = k"
proof (rule antisym)
  assume up: "n \<le> 2 ^ k" and lo: "0 < k \<Longrightarrow> 2 ^ (k - 1) < n"
  show "clog n \<le> k" using up by (rule clog_least)
  show "k \<le> clog n"
  proof (rule ccontr)
    assume "\<not> k \<le> clog n"
    then have "clog n \<le> k - 1" and "0 < k" by auto
    then have "(2 :: nat) ^ clog n \<le> 2 ^ (k - 1)" by (intro power_increasing) auto
    with clog_upper [of n] lo [OF \<open>0 < k\<close>] show False by simp
  qed
qed

lemma next_power_of_2_clog:
  assumes "0 < unat n"
  shows "next_power_of_2 n = mask (clog (unat n)) + 1"
proof -
  have "unat (n - 1) = unat n - 1"
    using assms by (simp add: unat_minus_one unat_gt_0)
  then have "(unat (n - 1) < 2 ^ k) = (unat n \<le> 2 ^ k)" for k
    using assms by auto
  then show ?thesis
    using smear_64 [of "n - 1"] by (simp add: clog_def)
qed

lemma max_depth_clog:
  assumes "0 < unat n"
  shows "calcluate_max_depth n = int (clog (unat n)) + 1"
proof -
  have le: "clog (unat n) \<le> 64"
  proof (rule clog_least)
    have "unat n < 2 ^ LENGTH(64)" by (rule unsigned_less)
    then show "unat n \<le> 2 ^ 64" by simp
  qed
  have "clz_power_2 (mask (clog (unat n)) + 1) = int (clog (unat n))"
  proof (cases "clog (unat n) = 64")
    case True
    have "(mask 64 :: u64) + 1 = 0" by (simp add: mask_eq_exp_minus_1)
    then show ?thesis using True by (simp add: clz_power_2_def)
  next
    case False
    then show ?thesis
      using le clz_2_pow [of "clog (unat n)"] by (simp add: mask_eq_exp_minus_1)
  qed
  then show ?thesis
    using assms by (auto simp: calcluate_max_depth_def next_power_of_2_clog)
qed

section \<open>Levels of the tree\<close>

text \<open>
  The reference: one level of the tree from the level below it, a lone last node paired with
  itself, and the level \<open>d\<close> steps up. \<open>full_pairs\<close> keeps only nodes with two real children.
\<close>

fun pairs :: "('a \<Rightarrow> 'a \<Rightarrow> 'a) \<Rightarrow> 'a list \<Rightarrow> 'a list" where
  "pairs f [] = []"
| "pairs f [x] = [f x x]"
| "pairs f (x # y # xs) = f x y # pairs f xs"

fun full_pairs :: "('a \<Rightarrow> 'a \<Rightarrow> 'a) \<Rightarrow> 'a list \<Rightarrow> 'a list" where
  "full_pairs f (x # y # xs) = f x y # full_pairs f xs"
| "full_pairs f _ = []"

fun levels :: "('a \<Rightarrow> 'a \<Rightarrow> 'a) \<Rightarrow> nat \<Rightarrow> 'a list \<Rightarrow> 'a list" where
  "levels f 0 xs = xs"
| "levels f (Suc d) xs = levels f d (pairs f xs)"

definition node :: "(digest \<times> digest \<Rightarrow> digest) \<Rightarrow> digest \<Rightarrow> digest \<Rightarrow> digest" where
  "node H l r = H (make_canonical_pair l r)"

lemma length_pairs: "length (pairs f xs) = (length xs + 1) div 2"
  by (induction f xs rule: pairs.induct) auto

lemma length_full_pairs: "length (full_pairs f xs) = length xs div 2"
  by (induction f xs rule: full_pairs.induct) auto

lemma nth_full_pairs: "i < length xs div 2 \<Longrightarrow> full_pairs f xs ! i = f (xs ! (2 * i)) (xs ! (2 * i + 1))"
proof (induction f xs arbitrary: i rule: full_pairs.induct)
  case (1 f x y xs)
  then show ?case by (cases i) auto
qed auto

lemma pairs_even: "even (length xs) \<Longrightarrow> pairs f xs = full_pairs f xs"
  by (induction f xs rule: pairs.induct) auto

lemma pairs_odd: "odd (length xs) \<Longrightarrow> pairs f xs = full_pairs f (xs @ [last xs])"
  by (induction f xs rule: pairs.induct) auto

text \<open>Overwriting the front half in place never destroys an entry that is still to be read.\<close>

lemma inplace_pairs:
  "n \<le> length xs div 2 \<Longrightarrow>
   foldl (\<lambda>ids i. ids[i := f (ids ! (2 * i)) (ids ! (2 * i + 1))]) xs [0..<n] =
     map (\<lambda>i. f (xs ! (2 * i)) (xs ! (2 * i + 1))) [0..<n] @ drop n xs"
  (is "_ \<Longrightarrow> foldl ?step xs _ = _")
proof (induction n)
  case (Suc n)
  let ?ys = "map (\<lambda>i. f (xs ! (2 * i)) (xs ! (2 * i + 1))) [0..<n] @ drop n xs"
  have r: "?ys ! (2 * n) = xs ! (2 * n)" "?ys ! (2 * n + 1) = xs ! (2 * n + 1)"
    using Suc.prems by (auto simp: nth_append nth_drop mult_2)
  have "foldl ?step xs [0..<Suc n] = ?step ?ys n" using Suc by simp
  also have "\<dots> = ?ys[n := f (xs ! (2 * n)) (xs ! (2 * n + 1))]"
    unfolding r ..
  also have "\<dots> = map (\<lambda>i. f (xs ! (2 * i)) (xs ! (2 * i + 1))) [0..<Suc n] @ drop (Suc n) xs"
    using Suc.prems by (simp add: list_update_append Cons_nth_drop_Suc [symmetric, of n xs])
  finally show ?case .
qed simp

lemma merkle_round_pairs: "merkle_round H ids = pairs (node H) ids"
proof -
  define xs where "xs = (if odd (length ids) then ids @ [last ids] else ids)"
  have "merkle_round H ids = map (\<lambda>i. node H (xs ! (2 * i)) (xs ! (2 * i + 1))) [0..<length xs div 2]"
    unfolding merkle_round_def Let_def xs_def [symmetric] node_def
    by (subst (1 2) inplace_pairs) auto
  also have "\<dots> = full_pairs (node H) xs"
    by (rule nth_equalityI) (auto simp: length_full_pairs nth_full_pairs)
  also have "\<dots> = pairs (node H) ids"
    by (simp add: xs_def pairs_even pairs_odd)
  finally show ?thesis .
qed

lemma clog_1 [simp]: "clog (Suc 0) = 0"
  by (rule clog_eqI) auto

lemma clog_half: "1 < n \<Longrightarrow> clog n = Suc (clog ((n + 1) div 2))"
proof (rule clog_eqI)
  assume n: "1 < n"
  let ?m = "(n + 1) div 2"
  show "n \<le> 2 ^ Suc (clog ?m)" using clog_upper [of ?m] by auto
  show "2 ^ (Suc (clog ?m) - 1) < n"
  proof (cases "clog ?m")
    case 0
    then show ?thesis using n by simp
  next
    case (Suc k)
    then show ?thesis using clog_lower [of ?m] by auto
  qed
qed

lemma merkle_loop_levels:
  "ids \<noteq> [] \<Longrightarrow> merkle_loop H ids = levels (node H) (clog (length ids)) ids"
proof (induction H ids rule: merkle_loop.induct)
  case (1 H ids)
  show ?case
  proof (cases "length ids > 1")
    case True
    then have "merkle_round H ids \<noteq> []" by (auto simp: length_merkle_round simp flip: length_0_conv)
    with 1 True show ?thesis
      by (subst merkle_loop.simps) (simp add: clog_half length_merkle_round merkle_round_pairs length_pairs)
  next
    case False
    then have "length ids = Suc 0" using 1 by (cases ids) auto
    then show ?thesis by (subst merkle_loop.simps) simp
  qed
qed

lemma length_levels: "xs \<noteq> [] \<Longrightarrow> length (levels f (clog (length xs)) xs) = 1"
proof (induction "clog (length xs)" arbitrary: xs)
  case 0
  then show ?case using clog_upper [of "length xs"] by (cases xs) auto
next
  case (Suc k)
  have n: "1 < length xs"
    using Suc.hyps(2) Suc.prems by (metis One_nat_def clog_1 length_0_conv less_one linorder_neqE_nat nat.distinct(1))
  have "clog (length (pairs f xs)) = k" using clog_half [OF n] Suc.hyps(2) by (simp add: length_pairs)
  moreover have "pairs f xs \<noteq> []" using n by (auto simp: length_pairs simp flip: length_0_conv)
  ultimately show ?case using Suc.hyps(1) [of "pairs f xs"] Suc.hyps(2)[symmetric] by simp
qed

text \<open>
  The nodes the accumulator keeps: at every level, the last node when it is complete and has no
  right neighbour yet, from the leaves upwards.
\<close>

fun frontier :: "('a \<Rightarrow> 'a \<Rightarrow> 'a) \<Rightarrow> nat \<Rightarrow> 'a list \<Rightarrow> 'a list" where
  "frontier f 0 xs = []"
| "frontier f (Suc d) xs =
     (if odd (length xs) then [last xs] else []) @ frontier f d (full_pairs f xs)"

lemma full_pairs_append_even:
  "even (length xs) \<Longrightarrow> full_pairs f (xs @ ys) = full_pairs f xs @ full_pairs f ys"
  by (induction f xs rule: full_pairs.induct) auto

lemma full_pairs_snoc_odd:
  "odd (length xs) \<Longrightarrow> full_pairs f (xs @ [x]) = full_pairs f xs @ [f (last xs) x]"
proof (induction f xs rule: full_pairs.induct)
  case (1 f x y xs)
  then show ?case by (cases xs) auto
qed auto

lemma pairs_snoc:
  "pairs f (xs @ [x]) =
     full_pairs f xs @ [if odd (length xs) then f (last xs) x else f x x]"
  by (cases "odd (length xs)")
    (simp_all add: pairs_even pairs_odd full_pairs_snoc_odd full_pairs_append_even)

lemma index_is_left: "(index :: u64) AND 1 = 0 \<longleftrightarrow> even (unat index)"
  using bit_0 [of "unat index"] bit_0 [of index]
  by (simp add: and_one_eq mod_2_eq_odd bit_unsigned_iff)

lemma append_loop_frontier:
  assumes "unat index = length xs"
  shows "append_loop H d partial index x (frontier (node H) d xs @ rest) upd =
     Inr (last (levels (node H) d (xs @ [x])),
          upd @ frontier (node H) d (if partial then xs else xs @ [x]))"
  using assms
proof (induction d arbitrary: partial index x xs upd)
  case (Suc d)
  have idx: "unat (drop_bit 1 index) = length (full_pairs (node H) xs)"
    using Suc.prems by (simp add: length_full_pairs drop_bit_eq_div unat_div)
  show ?case
  proof (cases "even (length xs)")
    case True
    then show ?thesis
      using Suc.IH [OF idx] Suc.prems
      by (simp add: index_is_left pairs_snoc full_pairs_append_even node_def [symmetric])
  next
    case False
    then show ?thesis
      using Suc.IH [OF idx] Suc.prems
      by (simp add: index_is_left pairs_snoc full_pairs_snoc_odd node_def [symmetric])
  qed
qed simp

lemma frontier_power_of_2:
  "length xs = 2 ^ k \<Longrightarrow> frontier f (Suc k) xs = levels f k xs"
proof (induction k arbitrary: xs)
  case 0
  then show ?case by (cases xs) auto
next
  case (Suc k)
  then have "frontier f (Suc k) (full_pairs f xs) = levels f k (full_pairs f xs)"
    by (simp add: length_full_pairs)
  then show ?case using Suc.prems by (simp add: pairs_even)
qed

lemma frontier_power_of_2_Nil:
  "length xs = 2 ^ k \<Longrightarrow> frontier f k xs = []"
  by (induction k arbitrary: xs) (auto simp: length_full_pairs)

text \<open>What the accumulator holds after the leaves \<open>xs\<close>: their number, the frontier and the root.\<close>

definition merkle_repr :: "(digest \<times> digest \<Rightarrow> digest) \<Rightarrow> digest list \<Rightarrow> incremental_merkle \<Rightarrow> bool" where
  "merkle_repr H xs m \<longleftrightarrow> unat (node_count m) = length xs \<and>
     (xs \<noteq> [] \<longrightarrow> active_nodes m =
        frontier (node H) (clog (length xs)) xs @ levels (node H) (clog (length xs)) xs)"

lemma frontier_next:
  assumes "merkle_repr H xs m"
  shows "\<exists>rest. active_nodes m = frontier (node H) (clog (Suc (length xs))) xs @ rest"
proof (cases "xs = []")
  case False
  let ?k = "clog (length xs)"
  have le: "length xs \<le> 2 ^ ?k" by (rule clog_upper)
  show ?thesis
  proof (cases "length xs = 2 ^ ?k")
    case True
    then have "clog (Suc (length xs)) = Suc ?k"
      using False by (intro clog_eqI) (auto simp: Suc_le_eq)
    then show ?thesis
      using assms False True by (simp add: merkle_repr_def frontier_power_of_2_Nil frontier_power_of_2
          del: frontier.simps)
  next
    case neq: False
    then have "clog (Suc (length xs)) = ?k"
      using le clog_lower [of "length xs"] by (intro clog_eqI) auto
    then show ?thesis using assms False by (simp add: merkle_repr_def)
  qed
qed simp

lemma append_im_repr:
  assumes repr: "merkle_repr H xs m" and room: "Suc (length xs) < 2 ^ 64"
  shows "\<exists>m'. append_im H x m = Inr (m', merkle H (xs @ [x])) \<and> merkle_repr H (xs @ [x]) m'"
proof -
  let ?n = "Suc (length xs)" and ?f = "node H"
  have cnt: "unat (node_count m + 1) = ?n"
    using repr room by (simp add: merkle_repr_def unat_word_ariths)
  have depth: "calcluate_max_depth (node_count m + 1) - 1 = int (clog ?n)"
    using max_depth_clog [of "node_count m + 1"] cnt by simp
  obtain rest where act: "active_nodes m = frontier ?f (clog ?n) xs @ rest"
    using frontier_next [OF repr] by blast
  have idx: "unat (node_count m) = length xs" using repr by (simp add: merkle_repr_def)
  have one: "levels ?f (clog ?n) (xs @ [x]) = [last (levels ?f (clog ?n) (xs @ [x]))]"
    using length_levels [of "xs @ [x]" ?f] by (cases "levels ?f (clog ?n) (xs @ [x])") auto
  have root: "merkle H (xs @ [x]) = last (levels ?f (clog ?n) (xs @ [x]))"
    using one by (simp add: merkle_def merkle_loop_levels) (metis list.sel(1))
  show ?thesis
    using append_loop_frontier [OF idx, of H "clog ?n" False x rest "[]"] one
    by (simp add: append_im_def depth act root cnt merkle_repr_def Let_def)
qed

lemma merkle_repr_root: "merkle_repr H xs m \<Longrightarrow> get_root m = merkle H xs"
proof (cases "xs = []")
  case False
  assume r: "merkle_repr H xs m"
  have one: "length (levels (node H) (clog (length xs)) xs) = 1"
    using False by (rule length_levels)
  then show ?thesis
    using r False
    by (cases "levels (node H) (clog (length xs)) xs")
      (auto simp: merkle_repr_def get_root_def merkle_def merkle_loop_levels word_neq_0_conv
        [symmetric] simp flip: unat_eq_0)
qed (auto simp: merkle_repr_def get_root_def merkle_def unat_eq_0)

section \<open>The accumulator as an interface\<close>

text \<open>
  What the block header state relies on: an accumulator represents the sequence of digests added
  so far, adding never fails below its capacity, and its root is the batch root of that sequence.
\<close>

locale root_accumulator =
  fixes repr :: "'d list \<Rightarrow> 'm \<Rightarrow> bool"
    and start :: "'m"
    and add :: "'d \<Rightarrow> 'm \<Rightarrow> ('m \<times> 'd) result"
    and root :: "'m \<Rightarrow> 'd"
    and batch :: "'d list \<Rightarrow> 'd"
    and cap :: nat
  assumes repr_start: "repr [] start"
    and repr_add: "repr xs m \<Longrightarrow> Suc (length xs) < cap \<Longrightarrow>
      \<exists>m'. add x m = Inr (m', batch (xs @ [x])) \<and> repr (xs @ [x]) m'"
    and repr_root: "repr xs m \<Longrightarrow> root m = batch xs"
begin

lemma add_all:
  "repr xs m \<Longrightarrow> length xs + length ys < cap \<Longrightarrow>
   \<exists>m'. foldR (\<lambda>d m. bindR (add d m) (\<lambda>r. Inr (fst r))) ys m = Inr m' \<and> repr (xs @ ys) m'"
proof (induction ys arbitrary: xs m)
  case (Cons y ys)
  obtain m' where m': "add y m = Inr (m', batch (xs @ [y]))" "repr (xs @ [y]) m'"
    using repr_add [OF Cons.prems(1), of y] Cons.prems(2) by auto
  then show ?case
    using Cons.IH [OF m'(2)] Cons.prems(2) by simp
qed simp

lemma add_all_root:
  assumes "length ys < cap"
  shows "\<exists>m. foldR (\<lambda>d m. bindR (add d m) (\<lambda>r. Inr (fst r))) ys start = Inr m \<and>
    repr ys m \<and> root m = batch ys"
  using add_all [OF repr_start, of ys] assms repr_root by auto

end

interpretation im: root_accumulator "merkle_repr H" incremental_merkle_empty "append_im H" get_root
    "merkle H" "2 ^ 64" for H
  by unfold_locales
    (auto simp: merkle_repr_root append_im_repr, simp add: merkle_repr_def incremental_merkle_empty_def)

section \<open>Properties\<close>

text \<open>
  C6: for every hash function and every sequence of fewer than \<open>2 ^ 64\<close> digests, appending them one
  after the other to an empty accumulator never reads past the stored active nodes, counts them,
  and leaves the root that the batch computation gives for the whole sequence.
\<close>

theorem incremental_merkle_root:
  assumes "length ids < 2 ^ 64"
  shows "\<exists>m. append_all H ids incremental_merkle_empty = Inr m \<and>
    unat (node_count m) = length ids \<and> get_root m = merkle H ids"
  using im.add_all_root [OF assms, of H] by (auto simp: append_all_def merkle_repr_def)

theorem incremental_merkle_root_witness:
  "\<exists>m. append_all (\<lambda>(l, r). \<lparr>hash0 = hash0 l + 2 * hash0 r, hash1 = hash1 l XOR hash1 r, hash2 = 5, hash3 = hash3 r\<rparr>)
       [\<lparr>hash0 = 1, hash1 = 2, hash2 = 3, hash3 = 4\<rparr>, digest_zero, \<lparr>hash0 = 9, hash1 = 8, hash2 = 7, hash3 = 6\<rparr>]
       incremental_merkle_empty = Inr m \<and> unat (node_count m) = 3 \<and>
     get_root m = merkle (\<lambda>(l, r). \<lparr>hash0 = hash0 l + 2 * hash0 r, hash1 = hash1 l XOR hash1 r, hash2 = 5, hash3 = hash3 r\<rparr>)
       [\<lparr>hash0 = 1, hash1 = 2, hash2 = 3, hash3 = 4\<rparr>, digest_zero, \<lparr>hash0 = 9, hash1 = 8, hash2 = 7, hash3 = 6\<rparr>]"
  using incremental_merkle_root
    [of "[\<lparr>hash0 = 1, hash1 = 2, hash2 = 3, hash3 = 4\<rparr>, digest_zero, \<lparr>hash0 = 9, hash1 = 8, hash2 = 7, hash3 = 6\<rparr>]"
      "\<lambda>(l, r). \<lparr>hash0 = hash0 l + 2 * hash0 r, hash1 = hash1 l XOR hash1 r, hash2 = 5, hash3 = hash3 r\<rparr>"]
  by (simp add: numeral_3_eq_3)

text \<open>
  \<^verbatim>\<open>next_power_of_2\<close> gives the least power of two that is not below its argument, up to
  \<open>2 ^ 63\<close>; above that the power does not fit the word and the result is 0.
\<close>

theorem next_power_of_2_least:
  assumes "n \<noteq> 0"
  shows "if unat n \<le> 2 ^ 63
    then \<exists>k < 64. unat (next_power_of_2 n) = 2 ^ k \<and> unat n \<le> 2 ^ k \<and> (\<forall>j. unat n \<le> 2 ^ j \<longrightarrow> k \<le> j)
    else next_power_of_2 n = 0"
proof -
  have pos: "0 < unat n" using assms by (simp add: unat_gt_0)
  note np = next_power_of_2_clog [OF pos]
  show ?thesis
  proof (cases "unat n \<le> 2 ^ 63")
    case True
    then have lt: "clog (unat n) < 64" using clog_least [of "unat n" 63] by simp
    have "next_power_of_2 n = 2 ^ clog (unat n)" by (simp add: np mask_eq_exp_minus_1)
    then have "unat (next_power_of_2 n) = 2 ^ clog (unat n)"
      using lt by (simp add: unat_2_pow)
    then show ?thesis
      using True lt clog_upper [of "unat n"] clog_least [of "unat n"] by auto
  next
    case False
    have "unat n < 2 ^ LENGTH(64)" by (rule unsigned_less)
    then have "clog (unat n) = 64" using False by (intro clog_eqI) auto
    then show ?thesis using False by (simp add: np mask_eq_exp_minus_1)
  qed
qed

theorem next_power_of_2_least_witness:
  "\<exists>k < 64. unat (next_power_of_2 5) = 2 ^ k \<and> (5 :: nat) \<le> 2 ^ k \<and> (\<forall>j. (5 :: nat) \<le> 2 ^ j \<longrightarrow> k \<le> j)"
  using next_power_of_2_least [of 5] by simp

text \<open>
  \<^verbatim>\<open>clz_power_2\<close> counts the zeros below the set bit, where its documentation promises the zeros
  above it; for no power of two do the two counts agree. The tree depth computed from it needs the
  former, and is the height of the smallest balanced tree plus one.
\<close>

theorem clz_power_2_counts_trailing_zeros:
  assumes "k < 64" and "n \<noteq> 0"
  shows "clz_power_2 (2 ^ k) = int k \<and> clz_power_2 (2 ^ k) \<noteq> int (63 - k) \<and>
    calcluate_max_depth n = int (LEAST d. unat n \<le> 2 ^ d) + 1"
proof -
  have "63 - k \<noteq> k" using assms(1) by presburger
  then show ?thesis
    using assms max_depth_clog [of n] by (simp add: clz_2_pow clog_def unat_gt_0)
qed

theorem clz_power_2_counts_trailing_zeros_witness:
  "clz_power_2 (2 ^ 10) = 10 \<and> clz_power_2 (2 ^ 10) \<noteq> 53 \<and>
   calcluate_max_depth 6 = int (LEAST d. (6 :: nat) \<le> 2 ^ d) + 1"
  using clz_power_2_counts_trailing_zeros [of 10 6] by simp

end
