(* ===== verification/Block_Header.thy ===== *)
theory Block_Header
  imports Producer_Schedule Merkle
begin

unbundle bit_operations_syntax

text \<open>
  Block headers and blocks (\<^verbatim>\<open>block_header.hpp\<close>, \<^verbatim>\<open>block_header.cpp\<close>, \<^verbatim>\<open>block.hpp\<close>, \<^verbatim>\<open>block.cpp\<close>): the header
  fields, the block number carried inside the block id, and the typed extensions of headers and
  blocks. Hashing, serialisation, key recovery and byte reversal belong to the fc library and are the
  fields of \<open>fc_env\<close>; public keys and signatures are type parameters.
\<close>

type_synonym bytes = "u8 list"
type_synonym extensions_type = "(u16 \<times> bytes) list"

section \<open>Headers\<close>

record block_header =
  timestamp :: u32
  producer :: u64
  confirmed :: u16
  previous :: digest
  transaction_mroot :: digest
  action_mroot :: digest
  schedule_version :: u32
  header_extensions :: extensions_type
  hdr_enable_standby_schedule :: bool
  hdr_standby_schedule_block_num :: "u32 option"

record 'g signed_block_header = block_header +
  producer_signature :: 'g

record ('k, 'g) fc_env =
  hash_pair :: "digest \<times> digest \<Rightarrow> digest"
  hash_header :: "block_header \<Rightarrow> digest"
  hash_schedule :: "'k producer_authority_schedule \<Rightarrow> digest"
  recover_key :: "'g \<Rightarrow> digest \<Rightarrow> 'k result"
  endian_reverse_u32 :: "u32 \<Rightarrow> u32"
  pack_schedule :: "'k producer_authority_schedule \<Rightarrow> bytes"
  unpack_schedule :: "bytes \<Rightarrow> 'k producer_authority_schedule result"
  pack_signatures :: "'g list \<Rightarrow> bytes"
  unpack_signatures :: "bytes \<Rightarrow> 'g list result"

definition num_from_id :: "('k, 'g) fc_env \<Rightarrow> digest \<Rightarrow> u32" where
  "num_from_id env i = endian_reverse_u32 env (ucast (hash0 i))"

definition header_block_num :: "('k, 'g) fc_env \<Rightarrow> 'a block_header_scheme \<Rightarrow> u32" where
  "header_block_num env h = num_from_id env (previous h) + 1"

definition header_digest :: "('k, 'g) fc_env \<Rightarrow> 'a block_header_scheme \<Rightarrow> digest" where
  "header_digest env h = hash_header env (block_header.truncate h)"

definition header_id :: "('k, 'g) fc_env \<Rightarrow> 'a block_header_scheme \<Rightarrow> digest" where
  "header_id env h =
     (let result = header_digest env h;
          result = result\<lparr>hash0 := hash0 result AND 0xffffffff00000000\<rparr>
      in result\<lparr>hash0 := hash0 result + ucast (endian_reverse_u32 env (header_block_num env h))\<rparr>)"

section \<open>Extensions\<close>

text \<open>Insertion after the last entry whose id is not greater, in a list sorted by id.\<close>

definition emplace_extension :: "extensions_type \<Rightarrow> u16 \<Rightarrow> bytes \<Rightarrow> extensions_type" where
  "emplace_extension exts eid data =
     takeWhile (\<lambda>ext. \<not> eid < fst ext) exts @ (eid, data) # dropWhile (\<lambda>ext. \<not> eid < fst ext) exts"

text \<open>
  The loop shared by headers and blocks: ids must ascend, an id must be supported, and an extension
  type that enforces it must not repeat. \<open>extract\<close> is the lookup over the supported types; it returns
  nothing for an unsupported id, and otherwise the unpacked value with the type's uniqueness flag.
  The two instances differ in the exception raised for a repetition.
\<close>

fun extract_loop :: "(u16 \<Rightarrow> bytes \<Rightarrow> ('e \<times> bool) option result) \<Rightarrow> exn \<Rightarrow> exn \<Rightarrow> nat \<Rightarrow> u16 \<Rightarrow>
    extensions_type \<Rightarrow> (u16 \<times> 'e) list \<Rightarrow> (u16 \<times> 'e) list result" where
  "extract_loop extract bad repeated i lower [] results = Inr results"
| "extract_loop extract bad repeated i lower (e # es) results =
     EOS_ASSERT (fst e \<ge> lower) bad
       (bindR (extract (fst e) (snd e)) (\<lambda>match.
          case match of
            None \<Rightarrow> Inl bad
          | Some (x, enforce_unique) \<Rightarrow>
              EOS_ASSERT (\<not> enforce_unique \<or> i = 0 \<or> fst e > lower) repeated
                (extract_loop extract bad repeated (i + 1) (fst e) es (results @ [(fst e, x)]))))"

definition schedule_change_id :: u16 where
  "schedule_change_id = 1"

definition extract_header_extension :: "('k, 'g) fc_env \<Rightarrow> u16 \<Rightarrow> bytes \<Rightarrow>
    ('k producer_authority_schedule \<times> bool) option result" where
  "extract_header_extension env eid data =
     (if eid = schedule_change_id
      then bindR (unpack_schedule env data) (\<lambda>x. Inr (Some (x, True)))
      else Inr None)"

definition validate_and_extract_header_extensions :: "('k, 'g) fc_env \<Rightarrow> 'a block_header_scheme \<Rightarrow>
    (u16 \<times> 'k producer_authority_schedule) list result" where
  "validate_and_extract_header_extensions env h =
     extract_loop (extract_header_extension env) invalid_block_header_extension invalid_block_header_extension
       0 0 (header_extensions h) []"

section \<open>Blocks\<close>

record ('g, 't) signed_block = "'g signed_block_header" +
  transactions :: "'t list"
  block_extensions :: extensions_type

definition additional_sigs_eid :: u16 where
  "additional_sigs_eid = 2"

text \<open>The check run on every unpacked list of additional signatures.\<close>

definition additional_signatures_reflector_init :: "'g list \<Rightarrow> 'g list result" where
  "additional_signatures_reflector_init sigs =
     EOS_ASSERT (length sigs > 0) ill_formed_additional_block_signatures_extension
       (bindR (foldR (\<lambda>s unique_sigs.
            EOS_ASSERT (s \<notin> set unique_sigs) ill_formed_additional_block_signatures_extension
              (Inr (s # unique_sigs))) sigs [])
          (\<lambda>_. Inr sigs))"

definition extract_block_extension :: "('k, 'g) fc_env \<Rightarrow> u16 \<Rightarrow> bytes \<Rightarrow> ('g list \<times> bool) option result" where
  "extract_block_extension env eid data =
     (if eid = additional_sigs_eid
      then bindR (unpack_signatures env data) (\<lambda>sigs.
             bindR (additional_signatures_reflector_init sigs) (\<lambda>x. Inr (Some (x, True))))
      else Inr None)"

definition validate_and_extract_extensions :: "('k, 'g) fc_env \<Rightarrow> ('g, 't) signed_block \<Rightarrow>
    (u16 \<times> 'g list) list result" where
  "validate_and_extract_extensions env b =
     extract_loop (extract_block_extension env) invalid_block_extension invalid_block_header_extension
       0 0 (block_extensions b) []"

section \<open>Lemmas\<close>

lemma low_word_cleared: "(ucast (x AND 0xffffffff00000000 :: u64) :: u32) = 0"
proof -
  have e: "(0xffffffff00000000 :: u64) = push_bit 32 (mask 32)" by (simp add: mask_eq_exp_minus_1 push_bit_eq_mult)
  show ?thesis
    unfolding e by (intro bit_eqI) (simp add: bit_ucast_iff bit_and_iff bit_push_bit_iff del: push_bit_numeral)
qed

lemma ucast_add_low: "(ucast (x + ucast (y :: u32) :: u64) :: u32) = ucast x + y"
proof -
  have "ucast (a + b :: u64) = (ucast a + ucast b :: u32)" for a b
  proof transfer
    fix a b :: int
    have "take_bit 32 (take_bit 64 a + take_bit 64 b) =
        take_bit 32 (take_bit 32 (take_bit 64 a) + take_bit 32 (take_bit 64 b))"
      by (rule take_bit_add [symmetric])
    then show "take_bit LENGTH(32) (take_bit LENGTH(64) (a + b)) =
        take_bit LENGTH(32) (take_bit LENGTH(64) a + take_bit LENGTH(64) b)"
      by (simp add: take_bit_add)
  qed
  moreover have "(ucast (ucast y :: u64) :: u32) = y"
    by (intro bit_eqI) (auto simp: bit_ucast_iff)
  ultimately show ?thesis by simp
qed

lemma num_from_header_id:
  assumes "\<And>n. endian_reverse_u32 env (endian_reverse_u32 env n) = n"
  shows "num_from_id env (header_id env h) = header_block_num env h"
  using assms by (simp add: num_from_id_def header_id_def Let_def ucast_add_low low_word_cleared)

section \<open>Which extension lists are accepted\<close>

text \<open>
  With one supported type that must not repeat, an accepted list is empty or holds that one extension.
\<close>

lemma extract_loop_single:
  assumes "\<And>eid data. extract eid data =
      (if eid = the_id then bindR (unpack data) (\<lambda>x. Inr (Some (x, True))) else Inr None)"
  shows "extract_loop extract bad repeated 0 0 exts [] = Inr results \<longleftrightarrow>
    (exts = [] \<and> results = []) \<or> (\<exists>data x. exts = [(the_id, data)] \<and> unpack data = Inr x \<and> results = [(the_id, x)])"
proof -
  have tail: "extract_loop extract bad repeated (Suc i) the_id es acc = Inr r \<longleftrightarrow> es = [] \<and> r = acc" for i es acc r
    by (cases es) (auto simp: assms)
  show ?thesis
    by (cases exts) (auto simp: assms tail split: prod.splits)
qed

lemma header_extensions_accepted:
  "validate_and_extract_header_extensions env h = Inr results \<longleftrightarrow>
     (header_extensions h = [] \<and> results = []) \<or>
     (\<exists>data x. header_extensions h = [(schedule_change_id, data)] \<and> unpack_schedule env data = Inr x \<and>
        results = [(schedule_change_id, x)])"
  unfolding validate_and_extract_header_extensions_def
  by (rule extract_loop_single) (simp add: extract_header_extension_def)

lemma unique_sigs_loop:
  "foldR (\<lambda>s u. EOS_ASSERT (s \<notin> set u) e (Inr (s # u))) sigs seen =
     (if distinct sigs \<and> set sigs \<inter> set seen = {} then Inr (rev sigs @ seen) else Inl e)"
  by (induction sigs arbitrary: seen) (auto simp: EOS_ASSERT_def)

lemma additional_signatures_checked:
  "additional_signatures_reflector_init sigs =
     (if sigs \<noteq> [] \<and> distinct sigs then Inr sigs else Inl ill_formed_additional_block_signatures_extension)"
  unfolding additional_signatures_reflector_init_def unique_sigs_loop by (simp add: EOS_ASSERT_def)

lemma block_extensions_accepted:
  "validate_and_extract_extensions env b = Inr results \<longleftrightarrow>
     (block_extensions b = [] \<and> results = []) \<or>
     (\<exists>data sigs. block_extensions b = [(additional_sigs_eid, data)] \<and> unpack_signatures env data = Inr sigs \<and>
        sigs \<noteq> [] \<and> distinct sigs \<and> results = [(additional_sigs_eid, sigs)])"
proof -
  have "validate_and_extract_extensions env b = Inr results \<longleftrightarrow>
     (block_extensions b = [] \<and> results = []) \<or>
     (\<exists>data sigs. block_extensions b = [(additional_sigs_eid, data)] \<and>
        bindR (unpack_signatures env data) additional_signatures_reflector_init = Inr sigs \<and>
        results = [(additional_sigs_eid, sigs)])"
    unfolding validate_and_extract_extensions_def
    by (rule extract_loop_single) (auto simp: extract_block_extension_def bindR_def split: sum.split)
  then show ?thesis
    by (auto simp: additional_signatures_checked split: if_splits)
qed

section \<open>A reference environment\<close>

text \<open>
  An instance of the fc functions on small types, on which the hypotheses of the properties can be
  checked: byte reversal is the real one, the others are simple injections or constants.
\<close>

definition byte_swap :: "u32 \<Rightarrow> u32" where
  "byte_swap x = push_bit 24 (take_bit 8 x) OR push_bit 16 (take_bit 8 (drop_bit 8 x)) OR
     push_bit 8 (take_bit 8 (drop_bit 16 x)) OR drop_bit 24 x"

lemma bit_byte_swap:
  "bit (byte_swap x) n \<longleftrightarrow> n < 32 \<and> bit x (8 * (3 - n div 8) + n mod 8)"
proof (cases "n < 32")
  case True
  then have "n = n mod 8 \<or> n = 8 + n mod 8 \<or> n = 16 + n mod 8 \<or> n = 24 + n mod 8" by presburger
  then obtain m where m: "m < 8" "n = m \<or> n = 8 + m \<or> n = 16 + m \<or> n = 24 + m"
    by (meson mod_less_divisor zero_less_numeral)
  have q: "m div 8 = 0" "(8 + m) div 8 = 1" "(16 + m) div 8 = 2" "(24 + m) div 8 = 3"
    "(16 + m) mod 8 = m" "(24 + m) mod 8 = m"
    using m(1) by presburger+
  have high: "\<not> bit x (32 + m)" "\<not> bit x (40 + m)" "\<not> bit x (48 + m)"
    by (auto dest: bit_imp_le_length)
  from m(2) show ?thesis
  proof (elim disjE)
    assume n: "n = m"
    show ?thesis unfolding n using m(1)
      by (simp add: q high byte_swap_def bit_or_iff bit_push_bit_iff bit_take_bit_iff bit_drop_bit_eq)
  next
    assume n: "n = 8 + m"
    show ?thesis unfolding n using m(1)
      by (simp add: q high byte_swap_def bit_or_iff bit_push_bit_iff bit_take_bit_iff bit_drop_bit_eq)
  next
    assume n: "n = 16 + m"
    show ?thesis unfolding n using m(1)
      by (simp add: q high byte_swap_def bit_or_iff bit_push_bit_iff bit_take_bit_iff bit_drop_bit_eq)
  next
    assume n: "n = 24 + m"
    show ?thesis unfolding n using m(1)
      by (simp add: q high byte_swap_def bit_or_iff bit_push_bit_iff bit_take_bit_iff bit_drop_bit_eq)
  qed
next
  case False
  then show ?thesis by (auto dest: bit_imp_le_length)
qed

lemma byte_swap_involutive: "byte_swap (byte_swap x) = x"
proof (rule bit_eqI)
  fix n assume "possible_bit TYPE(u32) n"
  then have "n < 32" by (simp add: possible_bit_word)
  then have "n div 8 \<le> 3" by linarith
  moreover have "(8 * (3 - n div 8) + n mod 8) div 8 = 3 - n div 8" by simp
  ultimately have "8 * (3 - (8 * (3 - n div 8) + n mod 8) div 8) + (8 * (3 - n div 8) + n mod 8) mod 8 = n"
    by simp
  moreover have "8 * (3 - n div 8) + n mod 8 < 32" by linarith
  ultimately show "bit (byte_swap (byte_swap x)) n = bit x n"
    using \<open>n < 32\<close> by (simp add: bit_byte_swap)
qed

section \<open>Properties\<close>

text \<open>
  C32: the number read out of a block's id is the number of the block, one more than the number in the
  id of its predecessor, provided byte reversal is its own inverse.
\<close>

theorem block_num_in_id:
  assumes "\<And>n. endian_reverse_u32 env (endian_reverse_u32 env n) = n"
  shows "num_from_id env (header_id env h) = num_from_id env (previous h) + 1"
  using num_from_header_id [of env h, OF assms] by (simp add: header_block_num_def)

definition env_reference :: "(nat, nat) fc_env" where
  "env_reference =
     \<lparr>hash_pair = \<lambda>(a, b). a\<lparr>hash1 := hash1 b, hash3 := hash3 a + hash2 b + 1\<rparr>,
      hash_header = \<lambda>h. \<lparr>hash0 = ucast (timestamp h), hash1 = producer h, hash2 = hash1 (previous h), hash3 = 5\<rparr>,
      hash_schedule = \<lambda>s. \<lparr>hash0 = ucast (version s), hash1 = of_nat (length (producers s)), hash2 = 0, hash3 = 0\<rparr>,
      recover_key = \<lambda>g d. Inr g,
      endian_reverse_u32 = byte_swap,
      pack_schedule = \<lambda>s. [ucast (version s)],
      unpack_schedule = \<lambda>bs. Inr \<lparr>version = ucast (hd bs), producers = []\<rparr>,
      pack_signatures = map of_nat,
      unpack_signatures = \<lambda>bs. Inr (map unat bs)\<rparr>"

lemma env_reference_endian: "endian_reverse_u32 env_reference (endian_reverse_u32 env_reference n) = n"
  by (simp add: env_reference_def byte_swap_involutive)

theorem block_num_in_id_witness:
  "num_from_id env_reference (header_id env_reference
     \<lparr>timestamp = 9, producer = 3, confirmed = 0, previous = \<lparr>hash0 = 0x01000000, hash1 = 1, hash2 = 2, hash3 = 3\<rparr>,
      transaction_mroot = digest_zero, action_mroot = digest_zero, schedule_version = 0, header_extensions = [],
      hdr_enable_standby_schedule = False, hdr_standby_schedule_block_num = None\<rparr>) =
   num_from_id env_reference \<lparr>hash0 = 0x01000000, hash1 = 1, hash2 = 2, hash3 = 3\<rparr> + 1"
  using block_num_in_id [of env_reference, OF env_reference_endian,
    of "\<lparr>timestamp = 9, producer = 3, confirmed = 0, previous = \<lparr>hash0 = 0x01000000, hash1 = 1, hash2 = 2, hash3 = 3\<rparr>,
      transaction_mroot = digest_zero, action_mroot = digest_zero, schedule_version = 0, header_extensions = [],
      hdr_enable_standby_schedule = False, hdr_standby_schedule_block_num = None\<rparr>"]
  by simp

end
