(* ===== verification/Block_Header_State.thy ===== *)
theory Block_Header_State
  imports Block_Header
begin

text \<open>
  The header state machine (\<^verbatim>\<open>block_header_state.hpp\<close>, \<^verbatim>\<open>block_header_state.cpp\<close>): which producer signs the
  next slot, how confirmations propose an irreversible block, how the last irreversible block follows
  from the proposals, how a pending producer schedule becomes active, and how a header is built,
  signed and checked.
\<close>

section \<open>State\<close>

record 'k block_header_state_common =
  block_num :: u32
  dpos_proposed_irreversible_blocknum :: u32
  dpos_irreversible_blocknum :: u32
  active_schedule :: "'k producer_authority_schedule"
  blockroot_merkle :: incremental_merkle
  producer_to_last_produced :: "(u64 \<times> u32) list"
  producer_to_last_implied_irb :: "(u64 \<times> u32) list"
  valid_block_signing_authority :: "'k block_signing_authority_v0"
  confirm_count :: "u8 list"
  enable_standby_schedule :: bool
  standby_schedule_block_num :: "u32 option"

record 'k schedule_info =
  schedule_lib_num :: u32
  schedule_hash :: digest
  schedule :: "'k producer_authority_schedule"

record 'k pending_block_header_state = "'k block_header_state_common" +
  prev_pending_schedule :: "'k schedule_info"
  was_pending_promoted :: bool
  pend_previous :: digest
  pend_producer :: u64
  pend_timestamp :: u32
  active_schedule_version :: u32
  pend_confirmed :: u16

record ('k, 'g) block_header_state = "'k block_header_state_common" +
  bhs_id :: digest
  header :: "'g signed_block_header"
  pending_schedule :: "'k schedule_info"
  additional_signatures :: "'g list"
  header_exts :: "(u16 \<times> 'k producer_authority_schedule) list"

definition producer_repetitions :: nat where
  "producer_repetitions = 12"

definition maximum_tracked_dpos_confirmations :: nat where
  "maximum_tracked_dpos_confirmations = 1024"

section \<open>Scheduling and irreversibility\<close>

definition get_scheduled_producer :: "('k, 'a) block_header_state_common_scheme \<Rightarrow> u32 \<Rightarrow> 'k producer_authority result" where
  "get_scheduled_producer s t =
     (let n = length (producers (active_schedule s));
          index = unat t mod (n * producer_repetitions);
          index = index div producer_repetitions
      in EOS_ASSERT (n > 0) undefined_behaviour (Inr (producers (active_schedule s) ! index)))"

text \<open>\<^verbatim>\<open>std::nth_element\<close> leaves at the position the element a full sort would put there.\<close>

definition calc_dpos_last_irreversible :: "('k, 'a) block_header_state_common_scheme \<Rightarrow> u64 \<Rightarrow> u32" where
  "calc_dpos_last_irreversible s producer_of_next_block =
     (let blocknums = map (\<lambda>i. if fst i = producer_of_next_block then dpos_proposed_irreversible_blocknum s else snd i)
            (producer_to_last_implied_irb s)
      in if length blocknums = 0 then 0
         else let index = (length blocknums - 1) div 3
              in sort blocknums ! index)"

text \<open>The vector of required confirmations, one entry for every block that is not yet proposed.\<close>

definition grow_confirm_count :: "u8 list \<Rightarrow> u8 \<Rightarrow> u8 list" where
  "grow_confirm_count cc required_confs =
     (if length cc < maximum_tracked_dpos_confirmations then cc @ [required_confs]
      else tl cc @ [required_confs])"

text \<open>
  The confirming loop, with \<open>i + 1\<close> as its counter: it counts down the entries of the confirmed blocks
  from the newest, and stops at the first that reaches zero, which is proposed as irreversible and
  dropped together with everything before it.
\<close>

fun confirm_loop :: "u32 \<Rightarrow> u32 \<Rightarrow> nat \<Rightarrow> u8 list \<Rightarrow> u32 \<Rightarrow> u8 list \<times> u32" where
  "confirm_loop num blocks_to_confirm 0 cc proposed = (cc, proposed)"
| "confirm_loop num blocks_to_confirm (Suc i) cc proposed =
     (if blocks_to_confirm = 0 then (cc, proposed)
      else let cc = cc[i := cc ! i - 1]
           in if cc ! i = 0
              then (if i = length cc - 1 then [] else drop (i + 1) cc, num - of_nat (length cc - 1 - i))
              else confirm_loop num (blocks_to_confirm - 1) i cc proposed)"

text \<open>The per-producer maps of a newly activated schedule.\<close>

definition promote_map :: "'k producer_authority list \<Rightarrow> u64 \<Rightarrow> u32 \<Rightarrow> u32 \<Rightarrow> (u64 \<times> u32) list \<Rightarrow> (u64 \<times> u32) list" where
  "promote_map pros signer own fallback old =
     foldl (\<lambda>m pro.
       if producer_name pro = signer then fm_set (producer_name pro) own m
       else case fm_find (producer_name pro) old of
              Some v \<Rightarrow> fm_set (producer_name pro) v m
            | None \<Rightarrow> fm_set (producer_name pro) fallback m) [] pros"

definition promotes_pending :: "('k, 'g) block_header_state \<Rightarrow> u32 \<Rightarrow> bool" where
  "promotes_pending s lib \<longleftrightarrow>
     length (producers (schedule (pending_schedule s))) \<noteq> 0 \<and>
     (lib \<ge> schedule_lib_num (pending_schedule s) \<or>
      enable_standby_schedule s \<and>
        (case standby_schedule_block_num s of None \<Rightarrow> False | Some n \<Rightarrow> n \<le> block_num s))"

text \<open>The state of the next block, once its slot, its producer and the appended tree are known.\<close>

definition next_result :: "('k, 'g) block_header_state \<Rightarrow> u32 \<Rightarrow> u16 \<Rightarrow> 'k producer_authority \<Rightarrow> incremental_merkle \<Rightarrow>
    'k pending_block_header_state" where
  "next_result s when num_prev_blocks_to_confirm proauth new_merkle =
     (let num = block_num s + 1;
          signer = producer_name proauth;
          required_confs = (of_nat (length (producers (active_schedule s)) * 2 div 3) :: u32) + 1;
          cc = grow_confirm_count (confirm_count s) (ucast required_confs);
          confirmed = confirm_loop num (ucast num_prev_blocks_to_confirm + 1) (length cc) cc
             (dpos_proposed_irreversible_blocknum s);
          lib = calc_dpos_last_irreversible s signer;
          promoted = promotes_pending s lib;
          act = (if promoted then schedule (pending_schedule s) else active_schedule s);
          last_produced = fm_set signer num
            (if promoted then promote_map (producers act) signer num lib (producer_to_last_produced s)
             else producer_to_last_produced s);
          implied =
            (if promoted
             then promote_map (producers act) signer (dpos_proposed_irreversible_blocknum s) lib
                    (producer_to_last_implied_irb s)
             else fm_set signer (dpos_proposed_irreversible_blocknum s) (producer_to_last_implied_irb s))
      in \<lparr>block_num = num,
          dpos_proposed_irreversible_blocknum = snd confirmed,
          dpos_irreversible_blocknum = lib,
          active_schedule = act,
          blockroot_merkle = new_merkle,
          producer_to_last_produced = last_produced,
          producer_to_last_implied_irb = implied,
          valid_block_signing_authority = pa_authority proauth,
          confirm_count = fst confirmed,
          enable_standby_schedule = enable_standby_schedule s,
          standby_schedule_block_num = standby_schedule_block_num s,
          prev_pending_schedule = pending_schedule s,
          was_pending_promoted = (promoted \<and> \<not> enable_standby_schedule s),
          pend_previous = bhs_id s,
          pend_producer = signer,
          pend_timestamp = when,
          active_schedule_version = version (active_schedule s),
          pend_confirmed = num_prev_blocks_to_confirm\<rparr>)"

text \<open>The comparison against double confirmation is made on 32-bit unsigned numbers.\<close>

definition not_double_confirming :: "('k, 'g) block_header_state \<Rightarrow> u64 \<Rightarrow> u16 \<Rightarrow> bool" where
  "not_double_confirming s signer num_prev_blocks_to_confirm =
     (case fm_find signer (producer_to_last_produced s) of
        None \<Rightarrow> True
      | Some last_produced \<Rightarrow> last_produced < (block_num s + 1) - ucast num_prev_blocks_to_confirm)"

definition bhs_next_pending :: "('k, 'g) fc_env \<Rightarrow> ('k, 'g) block_header_state \<Rightarrow> u32 \<Rightarrow> u16 \<Rightarrow>
    'k pending_block_header_state result" where
  "bhs_next_pending env s when num_prev_blocks_to_confirm =
     EOS_ASSERT (when = 0 \<or> when > timestamp (header s)) block_validate_exception
     (let when = (if when \<noteq> 0 then when else timestamp (header s) + 1)
      in bindR (get_scheduled_producer s when) (\<lambda>proauth.
         EOS_ASSERT (not_double_confirming s (producer_name proauth) num_prev_blocks_to_confirm) producer_double_confirm
         (bindR (append_im (hash_pair env) (bhs_id s) (blockroot_merkle s)) (\<lambda>(new_merkle, _).
            Inr (next_result s when num_prev_blocks_to_confirm proauth new_merkle)))))"

section \<open>Building and finishing a header\<close>

definition make_block_header :: "('k, 'g) fc_env \<Rightarrow> 'k pending_block_header_state \<Rightarrow> 'g \<Rightarrow> digest \<Rightarrow> digest \<Rightarrow>
    'k producer_authority_schedule option \<Rightarrow> bool \<Rightarrow> u32 option \<Rightarrow> 'g signed_block_header" where
  "make_block_header env p no_signature trx_mroot act_mroot new_producers standby standby_num =
     \<lparr>timestamp = pend_timestamp p, producer = pend_producer p, confirmed = pend_confirmed p,
      previous = pend_previous p, transaction_mroot = trx_mroot, action_mroot = act_mroot,
      schedule_version = active_schedule_version p,
      header_extensions = (case new_producers of
          None \<Rightarrow> []
        | Some np \<Rightarrow> emplace_extension [] schedule_change_id (pack_schedule env np)),
      hdr_enable_standby_schedule = standby, hdr_standby_schedule_block_num = standby_num,
      producer_signature = no_signature\<rparr>"

definition new_schedule_of :: "(u16 \<times> 'k producer_authority_schedule) list \<Rightarrow> 'k producer_authority_schedule option" where
  "new_schedule_of exts = map_of exts schedule_change_id"

definition finish_checks :: "'k pending_block_header_state \<Rightarrow> 'g signed_block_header \<Rightarrow> 'a result \<Rightarrow> 'a result" where
  "finish_checks p h k =
     EOS_ASSERT (timestamp h = pend_timestamp p) block_validate_exception
     (EOS_ASSERT (previous h = pend_previous p) unlinkable_block_exception
     (EOS_ASSERT (confirmed h = pend_confirmed p) block_validate_exception
     (EOS_ASSERT (producer h = pend_producer p) wrong_producer
     (EOS_ASSERT (schedule_version h = active_schedule_version p) producer_schedule_exception k))))"

definition finish_schedule :: "('k, 'g) fc_env \<Rightarrow> 'k pending_block_header_state \<Rightarrow> 'g signed_block_header \<Rightarrow>
    'k producer_authority_schedule option \<Rightarrow> 'k schedule_info result" where
  "finish_schedule env p h maybe_new =
     (case maybe_new of
        Some new \<Rightarrow>
          EOS_ASSERT (\<not> was_pending_promoted p) producer_schedule_exception
          (EOS_ASSERT (hdr_enable_standby_schedule h \<or> version new = version (active_schedule p) + 1)
             producer_schedule_exception
          (EOS_ASSERT (hdr_enable_standby_schedule h \<or> producers (schedule (prev_pending_schedule p)) = [])
             producer_schedule_exception
          (Inr \<lparr>schedule_lib_num = block_num p, schedule_hash = hash_schedule env new, schedule = new\<rparr>)))
      | None \<Rightarrow>
          Inr \<lparr>schedule_lib_num = schedule_lib_num (prev_pending_schedule p),
               schedule_hash = schedule_hash (prev_pending_schedule p),
               schedule = (if was_pending_promoted p
                 then \<lparr>version = version (schedule (prev_pending_schedule p)), producers = []\<rparr>
                 else schedule (prev_pending_schedule p))\<rparr>)"

definition finish_next_common :: "('k, 'g) fc_env \<Rightarrow> 'k pending_block_header_state \<Rightarrow> 'g signed_block_header \<Rightarrow>
    ('k, 'g) block_header_state result" where
  "finish_next_common env p h =
     finish_checks p h
     (bindR (validate_and_extract_header_extensions env h) (\<lambda>exts.
      bindR (finish_schedule env p h (new_schedule_of exts)) (\<lambda>pending.
        Inr (block_header_state_common.extend
          ((block_header_state_common.truncate p)\<lparr>enable_standby_schedule := hdr_enable_standby_schedule h,
             standby_schedule_block_num := hdr_standby_schedule_block_num h\<rparr>)
          (block_header_state.fields (header_id env h) h pending [] exts)))))"

definition sig_digest :: "('k, 'g) fc_env \<Rightarrow> ('k, 'g) block_header_state \<Rightarrow> digest" where
  "sig_digest env s =
     (let header_bmroot = hash_pair env (header_digest env (header s), get_root (blockroot_merkle s))
      in hash_pair env (header_bmroot, schedule_hash (pending_schedule s)))"

definition verify_signee :: "('k, 'g) fc_env \<Rightarrow> ('k, 'g) block_header_state \<Rightarrow> unit result" where
  "verify_signee env s =
     (let num_keys_in_authority = length (bsa_keys (valid_block_signing_authority s))
      in EOS_ASSERT (1 + length (additional_signatures s) \<le> num_keys_in_authority) wrong_signing_key
      (let d = sig_digest env s
       in bindR (recover_key env (producer_signature (header s)) d) (\<lambda>k.
          bindR (foldR (\<lambda>sg ks. bindR (recover_key env sg d) (\<lambda>k.
              EOS_ASSERT (k \<notin> set ks) wrong_signing_key (Inr (ks @ [k])))) (additional_signatures s) [k])
            (\<lambda>ks.
              let (is_satisfied, relevant_sig_count) = keys_satisfy_and_relevant ks (valid_block_signing_authority s)
              in EOS_ASSERT (relevant_sig_count = length ks) wrong_signing_key
                 (EOS_ASSERT is_satisfied wrong_signing_key (Inr ()))))))"

definition sign_header :: "('k, 'g) fc_env \<Rightarrow> ('k, 'g) block_header_state \<Rightarrow> (digest \<Rightarrow> 'g list result) \<Rightarrow>
    ('k, 'g) block_header_state result" where
  "sign_header env s signer =
     (let d = sig_digest env s
      in bindR (signer d) (\<lambda>sigs.
         EOS_ASSERT (sigs \<noteq> []) no_block_signatures
         (let s = s\<lparr>header := (header s)\<lparr>producer_signature := last sigs\<rparr>,
                    additional_signatures := butlast sigs\<rparr>
          in bindR (verify_signee env s) (\<lambda>_. Inr s))))"

definition finish_next :: "('k, 'g) fc_env \<Rightarrow> 'k pending_block_header_state \<Rightarrow> 'g signed_block_header \<Rightarrow>
    'g list \<Rightarrow> bool \<Rightarrow> ('k, 'g) block_header_state result" where
  "finish_next env p h sigs skip_validate_signee =
     bindR (finish_next_common env p h) (\<lambda>result.
       let result = (if sigs \<noteq> [] then result\<lparr>additional_signatures := sigs\<rparr> else result)
       in if skip_validate_signee then Inr result
          else bindR (verify_signee env result) (\<lambda>_. Inr result))"

definition finish_next_signed :: "('k, 'g) fc_env \<Rightarrow> 'k pending_block_header_state \<Rightarrow> 'g signed_block_header \<Rightarrow>
    (digest \<Rightarrow> 'g list result) \<Rightarrow> ('g signed_block_header \<times> ('k, 'g) block_header_state) result" where
  "finish_next_signed env p h signer =
     bindR (finish_next_common env p h) (\<lambda>result.
     bindR (sign_header env result signer) (\<lambda>result.
       Inr (h\<lparr>producer_signature := producer_signature (header result)\<rparr>, result)))"

definition bhs_next :: "('k, 'g) fc_env \<Rightarrow> ('k, 'g) block_header_state \<Rightarrow> 'g signed_block_header \<Rightarrow> 'g list \<Rightarrow> bool \<Rightarrow>
    ('k, 'g) block_header_state result" where
  "bhs_next env s h sigs skip_validate_signee =
     bindR (bhs_next_pending env s (timestamp h) (confirmed h)) (\<lambda>p.
       finish_next env p h sigs skip_validate_signee)"

definition has_pending_producers :: "('k, 'g) block_header_state \<Rightarrow> bool" where
  "has_pending_producers s \<longleftrightarrow> length (producers (schedule (pending_schedule s))) \<noteq> 0"

section \<open>Order statistics\<close>

lemma length_filter_sort: "length (filter P (sort xs)) = length (filter P (xs :: 'a :: linorder list))"
  by (metis filter_sort length_sort)

lemma sort_nth_count:
  fixes xs :: "'a :: linorder list"
  assumes "i < length xs"
  shows "length xs - i \<le> length (filter (\<lambda>x. sort xs ! i \<le> x) xs)"
proof -
  let ?P = "\<lambda>x. sort xs ! i \<le> x"
  have "filter ?P (drop i (sort xs)) = drop i (sort xs)"
    using assms by (intro filter_True) (auto simp: in_set_conv_nth intro!: sorted_nth_mono)
  then have "length (drop i (sort xs)) \<le> length (filter ?P (take i (sort xs) @ drop i (sort xs)))"
    by (simp only: filter_append length_append)
  then show ?thesis by (simp add: length_filter_sort)
qed

lemma sort_nth_maximal:
  fixes xs :: "'a :: linorder list"
  assumes "i < length xs" "sort xs ! i < w"
  shows "length (filter (\<lambda>x. w \<le> x) xs) < length xs - i"
proof -
  have "\<not> w \<le> x" if "x \<in> set (take (Suc i) (sort xs))" for x
  proof -
    from that obtain j where "j < length (take (Suc i) (sort xs))" "x = take (Suc i) (sort xs) ! j"
      by (metis in_set_conv_nth)
    then have "j \<le> i" "x = sort xs ! j" by simp_all
    then have "x \<le> sort xs ! i" using assms(1) by (auto intro: sorted_nth_mono)
    then show ?thesis using assms(2) by simp
  qed
  then have "filter (\<lambda>x. w \<le> x) (take (Suc i) (sort xs)) = []" by (simp add: filter_empty_conv)
  then have "length (filter (\<lambda>x. w \<le> x) (take (Suc i) (sort xs) @ drop (Suc i) (sort xs))) \<le>
      length (drop (Suc i) (sort xs))"
    unfolding filter_append using length_filter_le [of _ "drop (Suc i) (sort xs)"] by simp
  then show ?thesis using assms(1) by (simp add: length_filter_sort)
qed

lemma sort_nth_mono:
  fixes xs ys :: "'a :: linorder list"
  assumes "list_all2 (\<le>) xs ys" "i < length xs"
  shows "sort xs ! i \<le> sort ys ! i"
proof (rule ccontr)
  define v where "v = sort xs ! i"
  assume "\<not> sort xs ! i \<le> sort ys ! i"
  moreover have len: "length ys = length xs" using assms(1) by (simp add: list_all2_lengthD)
  ultimately have "length (filter (\<lambda>x. v \<le> x) ys) < length xs - i"
    using sort_nth_maximal [of i ys v] assms(2) by (simp add: v_def)
  moreover have "length (filter (\<lambda>x. v \<le> x) xs) \<le> length (filter (\<lambda>x. v \<le> x) ys)"
    using assms(1) by (induction rule: list_all2_induct) auto
  ultimately show False using sort_nth_count [OF assms(2)] by (simp add: v_def)
qed

definition implied_after :: "('k, 'a) block_header_state_common_scheme \<Rightarrow> u64 \<Rightarrow> u32 list" where
  "implied_after s p = map (\<lambda>i. if fst i = p then dpos_proposed_irreversible_blocknum s else snd i)
     (producer_to_last_implied_irb s)"

lemma calc_dpos_eq:
  "calc_dpos_last_irreversible s p =
     (if implied_after s p = [] then 0 else sort (implied_after s p) ! ((length (implied_after s p) - 1) div 3))"
  by (simp add: calc_dpos_last_irreversible_def implied_after_def Let_def)

lemma calc_dpos_le:
  assumes "\<And>q v. (q, v) \<in> set (producer_to_last_implied_irb s) \<Longrightarrow> v \<le> b" "dpos_proposed_irreversible_blocknum s \<le> b"
  shows "calc_dpos_last_irreversible s p \<le> b"
proof (cases "implied_after s p = []")
  case False
  then have "sort (implied_after s p) ! ((length (implied_after s p) - 1) div 3) \<in> set (sort (implied_after s p))"
    by (intro nth_mem) (cases "implied_after s p", auto)
  then have "sort (implied_after s p) ! ((length (implied_after s p) - 1) div 3) \<in> set (implied_after s p)" by simp
  then show ?thesis using assms False by (auto simp: calc_dpos_eq implied_after_def)
next
  case True
  then show ?thesis by (simp add: calc_dpos_eq)
qed

section \<open>Confirmations\<close>

lemma confirm_loop_bounds:
  assumes "confirm_loop num b i cc pr = (cc', pr')" "i \<le> length cc" "unat pr + length cc \<le> unat num"
  shows "unat pr' + length cc' \<le> unat num \<and> unat pr \<le> unat pr' \<and> length cc' \<le> length cc"
  using assms
proof (induction num b i cc pr rule: confirm_loop.induct)
  case (2 num b i cc pr)
  let ?cc = "cc[i := cc ! i - 1]"
  show ?case
  proof (cases "b \<noteq> 0 \<and> ?cc ! i = 0")
    case True
    let ?k = "length cc - 1 - i"
    have "cc' = drop (Suc i) ?cc" "pr' = num - of_nat ?k"
      using "2.prems"(1) True by (auto simp: Let_def split: if_splits)
    moreover have k: "?k \<le> unat num" using "2.prems"(3) by simp
    then have "unat (of_nat ?k :: u32) = ?k"
      using unsigned_less [of num, where ?'a = nat] by (simp add: unsigned_of_nat take_bit_nat_eq_self)
    then have "unat (num - of_nat ?k) = unat num - ?k"
      using k by (subst unat_sub) (simp_all add: word_le_nat_alt)
    ultimately show ?thesis using "2.prems"(2, 3) by auto
  next
    case False
    then show ?thesis
      using 2 by (auto simp: Let_def split: if_splits)
  qed
qed simp

lemma grow_confirm_count_length:
  "length cc \<le> maximum_tracked_dpos_confirmations \<Longrightarrow>
     length (grow_confirm_count cc r) \<le> min (length cc + 1) maximum_tracked_dpos_confirmations"
  by (auto simp: grow_confirm_count_def maximum_tracked_dpos_confirmations_def)

section \<open>The maps of a promoted schedule\<close>

lemma promote_map_step:
  "foldl (\<lambda>m pro. if producer_name pro = signer then fm_set (producer_name pro) own m
     else case fm_find (producer_name pro) old of Some v \<Rightarrow> fm_set (producer_name pro) v m
       | None \<Rightarrow> fm_set (producer_name pro) fallback m) m pros =
   foldl (\<lambda>m pro. fm_set (producer_name pro)
     (if producer_name pro = signer then own else
        case fm_find (producer_name pro) old of Some v \<Rightarrow> v | None \<Rightarrow> fallback) m) m pros"
  by (rule arg_cong [where f = "\<lambda>f. foldl f m pros"]) (auto simp: fun_eq_iff split: option.split)

lemma foldl_fm_set_find:
  "fm_find k (foldl (\<lambda>m pro. fm_set (nm pro) (val pro) m) m pros) =
     (case find (\<lambda>pro. nm pro = k) (rev pros) of Some pro \<Rightarrow> Some (val pro) | None \<Rightarrow> fm_find k m)"
  by (induction pros arbitrary: m rule: rev_induct) (auto simp: fm.find_put)

lemma foldl_fm_set_ok:
  "fm_ok m \<Longrightarrow> fm_ok (foldl (\<lambda>m pro. fm_set (nm pro) (val pro) m) m pros)"
  by (induction pros arbitrary: m) (simp_all add: fm.ok_put)

lemma fm_ok_member: "fm_ok m \<Longrightarrow> (k, v) \<in> set m \<longleftrightarrow> fm_find k m = Some v"
  using fm_in_set_find fm_find_Some_in_set by metis

lemma promote_map_find:
  assumes "fm_find k (promote_map pros signer own fallback old) = Some v"
  shows "v = own \<or> v = fallback \<or> fm_find k old = Some v"
  using assms unfolding promote_map_def promote_map_step foldl_fm_set_find
  by (auto split: option.splits if_splits simp: find_Some_iff)

lemma promote_map_ok: "fm_ok (promote_map pros signer own fallback old)"
  unfolding promote_map_def promote_map_step by (rule foldl_fm_set_ok) simp

lemma promote_map_dom:
  assumes "pro \<in> set pros"
  shows "fm_find (producer_name pro) (promote_map pros signer own fallback old) \<noteq> None"
  using assms unfolding promote_map_def promote_map_step foldl_fm_set_find
  by (auto simp: find_None_iff split: option.splits)

section \<open>The invariant\<close>

text \<open>
  The invariant has two parts. The numbers and the maps are consistent in every state, the genesis
  state included. That every active producer has an entry in the map of implied irreversible blocks
  holds from block 2 on: the genesis state starts with empty maps, and the first block fills them.
\<close>

definition bhs_tracked :: "('k, 'g) fc_env \<Rightarrow> ('k, 'g) block_header_state \<Rightarrow> bool" where
  "bhs_tracked env s \<longleftrightarrow>
     num_from_id env (bhs_id s) = block_num s \<and>
     length (confirm_count s) \<le> maximum_tracked_dpos_confirmations \<and>
     unat (dpos_proposed_irreversible_blocknum s) + length (confirm_count s) \<le> unat (block_num s) \<and>
     dpos_irreversible_blocknum s \<le> dpos_proposed_irreversible_blocknum s \<and>
     fm_ok (producer_to_last_implied_irb s) \<and> fm_ok (producer_to_last_produced s) \<and>
     list_all (\<lambda>(p, v). v \<le> dpos_proposed_irreversible_blocknum s) (producer_to_last_implied_irb s) \<and>
     list_all (\<lambda>(p, v). v \<le> block_num s) (producer_to_last_produced s)"

definition all_implied :: "('k, 'a) block_header_state_common_scheme \<Rightarrow> bool" where
  "all_implied s \<longleftrightarrow> list_all (\<lambda>pro. fm_find (producer_name pro) (producer_to_last_implied_irb s) \<noteq> None)
     (producers (active_schedule s))"

definition bhs_ok :: "('k, 'g) fc_env \<Rightarrow> ('k, 'g) block_header_state \<Rightarrow> bool" where
  "bhs_ok env s \<longleftrightarrow>
     num_from_id env (bhs_id s) = block_num s \<and>
     length (confirm_count s) \<le> maximum_tracked_dpos_confirmations \<and>
     unat (dpos_proposed_irreversible_blocknum s) + length (confirm_count s) \<le> unat (block_num s) \<and>
     dpos_irreversible_blocknum s \<le> dpos_proposed_irreversible_blocknum s \<and>
     fm_ok (producer_to_last_implied_irb s) \<and> fm_ok (producer_to_last_produced s) \<and>
     list_all (\<lambda>(p, v). v \<le> dpos_proposed_irreversible_blocknum s) (producer_to_last_implied_irb s) \<and>
     list_all (\<lambda>(p, v). v \<le> block_num s) (producer_to_last_produced s) \<and>
     list_all (\<lambda>pro. fm_find (producer_name pro) (producer_to_last_implied_irb s) \<noteq> None)
       (producers (active_schedule s))"

lemma bhs_ok_eq: "bhs_ok env s \<longleftrightarrow> bhs_tracked env s \<and> all_implied s"
  by (auto simp: bhs_ok_def bhs_tracked_def all_implied_def)

lemma list_all_fm: "fm_ok m \<Longrightarrow> list_all (\<lambda>(p, v). P v) m \<longleftrightarrow> (\<forall>k v. fm_find k m = Some v \<longrightarrow> P v)"
  by (auto simp: list_all_iff fm_ok_member)

lemma bhs_next_pendingE:
  assumes "bhs_next_pending env s when conf = Inr p"
  obtains t pro m d where
    "t = (if when \<noteq> 0 then when else timestamp (header s) + 1)" "when = 0 \<or> when > timestamp (header s)"
    "get_scheduled_producer s t = Inr pro" "not_double_confirming s (producer_name pro) conf"
    "append_im (hash_pair env) (bhs_id s) (blockroot_merkle s) = Inr (m, d)" "p = next_result s t conf pro m"
  using assms by (auto simp: bhs_next_pending_def Let_def)

lemma next_result_simps [simp]:
  "block_num (next_result s t conf pro m) = block_num s + 1"
  "blockroot_merkle (next_result s t conf pro m) = m"
  "dpos_irreversible_blocknum (next_result s t conf pro m) = calc_dpos_last_irreversible s (producer_name pro)"
  "valid_block_signing_authority (next_result s t conf pro m) = pa_authority pro"
  "prev_pending_schedule (next_result s t conf pro m) = pending_schedule s"
  "pend_previous (next_result s t conf pro m) = bhs_id s"
  "pend_producer (next_result s t conf pro m) = producer_name pro"
  "pend_timestamp (next_result s t conf pro m) = t"
  "pend_confirmed (next_result s t conf pro m) = conf"
  "active_schedule_version (next_result s t conf pro m) = version (active_schedule s)"
  by (simp_all add: next_result_def Let_def)

lemma unat_plus_one: "x \<noteq> - 1 \<Longrightarrow> unat (x + 1 :: 'a :: len word) = Suc (unat x)"
proof -
  assume "x \<noteq> - 1"
  then have "unat x \<noteq> 2 ^ LENGTH('a) - 1" by (simp add: word_unat_eq_iff unat_max_word)
  moreover have "unat x < 2 ^ LENGTH('a)" by (rule unsigned_less)
  ultimately have "Suc (unat x) < 2 ^ LENGTH('a)" by linarith
  then show ?thesis using unat_plus_no_wrap [of x 1] by simp
qed

lemma next_result_bounds:
  assumes ok: "bhs_tracked env s" and room: "block_num s \<noteq> - 1" and p_def: "p = next_result s t conf pro m"
  shows "unat (block_num p) = Suc (unat (block_num s))"
    and "unat (dpos_proposed_irreversible_blocknum p) + length (confirm_count p) \<le> unat (block_num p)"
    and "dpos_proposed_irreversible_blocknum s \<le> dpos_proposed_irreversible_blocknum p"
    and "length (confirm_count p) \<le> maximum_tracked_dpos_confirmations"
    and "dpos_irreversible_blocknum p \<le> dpos_proposed_irreversible_blocknum s"
proof -
  have num: "unat (block_num s + 1) = Suc (unat (block_num s))"
    using room by (rule unat_plus_one)
  then show "unat (block_num p) = Suc (unat (block_num s))" by (simp add: p_def)
  let ?pr = "dpos_proposed_irreversible_blocknum s"
  obtain r where cl: "confirm_loop (block_num s + 1) (ucast conf + 1) (length (grow_confirm_count (confirm_count s) r))
      (grow_confirm_count (confirm_count s) r) ?pr = (confirm_count p, dpos_proposed_irreversible_blocknum p)"
    by (simp add: p_def next_result_def Let_def)
  have cc: "length (grow_confirm_count (confirm_count s) r) \<le> min (length (confirm_count s) + 1) maximum_tracked_dpos_confirmations"
    using ok by (intro grow_confirm_count_length) (simp add: bhs_tracked_def)
  moreover have "unat ?pr + length (confirm_count s) \<le> unat (block_num s)" using ok by (simp add: bhs_tracked_def)
  ultimately have "unat ?pr + length (grow_confirm_count (confirm_count s) r) \<le> unat (block_num s + 1)"
    using num by simp
  from confirm_loop_bounds [OF cl order.refl this] cc
  show "unat (dpos_proposed_irreversible_blocknum p) + length (confirm_count p) \<le> unat (block_num p)"
    "?pr \<le> dpos_proposed_irreversible_blocknum p"
    "length (confirm_count p) \<le> maximum_tracked_dpos_confirmations"
    by (simp_all add: p_def word_le_nat_alt)
  show "dpos_irreversible_blocknum p \<le> ?pr"
    unfolding p_def next_result_simps
    using ok by (intro calc_dpos_le) (auto simp: bhs_tracked_def list_all_iff)
qed

lemma fm_set_bounded:
  assumes "fm_ok m" "list_all (\<lambda>(p, v). v \<le> b) m" "v' \<le> b"
  shows "fm_ok (fm_set k v' m) \<and> list_all (\<lambda>(p, v :: u32). v \<le> b) (fm_set k v' m)"
  using assms fm.ok_put [OF assms(1), of k v'] by (auto simp: list_all_fm fm.find_put split: if_splits)

lemma promote_map_bounded:
  assumes "fm_ok old" "list_all (\<lambda>(p, v). v \<le> b) old" "own \<le> b" "fallback \<le> (b :: u32)"
  shows "list_all (\<lambda>(p, v). v \<le> b) (promote_map pros signer own fallback old)"
  using assms promote_map_find [of _ pros signer own fallback old]
  by (fastforce simp: list_all_fm promote_map_ok)

lemma list_all_weaken: "list_all (\<lambda>(p, v). v \<le> a) m \<Longrightarrow> a \<le> (b :: u32) \<Longrightarrow> list_all (\<lambda>(p, v). v \<le> b) m"
  by (auto simp: list_all_iff)

lemma next_result_maps:
  assumes ok: "bhs_tracked env s" and room: "block_num s \<noteq> - 1" and p_def: "p = next_result s t conf pro m"
  shows "fm_ok (producer_to_last_implied_irb p)" "fm_ok (producer_to_last_produced p)"
    and "list_all (\<lambda>(p, v). v \<le> dpos_proposed_irreversible_blocknum s) (producer_to_last_implied_irb p)"
    and "list_all (\<lambda>(q, v). v \<le> block_num p) (producer_to_last_produced p)"
    and "all_implied s \<or> promotes_pending s (calc_dpos_last_irreversible s (producer_name pro)) \<Longrightarrow> all_implied p"
proof -
  let ?signer = "producer_name pro" and ?pr = "dpos_proposed_irreversible_blocknum s"
  let ?lib = "calc_dpos_last_irreversible s ?signer"
  note b = next_result_bounds [OF ok room p_def]
  have old: "fm_ok (producer_to_last_implied_irb s)" "fm_ok (producer_to_last_produced s)"
    "list_all (\<lambda>(p, v). v \<le> ?pr) (producer_to_last_implied_irb s)"
    "list_all (\<lambda>(p, v). v \<le> block_num s) (producer_to_last_produced s)"
    using ok by (simp_all add: bhs_tracked_def)
  have lib: "?lib \<le> ?pr" using b(5) by (simp add: p_def)
  have le: "block_num s \<le> block_num p" "?pr \<le> block_num p"
    using b(1) ok by (auto simp: word_le_nat_alt bhs_tracked_def)
  have implied: "producer_to_last_implied_irb p =
      (if promotes_pending s ?lib then promote_map (producers (schedule (pending_schedule s))) ?signer ?pr ?lib (producer_to_last_implied_irb s)
       else fm_set ?signer ?pr (producer_to_last_implied_irb s))"
    "producer_to_last_produced p = fm_set ?signer (block_num p)
      (if promotes_pending s ?lib
       then promote_map (producers (schedule (pending_schedule s))) ?signer (block_num p) ?lib (producer_to_last_produced s)
       else producer_to_last_produced s)"
    "active_schedule p = (if promotes_pending s ?lib then schedule (pending_schedule s) else active_schedule s)"
    by (simp_all add: p_def next_result_def Let_def)
  show "fm_ok (producer_to_last_implied_irb p)" "list_all (\<lambda>(p, v). v \<le> ?pr) (producer_to_last_implied_irb p)"
    using old lib by (simp_all add: implied(1) promote_map_ok promote_map_bounded fm_set_bounded)
  have "list_all (\<lambda>(q, v). v \<le> block_num p) (producer_to_last_produced s)"
    using list_all_weaken [OF old(4) le(1)] by simp
  then show "fm_ok (producer_to_last_produced p)" "list_all (\<lambda>(q, v). v \<le> block_num p) (producer_to_last_produced p)"
    using old lib le
    by (simp_all add: implied(2) fm.ok_put promote_map_ok promote_map_bounded fm_set_bounded)
  show "all_implied p" if "all_implied s \<or> promotes_pending s ?lib"
    using that promote_map_dom by (auto simp: all_implied_def implied list_all_iff fm.find_put)
qed

section \<open>Finishing a header\<close>

lemma finish_next_commonE:
  assumes "finish_next_common env p h = Inr r"
  obtains exts pending where
    "timestamp h = pend_timestamp p" "previous h = pend_previous p" "confirmed h = pend_confirmed p"
    "producer h = pend_producer p" "schedule_version h = active_schedule_version p"
    "validate_and_extract_header_extensions env h = Inr exts"
    "finish_schedule env p h (new_schedule_of exts) = Inr pending"
    "r = block_header_state_common.extend
       ((block_header_state_common.truncate p)\<lparr>enable_standby_schedule := hdr_enable_standby_schedule h,
          standby_schedule_block_num := hdr_standby_schedule_block_num h\<rparr>)
       (block_header_state.fields (header_id env h) h pending [] exts)"
  using assms by (auto simp: finish_next_common_def finish_checks_def)

lemma finished_fields [simp]:
  fixes p :: "'k pending_block_header_state"
  defines "r \<equiv> \<lambda>b n. block_header_state_common.extend
      ((block_header_state_common.truncate p)\<lparr>enable_standby_schedule := b, standby_schedule_block_num := n\<rparr>)"
  shows "block_num (r b n x) = block_num p"
    "dpos_proposed_irreversible_blocknum (r b n x) = dpos_proposed_irreversible_blocknum p"
    "dpos_irreversible_blocknum (r b n x) = dpos_irreversible_blocknum p"
    "active_schedule (r b n x) = active_schedule p"
    "blockroot_merkle (r b n x) = blockroot_merkle p"
    "producer_to_last_produced (r b n x) = producer_to_last_produced p"
    "producer_to_last_implied_irb (r b n x) = producer_to_last_implied_irb p"
    "valid_block_signing_authority (r b n x) = valid_block_signing_authority p"
    "confirm_count (r b n x) = confirm_count p"
  by (simp_all add: r_def block_header_state_common.defs)

lemma finished_new_fields [simp]:
  "bhs_id (block_header_state_common.extend c (block_header_state.fields i h ps sg ex)) = i"
  "header (block_header_state_common.extend c (block_header_state.fields i h ps sg ex)) = h"
  "pending_schedule (block_header_state_common.extend c (block_header_state.fields i h ps sg ex)) = ps"
  "additional_signatures (block_header_state_common.extend c (block_header_state.fields i h ps sg ex)) = sg"
  "header_exts (block_header_state_common.extend c (block_header_state.fields i h ps sg ex)) = ex"
  by (simp_all add: block_header_state_common.defs block_header_state.defs)

text \<open>What one accepted header does to the state.\<close>

lemma bhs_nextE:
  assumes "bhs_next env s h sigs skip = Inr s'"
  obtains t pro m d where
    "t = (if timestamp h \<noteq> 0 then timestamp h else timestamp (header s) + 1)"
    "timestamp h = 0 \<or> timestamp h > timestamp (header s)"
    "get_scheduled_producer s t = Inr pro" "not_double_confirming s (producer_name pro) (confirmed h)"
    "append_im (hash_pair env) (bhs_id s) (blockroot_merkle s) = Inr (m, d)"
    "bhs_id s' = header_id env h" "header s' = h" "previous h = bhs_id s" "producer h = producer_name pro"
    "timestamp h = t"
    "let p = next_result s t (confirmed h) pro m in
       block_num s' = block_num p \<and>
       dpos_proposed_irreversible_blocknum s' = dpos_proposed_irreversible_blocknum p \<and>
       dpos_irreversible_blocknum s' = dpos_irreversible_blocknum p \<and>
       active_schedule s' = active_schedule p \<and> blockroot_merkle s' = blockroot_merkle p \<and>
       producer_to_last_produced s' = producer_to_last_produced p \<and>
       producer_to_last_implied_irb s' = producer_to_last_implied_irb p \<and>
       valid_block_signing_authority s' = valid_block_signing_authority p \<and>
       confirm_count s' = confirm_count p"
proof -
  obtain p where p: "bhs_next_pending env s (timestamp h) (confirmed h) = Inr p"
    and f: "finish_next env p h sigs skip = Inr s'"
    using assms by (auto simp: bhs_next_def)
  obtain r where r: "finish_next_common env p h = Inr r"
    and s': "s' = (if sigs \<noteq> [] then r\<lparr>additional_signatures := sigs\<rparr> else r)"
    using f by (auto simp: finish_next_def Let_def split: if_splits)
  from p obtain t pro m d where n:
    "t = (if timestamp h \<noteq> 0 then timestamp h else timestamp (header s) + 1)"
    "timestamp h = 0 \<or> timestamp h > timestamp (header s)"
    "get_scheduled_producer s t = Inr pro" "not_double_confirming s (producer_name pro) (confirmed h)"
    "append_im (hash_pair env) (bhs_id s) (blockroot_merkle s) = Inr (m, d)"
    and pn: "p = next_result s t (confirmed h) pro m"
    by (rule bhs_next_pendingE)
  from r obtain exts pending where c: "timestamp h = pend_timestamp p" "previous h = pend_previous p"
    "producer h = pend_producer p"
    and req: "r = block_header_state_common.extend
       ((block_header_state_common.truncate p)\<lparr>enable_standby_schedule := hdr_enable_standby_schedule h,
          standby_schedule_block_num := hdr_standby_schedule_block_num h\<rparr>)
       (block_header_state.fields (header_id env h) h pending [] exts)"
    by (rule finish_next_commonE)
  have "bhs_id s' = header_id env h" "header s' = h" by (simp_all add: s' req)
  moreover have "previous h = bhs_id s" "producer h = producer_name pro" "timestamp h = t"
    using c by (simp_all add: pn)
  moreover have "block_num s' = block_num p"
    "dpos_proposed_irreversible_blocknum s' = dpos_proposed_irreversible_blocknum p"
    "dpos_irreversible_blocknum s' = dpos_irreversible_blocknum p"
    "active_schedule s' = active_schedule p" "blockroot_merkle s' = blockroot_merkle p"
    "producer_to_last_produced s' = producer_to_last_produced p"
    "producer_to_last_implied_irb s' = producer_to_last_implied_irb p"
    "valid_block_signing_authority s' = valid_block_signing_authority p"
    "confirm_count s' = confirm_count p"
    by (simp_all add: s' req)
  ultimately show ?thesis using n unfolding pn by (intro that) (simp_all only: Let_def simp_thms)
qed

lemma bhs_next_tracked:
  assumes "bhs_tracked env s" "bhs_next env s h sigs skip = Inr s'" "block_num s \<noteq> - 1"
    and "\<And>n. endian_reverse_u32 env (endian_reverse_u32 env n) = n"
  shows "bhs_tracked env s'"
    "all_implied s \<or> promotes_pending s (calc_dpos_last_irreversible s (producer h)) \<Longrightarrow> all_implied s'"
    "unat (block_num s') = Suc (unat (block_num s))"
    "dpos_proposed_irreversible_blocknum s \<le> dpos_proposed_irreversible_blocknum s'"
    "dpos_irreversible_blocknum s' \<le> dpos_proposed_irreversible_blocknum s"
proof -
  from assms(2) obtain t pro m d where n: "bhs_id s' = header_id env h" "previous h = bhs_id s"
    and pro: "producer h = producer_name pro"
    and "let p = next_result s t (confirmed h) pro m in
       block_num s' = block_num p \<and>
       dpos_proposed_irreversible_blocknum s' = dpos_proposed_irreversible_blocknum p \<and>
       dpos_irreversible_blocknum s' = dpos_irreversible_blocknum p \<and>
       active_schedule s' = active_schedule p \<and> blockroot_merkle s' = blockroot_merkle p \<and>
       producer_to_last_produced s' = producer_to_last_produced p \<and>
       producer_to_last_implied_irb s' = producer_to_last_implied_irb p \<and>
       valid_block_signing_authority s' = valid_block_signing_authority p \<and>
       confirm_count s' = confirm_count p"
    by (elim bhs_nextE)
  then obtain p where p: "p = next_result s t (confirmed h) pro m"
    and eq: "block_num s' = block_num p"
      "dpos_proposed_irreversible_blocknum s' = dpos_proposed_irreversible_blocknum p"
      "dpos_irreversible_blocknum s' = dpos_irreversible_blocknum p"
      "active_schedule s' = active_schedule p"
      "producer_to_last_produced s' = producer_to_last_produced p"
      "producer_to_last_implied_irb s' = producer_to_last_implied_irb p"
      "confirm_count s' = confirm_count p"
    by (simp add: Let_def)
  note b = next_result_bounds [OF assms(1, 3) p] and m = next_result_maps [OF assms(1, 3) p]
  have "num_from_id env (bhs_id s') = num_from_id env (bhs_id s) + 1"
    using num_from_header_id [of env h, OF assms(4)] n by (simp add: header_block_num_def)
  then have "num_from_id env (bhs_id s') = block_num s'"
    using assms(1) eq(1) p by (simp add: bhs_tracked_def)
  then show "bhs_tracked env s'"
    using b m list_all_weaken [OF m(3) b(3)] order.trans [OF b(5) b(3)] by (simp add: bhs_tracked_def eq)
  show "all_implied s'" if "all_implied s \<or> promotes_pending s (calc_dpos_last_irreversible s (producer h))"
    using m(5) that by (simp add: pro all_implied_def eq)
  show "unat (block_num s') = Suc (unat (block_num s))"
    "dpos_proposed_irreversible_blocknum s \<le> dpos_proposed_irreversible_blocknum s'"
    "dpos_irreversible_blocknum s' \<le> dpos_proposed_irreversible_blocknum s"
    using b by (simp_all add: eq)
qed

lemma bhs_next_ok:
  assumes "bhs_ok env s" "bhs_next env s h sigs skip = Inr s'" "block_num s \<noteq> - 1"
    and "\<And>n. endian_reverse_u32 env (endian_reverse_u32 env n) = n"
  shows "bhs_ok env s'" "unat (block_num s') = Suc (unat (block_num s))"
    "dpos_proposed_irreversible_blocknum s \<le> dpos_proposed_irreversible_blocknum s'"
    "dpos_irreversible_blocknum s' \<le> dpos_proposed_irreversible_blocknum s"
proof -
  have "bhs_tracked env s" "all_implied s" using assms(1) by (simp_all add: bhs_ok_eq)
  note next_tracked = bhs_next_tracked [OF this(1) assms(2-)]
  show "bhs_ok env s'" using next_tracked(1, 2) \<open>all_implied s\<close> by (simp add: bhs_ok_eq)
  show "unat (block_num s') = Suc (unat (block_num s))"
    "dpos_proposed_irreversible_blocknum s \<le> dpos_proposed_irreversible_blocknum s'"
    "dpos_irreversible_blocknum s' \<le> dpos_proposed_irreversible_blocknum s"
    using next_tracked(3-) by simp_all
qed

end
