(* ===== verification/Fork_Database.thy ===== *)
theory Fork_Database
  imports Block_Header_State "HOL-Library.Product_Lexorder"
begin

text \<open>
  Block states (\<^verbatim>\<open>block_state.hpp\<close>, \<^verbatim>\<open>block_state.cpp\<close>) and the tree of blocks that are not yet
  irreversible (\<^verbatim>\<open>fork_database.cpp\<close>): insertion, validation, choice of the head, removal of branches,
  advancing the root, walking branches, and writing the tree to a file and reading it back.

  Block states are shared by pointer and identified by their ids. The index owns them; the head is a
  pointer and is modelled by the id of the state it points to. Loops that follow links between blocks
  are partial: a loop that does not end has the value \<open>None\<close>. An exception is modelled without the state
  it leaves behind. That matters for \<^verbatim>\<open>advance_root\<close> only, which erases the new root before it can throw
  on a head outside the kept branch: what the code is left with then is not followed further.
\<close>

section \<open>Block states\<close>

record ('k, 'g, 't, 'm) block_state = "('k, 'g) block_header_state" +
  block :: "('g, 't) signed_block option"
  validated :: bool
  pub_keys_recovered :: bool
  cached_trxs :: "'m list"

definition extract_additional_signatures :: "('k, 'g) fc_env \<Rightarrow> ('g, 't) signed_block \<Rightarrow> 'g list result" where
  "extract_additional_signatures env b =
     bindR (validate_and_extract_extensions env b) (\<lambda>exts.
       Inr (case map_of exts additional_sigs_eid of Some sigs \<Rightarrow> sigs | None \<Rightarrow> []))"

definition inject_additional_signatures :: "('k, 'g) fc_env \<Rightarrow> 'k pending_block_header_state \<Rightarrow> ('g, 't) signed_block \<Rightarrow>
    (digest \<Rightarrow> 'g list result) \<Rightarrow> (('k, 'g) block_header_state \<times> ('g, 't) signed_block) result" where
  "inject_additional_signatures env cur b signer =
     bindR (finish_next_signed env cur (signed_block_header.truncate b) signer) (\<lambda>(h, result).
       let b = b\<lparr>producer_signature := producer_signature h\<rparr>
       in Inr (result,
            if additional_signatures result \<noteq> []
            then b\<lparr>block_extensions := emplace_extension (block_extensions b) additional_sigs_eid
                     (pack_signatures env (additional_signatures result))\<rparr>
            else b))"

definition make_block_state :: "('k, 'g) block_header_state \<Rightarrow> ('g, 't) signed_block option \<Rightarrow> bool \<Rightarrow> bool \<Rightarrow> 'm list \<Rightarrow>
    ('k, 'g, 't, 'm) block_state" where
  "make_block_state s b v recovered trxs =
     block_header_state.extend s (block_state.fields b v recovered trxs)"

definition block_state_of_block :: "('k, 'g) fc_env \<Rightarrow> ('k, 'g) block_header_state \<Rightarrow> ('g, 't) signed_block \<Rightarrow> bool \<Rightarrow>
    ('k, 'g, 't, 'm) block_state result" where
  "block_state_of_block env prev b skip_validate_signee =
     bindR (extract_additional_signatures env b) (\<lambda>sigs.
     bindR (bhs_next env prev (signed_block_header.truncate b) sigs skip_validate_signee) (\<lambda>s.
       Inr (make_block_state s (Some b) False False [])))"

definition block_state_of_pending :: "('k, 'g) fc_env \<Rightarrow> 'k pending_block_header_state \<Rightarrow> ('g, 't) signed_block \<Rightarrow> 'm list \<Rightarrow>
    (digest \<Rightarrow> 'g list result) \<Rightarrow> ('k, 'g, 't, 'm) block_state result" where
  "block_state_of_pending env cur b trx_metas signer =
     bindR (inject_additional_signatures env cur b signer) (\<lambda>(s, b).
       Inr (make_block_state s (Some b) False True trx_metas))"

section \<open>The tree\<close>

record ('k, 'g, 't, 'm) fork_database =
  fork_index :: "('k, 'g, 't, 'm) block_state list"
  fork_root :: "('k, 'g, 't, 'm) block_state option"
  fork_head :: "digest option"

definition fork_database_empty :: "('k, 'g, 't, 'm) fork_database" where
  "fork_database_empty = \<lparr>fork_index = [], fork_root = None, fork_head = None\<rparr>"

text \<open>
  The key of the index \<^verbatim>\<open>by_lib_block_num\<close>: validated states first, then by falling irreversible and
  block number, then by rising id (\<^verbatim>\<open>sha256_less\<close>). Complementing a word reverses its order.
\<close>

definition id_key :: "digest \<Rightarrow> u64 \<times> u64 \<times> u64 \<times> u64" where
  "id_key i = (hash0 i, hash1 i, hash2 i, hash3 i)"

definition by_lib_key :: "('k, 'g, 't, 'm) block_state \<Rightarrow> bool \<times> u32 \<times> u32 \<times> u64 \<times> u64 \<times> u64 \<times> u64" where
  "by_lib_key b =
     (\<not> validated b, - 1 - dpos_irreversible_blocknum b, - 1 - block_num b, id_key (bhs_id b))"

definition by_lib_block_num :: "('k, 'g, 't, 'm) fork_database \<Rightarrow> ('k, 'g, 't, 'm) block_state list" where
  "by_lib_block_num db = sort_key by_lib_key (fork_index db)"

definition first_preferred :: "('k, 'a) block_header_state_common_scheme \<Rightarrow> ('k, 'b) block_header_state_common_scheme \<Rightarrow> bool" where
  "first_preferred lhs rhs \<longleftrightarrow>
     (dpos_irreversible_blocknum lhs, block_num lhs) > (dpos_irreversible_blocknum rhs, block_num rhs)"

definition get_block :: "('k, 'g, 't, 'm) fork_database \<Rightarrow> digest \<Rightarrow> ('k, 'g, 't, 'm) block_state option" where
  "get_block db i = find (\<lambda>b. bhs_id b = i) (fork_index db)"

definition get_block_header :: "('k, 'g, 't, 'm) fork_database \<Rightarrow> digest \<Rightarrow> ('k, 'g, 't, 'm) block_state option result" where
  "get_block_header db i =
     bindR (deref (fork_root db)) (\<lambda>r. if bhs_id r = i then Inr (Some r) else Inr (get_block db i))"

definition head_state :: "('k, 'g, 't, 'm) fork_database \<Rightarrow> ('k, 'g, 't, 'm) block_state result" where
  "head_state db =
     bindR (deref (fork_head db)) (\<lambda>i. bindR (get_block_header db i) deref)"

definition fork_reset :: "('k, 'g) block_header_state \<Rightarrow> ('k, 'g, 't, 'm) fork_database \<Rightarrow> ('k, 'g, 't, 'm) fork_database" where
  "fork_reset root_bhs db =
     \<lparr>fork_index = [], fork_root = Some (make_block_state root_bhs None True False []), fork_head = Some (bhs_id root_bhs)\<rparr>"

definition rollback_head_to_root :: "('k, 'g, 't, 'm) fork_database \<Rightarrow> ('k, 'g, 't, 'm) fork_database" where
  "rollback_head_to_root db =
     db\<lparr>fork_index := map (\<lambda>b. b\<lparr>validated := False\<rparr>) (fork_index db),
        fork_head := map_option bhs_id (fork_root db)\<rparr>"

definition fork_add :: "('k, 'g, 't, 'm) block_state option \<Rightarrow> bool \<Rightarrow> ('k, 'g, 't, 'm) fork_database \<Rightarrow>
    ('k, 'g, 't, 'm) fork_database result" where
  "fork_add n ignore_duplicate db =
     EOS_ASSERT (fork_root db \<noteq> None) fork_database_exception
     (case n of
        None \<Rightarrow> Inl fork_database_exception
      | Some n \<Rightarrow>
          bindR (get_block_header db (previous (header n))) (\<lambda>prev_bh.
            EOS_ASSERT (prev_bh \<noteq> None) unlinkable_block_exception
            (if get_block db (bhs_id n) \<noteq> None
             then if ignore_duplicate then Inr db else Inl fork_database_exception
             else let db = db\<lparr>fork_index := fork_index db @ [n]\<rparr>;
                      candidate = hd (by_lib_block_num db)
                  in Inr (if validated candidate then db\<lparr>fork_head := Some (bhs_id candidate)\<rparr> else db))))"

definition pending_head :: "('k, 'g, 't, 'm) fork_database \<Rightarrow> ('k, 'g, 't, 'm) block_state result" where
  "pending_head db =
     (case find (\<lambda>b. \<not> validated b) (by_lib_block_num db) of
        Some itr \<Rightarrow> bindR (head_state db) (\<lambda>h. if first_preferred itr h then Inr itr else Inr h)
      | None \<Rightarrow> head_state db)"

definition mark_valid :: "('k, 'g, 't, 'm) block_state \<Rightarrow> ('k, 'g, 't, 'm) fork_database \<Rightarrow>
    ('k, 'g, 't, 'm) fork_database result" where
  "mark_valid h db =
     (if validated h then Inr db
      else EOS_ASSERT (get_block db (bhs_id h) \<noteq> None) fork_database_exception
        (let db = db\<lparr>fork_index := map (\<lambda>b. if bhs_id b = bhs_id h then b\<lparr>validated := True\<rparr> else b) (fork_index db)\<rparr>;
             candidate = hd (by_lib_block_num db)
         in bindR (head_state db) (\<lambda>hd_state.
              Inr (if first_preferred candidate hd_state then db\<lparr>fork_head := Some (bhs_id candidate)\<rparr> else db))))"

section \<open>Walking and pruning\<close>

partial_function (option) fetch_branch :: "('k, 'g, 't, 'm) fork_database \<Rightarrow> digest \<Rightarrow> u32 \<Rightarrow>
    ('k, 'g, 't, 'm) block_state list \<Rightarrow> ('k, 'g, 't, 'm) block_state list option" where
  "fetch_branch db h trim_after_block_num result =
     (case get_block db h of
        None \<Rightarrow> Some result
      | Some s \<Rightarrow> fetch_branch db (previous (header s)) trim_after_block_num
          (if block_num s \<le> trim_after_block_num then result @ [s] else result))"

partial_function (option) search_on_branch :: "('k, 'g, 't, 'm) fork_database \<Rightarrow> digest \<Rightarrow> u32 \<Rightarrow>
    ('k, 'g, 't, 'm) block_state option option" where
  "search_on_branch db h num =
     (case get_block db h of
        None \<Rightarrow> Some None
      | Some s \<Rightarrow> if block_num s = num then Some (Some s) else search_on_branch db (previous (header s)) num)"

definition root_or_block :: "('k, 'g, 't, 'm) fork_database \<Rightarrow> digest \<Rightarrow> ('k, 'g, 't, 'm) block_state result" where
  "root_or_block db i =
     bindR (get_block_header db i) (\<lambda>b. case b of Some b \<Rightarrow> Inr b | None \<Rightarrow> Inl fork_db_block_not_found)"

text \<open>The loops that bring the higher of two blocks down to the height of the other.\<close>

partial_function (option) descend_to :: "('k, 'g, 't, 'm) fork_database \<Rightarrow> ('k, 'g, 't, 'm) block_state \<Rightarrow> u32 \<Rightarrow>
    ('k, 'g, 't, 'm) block_state list \<Rightarrow> (('k, 'g, 't, 'm) block_state \<times> ('k, 'g, 't, 'm) block_state list) result option" where
  "descend_to db b num result =
     (if block_num b > num
      then case root_or_block db (previous (header b)) of
             Inl e \<Rightarrow> Some (Inl e)
           | Inr b' \<Rightarrow> descend_to db b' num (result @ [b])
      else Some (Inr (b, result)))"

partial_function (option) descend_both :: "('k, 'g, 't, 'm) fork_database \<Rightarrow> ('k, 'g, 't, 'm) block_state \<Rightarrow>
    ('k, 'g, 't, 'm) block_state \<Rightarrow> ('k, 'g, 't, 'm) block_state list \<Rightarrow> ('k, 'g, 't, 'm) block_state list \<Rightarrow>
    (('k, 'g, 't, 'm) block_state list \<times> ('k, 'g, 't, 'm) block_state list) result option" where
  "descend_both db first_branch second_branch result1 result2 =
     (if previous (header first_branch) \<noteq> previous (header second_branch)
      then case get_block db (previous (header first_branch)) of
             None \<Rightarrow> Some (Inl fork_db_block_not_found)
           | Some b1 \<Rightarrow> (case get_block db (previous (header second_branch)) of
               None \<Rightarrow> Some (Inl fork_db_block_not_found)
             | Some b2 \<Rightarrow> descend_both db b1 b2 (result1 @ [first_branch]) (result2 @ [second_branch]))
      else Some (Inr (result1 @ [first_branch], result2 @ [second_branch])))"

definition fetch_branch_from :: "('k, 'g, 't, 'm) fork_database \<Rightarrow> digest \<Rightarrow> digest \<Rightarrow>
    (('k, 'g, 't, 'm) block_state list \<times> ('k, 'g, 't, 'm) block_state list) result option" where
  "fetch_branch_from db first second =
     (case root_or_block db first of
        Inl e \<Rightarrow> Some (Inl e)
      | Inr first_branch \<Rightarrow> (case root_or_block db second of
          Inl e \<Rightarrow> Some (Inl e)
        | Inr second_branch \<Rightarrow>
            (case descend_to db first_branch (block_num second_branch) [] of
               None \<Rightarrow> None
             | Some (Inl e) \<Rightarrow> Some (Inl e)
             | Some (Inr (first_branch, result1)) \<Rightarrow>
                 (case descend_to db second_branch (block_num first_branch) [] of
                    None \<Rightarrow> None
                  | Some (Inl e) \<Rightarrow> Some (Inl e)
                  | Some (Inr (second_branch, result2)) \<Rightarrow>
                      if bhs_id first_branch = bhs_id second_branch then Some (Inr (result1, result2))
                      else descend_both db first_branch second_branch result1 result2))))"

text \<open>The work list of \<^verbatim>\<open>remove\<close>: ids already visited and ids still to visit.\<close>

definition children :: "('k, 'g, 't, 'm) fork_database \<Rightarrow> digest \<Rightarrow> digest list" where
  "children db i = map bhs_id (filter (\<lambda>b. previous (header b) = i) (fork_index db))"

partial_function (option) remove_queue :: "('k, 'g, 't, 'm) fork_database \<Rightarrow> digest \<Rightarrow> digest list \<Rightarrow> digest list \<Rightarrow>
    digest list result option" where
  "remove_queue db head_id visited queue =
     (case queue of
        [] \<Rightarrow> Some (Inr visited)
      | i # rest \<Rightarrow>
          if i = head_id then Some (Inl fork_database_exception)
          else remove_queue db head_id (visited @ [i]) (rest @ children db i))"

definition erase_ids :: "digest list \<Rightarrow> ('k, 'g, 't, 'm) fork_database \<Rightarrow> ('k, 'g, 't, 'm) fork_database" where
  "erase_ids ids db = fold (\<lambda>i db. db\<lparr>fork_index := filter (\<lambda>b. bhs_id b \<noteq> i) (fork_index db)\<rparr>) ids db"

definition fork_remove :: "digest \<Rightarrow> ('k, 'g, 't, 'm) fork_database \<Rightarrow> ('k, 'g, 't, 'm) fork_database result option" where
  "fork_remove i db =
     (case fork_head db of
        None \<Rightarrow> Some (Inl undefined_behaviour)
      | Some head_id \<Rightarrow> (case remove_queue db head_id [] [i] of
          None \<Rightarrow> None
        | Some (Inl e) \<Rightarrow> Some (Inl e)
        | Some (Inr ids) \<Rightarrow> Some (Inr (erase_ids ids db))))"

text \<open>The ids below the new root, up to and including the old root.\<close>

partial_function (option) ancestors_to_root :: "('k, 'g, 't, 'm) fork_database \<Rightarrow> digest \<Rightarrow>
    ('k, 'g, 't, 'm) block_state \<Rightarrow> digest list \<Rightarrow> digest list result option" where
  "ancestors_to_root db root_id b blocks_to_remove =
     (case get_block db (previous (header b)) of
        Some b' \<Rightarrow> ancestors_to_root db root_id b' (blocks_to_remove @ [previous (header b)])
      | None \<Rightarrow>
          if previous (header b) = root_id then Some (Inr (blocks_to_remove @ [previous (header b)]))
          else Some (Inl fork_database_exception))"

fun remove_all :: "digest list \<Rightarrow> ('k, 'g, 't, 'm) fork_database \<Rightarrow> ('k, 'g, 't, 'm) fork_database result option" where
  "remove_all [] db = Some (Inr db)"
| "remove_all (i # is) db =
     (case fork_remove i db of
        None \<Rightarrow> None
      | Some (Inl e) \<Rightarrow> Some (Inl e)
      | Some (Inr db) \<Rightarrow> remove_all is db)"

definition advance_root :: "digest \<Rightarrow> ('k, 'g, 't, 'm) fork_database \<Rightarrow> ('k, 'g, 't, 'm) fork_database result option" where
  "advance_root i db =
     (case fork_root db of
        None \<Rightarrow> Some (Inl fork_database_exception)
      | Some old_root \<Rightarrow> (case get_block db i of
          None \<Rightarrow> Some (Inl fork_database_exception)
        | Some new_root \<Rightarrow>
            if \<not> validated new_root then Some (Inl fork_database_exception)
            else (case ancestors_to_root db (bhs_id old_root) new_root [] of
                None \<Rightarrow> None
              | Some (Inl e) \<Rightarrow> Some (Inl e)
              | Some (Inr blocks_to_remove) \<Rightarrow>
                  (case remove_all blocks_to_remove (erase_ids [i] db) of
                     None \<Rightarrow> None
                   | Some (Inl e) \<Rightarrow> Some (Inl e)
                   | Some (Inr db) \<Rightarrow> Some (Inr (db\<lparr>fork_root := Some new_root\<rparr>))))))"

section \<open>The invariant\<close>

text \<open>
  Ids are unique, every block is the successor of the root or of another block of the tree, the head
  is the root or a validated block, and no validated block is preferred to it.
\<close>

definition linked :: "('k, 'g, 't, 'm) fork_database \<Rightarrow> ('k, 'g, 't, 'm) block_state \<Rightarrow> bool" where
  "linked db b \<longleftrightarrow>
     returns (get_block_header db (previous (header b))) (\<lambda>p.
       case p of None \<Rightarrow> False | Some p \<Rightarrow> unat (block_num b) = Suc (unat (block_num p)))"

definition head_ok :: "('k, 'g, 't, 'm) fork_database \<Rightarrow> ('k, 'g, 't, 'm) block_state \<Rightarrow> bool" where
  "head_ok db r \<longleftrightarrow>
     returns (head_state db) (\<lambda>h. (fork_head db = Some (bhs_id r) \<or> validated h) \<and>
       list_all (\<lambda>b. validated b \<longrightarrow> \<not> first_preferred b h) (fork_index db))"

definition tree_ok :: "('k, 'g, 't, 'm) fork_database \<Rightarrow> ('k, 'g, 't, 'm) block_state \<Rightarrow> bool" where
  "tree_ok db r \<longleftrightarrow>
     distinct (map bhs_id (fork_index db)) \<and> bhs_id r \<notin> set (map bhs_id (fork_index db)) \<and>
     list_all (linked db) (fork_index db)"

definition fdb_ok :: "('k, 'g, 't, 'm) fork_database \<Rightarrow> bool" where
  "fdb_ok db = (case fork_root db of None \<Rightarrow> False | Some r \<Rightarrow> tree_ok db r \<and> head_ok db r)"

lemma find_unique:
  assumes "distinct (map f xs)"
  shows "find (\<lambda>x. f x = i) xs = Some x \<longleftrightarrow> x \<in> set xs \<and> f x = i"
  using assms by (induction xs) auto

lemma get_block_Some:
  "distinct (map bhs_id (fork_index db)) \<Longrightarrow> get_block db i = Some b \<longleftrightarrow> b \<in> set (fork_index db) \<and> bhs_id b = i"
  by (simp add: get_block_def find_unique)

lemma get_block_None: "get_block db i = None \<longleftrightarrow> i \<notin> bhs_id ` set (fork_index db)"
  by (auto simp: get_block_def find_None_iff)

lemma get_block_in: "get_block db i = Some b \<Longrightarrow> b \<in> set (fork_index db) \<and> bhs_id b = i"
  by (auto simp: get_block_def find_Some_iff)

lemma get_block_header_root:
  "fork_root db = Some r \<Longrightarrow> get_block_header db i = (if bhs_id r = i then Inr (Some r) else Inr (get_block db i))"
  by (simp add: get_block_header_def)

lemma linkedE:
  assumes "fork_root db = Some r" "linked db b"
  obtains p where "p = r \<and> previous (header b) = bhs_id r \<or>
      previous (header b) \<noteq> bhs_id r \<and> p \<in> set (fork_index db) \<and> bhs_id p = previous (header b) \<and>
      get_block db (previous (header b)) = Some p"
    "unat (block_num b) = Suc (unat (block_num p))"
  using assms by (auto simp: linked_def get_block_header_root returns_def split: if_splits option.splits dest: get_block_in)

lemma linkedI:
  assumes "fork_root db = Some r" "distinct (map bhs_id (fork_index db))" "bhs_id r \<notin> bhs_id ` set (fork_index db)"
    and "p = r \<or> p \<in> set (fork_index db)" "previous (header b) = bhs_id p" "unat (block_num b) = Suc (unat (block_num p))"
  shows "linked db b"
proof (cases "p = r")
  case True
  then show ?thesis using assms by (simp add: linked_def get_block_header_root returns_def)
next
  case False
  then have "p \<in> set (fork_index db)" using assms(4) by simp
  moreover from this have "bhs_id r \<noteq> bhs_id p" using assms(3) by (metis image_eqI)
  ultimately show ?thesis
    using assms(1, 5, 6) get_block_Some [OF assms(2), of "bhs_id p" p]
    by (simp add: linked_def get_block_header_root returns_def)
qed

text \<open>The blocks of the tree with their numbers.\<close>

lemma tree_parent:
  assumes "fork_root db = Some r" "tree_ok db r" "b \<in> set (fork_index db)"
  obtains p where "p = r \<or> p \<in> set (fork_index db)" "previous (header b) = bhs_id p"
    "unat (block_num b) = Suc (unat (block_num p))"
proof -
  have "linked db b" using assms(2, 3) by (auto simp: tree_ok_def list_all_iff)
  then show ?thesis by (rule linkedE [OF assms(1)]) (auto intro: that)
qed

lemma tree_above_root:
  assumes "fork_root db = Some r" "tree_ok db r" "b \<in> set (fork_index db)"
  shows "unat (block_num r) < unat (block_num b)"
  using assms(3)
proof (induction "unat (block_num b)" arbitrary: b rule: less_induct)
  case less
  obtain p where p: "p = r \<or> p \<in> set (fork_index db)" "unat (block_num b) = Suc (unat (block_num p))"
    using tree_parent [OF assms(1, 2) less.prems] by metis
  then show ?case using less.hyps [of p] by auto
qed

lemma index_id_inj:
  assumes "tree_ok db r" "b \<in> set (fork_index db)" "c \<in> set (fork_index db)" "bhs_id b = bhs_id c"
  shows "b = c"
  using assms by (auto simp: tree_ok_def distinct_map dest: inj_onD)

section \<open>The preferred block\<close>

lemma by_lib_hd_least:
  assumes "b \<in> set (fork_index db)"
  shows "hd (by_lib_block_num db) \<in> set (fork_index db)" "by_lib_key (hd (by_lib_block_num db)) \<le> by_lib_key b"
proof -
  let ?s = "by_lib_block_num db"
  have set: "set ?s = set (fork_index db)" and srt: "sorted (map by_lib_key ?s)" by (simp_all add: by_lib_block_num_def)
  then obtain x xs where s: "?s = x # xs" using assms by (cases ?s) auto
  then show "hd ?s \<in> set (fork_index db)" using set by auto
  have "b = x \<or> b \<in> set xs" using assms set s by auto
  then show "by_lib_key (hd ?s) \<le> by_lib_key b" using srt by (auto simp: s)
qed

lemma complement_le: "- 1 - a \<le> - 1 - (b :: u32) \<longleftrightarrow> b \<le> a"
proof -
  have "unat (- 1 - x) = 2 ^ 32 - 1 - unat x" "unat x \<le> 2 ^ 32 - 1" for x :: u32
    using unat_sub [of x "- 1"] unat_max_word [where ?'a = 32] unsigned_less [of x, where ?'a = nat] by simp_all
  from this [of a] this [of b] show ?thesis by (simp only: word_le_nat_alt) linarith
qed

lemma complement_eq: "- 1 - a = - 1 - (b :: u32) \<longleftrightarrow> a = b"
  by simp

lemma by_lib_key_le:
  "by_lib_key c \<le> by_lib_key b \<Longrightarrow> validated b \<Longrightarrow> validated c \<and> \<not> first_preferred b c"
  by (auto simp: by_lib_key_def first_preferred_def less_eq_prod_def less_prod_def complement_le
      order.strict_iff_order split: if_splits)

lemma candidate_best:
  assumes "b \<in> set (fork_index db)" "validated b"
  shows "validated (hd (by_lib_block_num db))" "\<not> first_preferred b (hd (by_lib_block_num db))"
    "hd (by_lib_block_num db) \<in> set (fork_index db)"
  using by_lib_hd_least [OF assms(1)] by_lib_key_le assms(2) by blast+

lemma first_preferred_trans:
  "first_preferred a b \<Longrightarrow> \<not> first_preferred c b \<Longrightarrow> \<not> first_preferred a c \<Longrightarrow> False"
  by (auto simp: first_preferred_def)

lemma head_okI_candidate:
  assumes r: "fork_root db = Some r" and t: "tree_ok db r" and b: "b \<in> set (fork_index db)" "validated b"
    and hd: "fork_head db = Some (bhs_id (hd (by_lib_block_num db)))"
  shows "head_ok db r"
proof -
  let ?c = "hd (by_lib_block_num db)"
  note c = candidate_best [OF b]
  have "bhs_id r \<noteq> bhs_id ?c" using t c(3) by (auto simp: tree_ok_def)
  moreover have "get_block db (bhs_id ?c) = Some ?c"
    using t c(3) by (simp add: tree_ok_def get_block_Some)
  ultimately have "head_state db = Inr ?c"
    using hd r by (simp add: head_state_def get_block_header_root)
  then show ?thesis
    using c(1) candidate_best(2) by (auto simp: head_ok_def returns_def list_all_iff)
qed

lemma head_stateE:
  assumes r: "fork_root db = Some r" and "head_ok db r"
  obtains h where "head_state db = Inr h" "h = r \<and> fork_head db = Some (bhs_id r) \<or>
      h \<in> set (fork_index db) \<and> validated h \<and> fork_head db = Some (bhs_id h) \<and> bhs_id h \<noteq> bhs_id r"
    "\<And>b. \<lbrakk> b \<in> set (fork_index db); validated b \<rbrakk> \<Longrightarrow> \<not> first_preferred b h"
proof -
  obtain h where h: "head_state db = Inr h" "fork_head db = Some (bhs_id r) \<or> validated h"
    "\<And>b. \<lbrakk> b \<in> set (fork_index db); validated b \<rbrakk> \<Longrightarrow> \<not> first_preferred b h"
    using assms(2) by (auto simp: head_ok_def returns_iff list_all_iff)
  then have "h = r \<and> fork_head db = Some (bhs_id r) \<or>
      h \<in> set (fork_index db) \<and> validated h \<and> fork_head db = Some (bhs_id h) \<and> bhs_id h \<noteq> bhs_id r"
    using r by (auto simp: head_state_def get_block_header_root split: if_splits dest: get_block_in)
  then show ?thesis using that h by blast
qed

section \<open>Operations keep the invariant\<close>

lemma fdb_okE:
  assumes "fdb_ok db" obtains r where "fork_root db = Some r" "tree_ok db r" "head_ok db r"
  using assms by (auto simp: fdb_ok_def split: option.splits)

lemma fdb_okI: "\<lbrakk> fork_root db = Some r; tree_ok db r; head_ok db r \<rbrakk> \<Longrightarrow> fdb_ok db"
  by (simp add: fdb_ok_def)

lemma fork_reset_ok: "fdb_ok (fork_reset s db)"
  by (simp add: fdb_ok_def fork_reset_def tree_ok_def head_ok_def head_state_def get_block_header_root
      returns_def make_block_state_def block_header_state.defs block_state.defs)

text \<open>Changes of the validation flags do not change the tree.\<close>

lemma flags_tree:
  assumes t: "tree_ok db r" and r: "fork_root db = Some r"
    and f: "\<And>b. bhs_id (f b) = bhs_id b \<and> header (f b) = header b \<and> block_num (f b) = block_num b"
    and db': "fork_root db' = Some r" "fork_index db' = map f (fork_index db)"
  shows "tree_ok db' r"
proof -
  have ids: "map bhs_id (fork_index db') = map bhs_id (fork_index db)" using f by (simp add: db')
  have "linked db' (f b)" if b: "b \<in> set (fork_index db)" for b
  proof -
    obtain p where p: "p = r \<or> p \<in> set (fork_index db)" "previous (header b) = bhs_id p"
      "unat (block_num b) = Suc (unat (block_num p))"
      using tree_parent [OF r t b] .
    have "distinct (map bhs_id (fork_index db'))" using t by (simp add: tree_ok_def ids)
    moreover have "bhs_id r \<notin> bhs_id ` set (fork_index db')"
      using t arg_cong [OF ids, of set] by (simp add: tree_ok_def)
    moreover have "(if p = r then r else f p) = r \<or> (if p = r then r else f p) \<in> set (fork_index db')"
      using p(1) by (auto simp: db')
    moreover have "previous (header (f b)) = bhs_id (if p = r then r else f p)"
      "unat (block_num (f b)) = Suc (unat (block_num (if p = r then r else f p)))"
      using p(2, 3) f by auto
    ultimately show ?thesis by (rule linkedI [OF db'(1)])
  qed
  then show ?thesis using t unfolding tree_ok_def ids by (auto simp: list_all_iff db')
qed

lemma rollback_ok:
  assumes "fdb_ok db" shows "fdb_ok (rollback_head_to_root db)"
proof -
  obtain r where r: "fork_root db = Some r" and t: "tree_ok db r" using assms by (rule fdb_okE)
  let ?db = "rollback_head_to_root db"
  have root: "fork_root ?db = Some r" using r by (simp add: rollback_head_to_root_def)
  moreover have "tree_ok ?db r"
    by (rule flags_tree [OF t r _ root, of "\<lambda>b. b\<lparr>validated := False\<rparr>"]) (simp_all add: rollback_head_to_root_def)
  moreover have "head_ok ?db r"
    using r by (simp add: head_ok_def head_state_def get_block_header_root root returns_def)
      (auto simp: rollback_head_to_root_def list_all_iff)
  ultimately show ?thesis by (rule fdb_okI)
qed

lemma mark_valid_ok:
  assumes "fdb_ok db" "mark_valid h db = Inr db'"
  shows "fdb_ok db'"
proof (cases "validated h")
  case True
  then show ?thesis using assms by (simp add: mark_valid_def)
next
  case False
  obtain r where r: "fork_root db = Some r" and t: "tree_ok db r" and hd: "head_ok db r" using assms(1) by (rule fdb_okE)
  let ?f = "\<lambda>b. if bhs_id b = bhs_id h then b\<lparr>validated := True\<rparr> else b"
  define db1 where "db1 = db\<lparr>fork_index := map ?f (fork_index db)\<rparr>"
  obtain b0 where b0: "get_block db (bhs_id h) = Some b0"
    and db': "bindR (head_state db1) (\<lambda>hd_state. Inr (if first_preferred (hd (by_lib_block_num db1)) hd_state
        then db1\<lparr>fork_head := Some (bhs_id (hd (by_lib_block_num db1)))\<rparr> else db1)) = Inr db'"
    using assms(2) False by (auto simp: mark_valid_def db1_def Let_def)
  have r1: "fork_root db1 = Some r" by (simp add: db1_def r)
  have t1: "tree_ok db1 r"
    by (rule flags_tree [OF t r _ r1, of ?f]) (simp_all add: db1_def)
  let ?b = "b0\<lparr>validated := True\<rparr>"
  have b: "?b \<in> set (fork_index db1)" "validated ?b"
    using get_block_in [OF b0] by (force simp: db1_def)+
  obtain h1 where h1: "head_state db1 = Inr h1"
    and eq: "db' = (if first_preferred (hd (by_lib_block_num db1)) h1
        then db1\<lparr>fork_head := Some (bhs_id (hd (by_lib_block_num db1)))\<rparr> else db1)"
    using db' by auto
  show ?thesis
  proof (cases "first_preferred (hd (by_lib_block_num db1)) h1")
    case True
    have same: "by_lib_block_num (db1\<lparr>fork_head := x\<rparr>) = by_lib_block_num db1" for x by (simp add: by_lib_block_num_def)
    have "tree_ok db' r"
      by (rule flags_tree [OF t1 r1, of "\<lambda>b. b"]) (simp_all add: eq True r1)
    moreover have "head_ok db' r"
      by (rule head_okI_candidate [OF _ \<open>tree_ok db' r\<close>, of ?b]) (use b r1 in \<open>simp_all add: eq True same\<close>)
    ultimately show ?thesis using r1 by (intro fdb_okI [of db' r]) (simp_all add: eq True)
  next
    case not_better: False
    have "fork_head db1 = fork_head db" by (simp add: db1_def)
    obtain h0 where h0: "head_state db = Inr h0" "h0 = r \<and> fork_head db = Some (bhs_id r) \<or>
        h0 \<in> set (fork_index db) \<and> validated h0 \<and> fork_head db = Some (bhs_id h0) \<and> bhs_id h0 \<noteq> bhs_id r"
      using head_stateE [OF r hd] by metis
    have "fork_head db1 = Some (bhs_id r) \<or> validated h1"
    proof (cases "h0 = r \<and> fork_head db = Some (bhs_id r)")
      case False
      then have h0': "h0 \<in> set (fork_index db)" "validated h0" "fork_head db = Some (bhs_id h0)" "bhs_id h0 \<noteq> bhs_id r"
        using h0(2) by auto
      then have "get_block db1 (bhs_id h0) = Some (?f h0)"
        using t1 by (simp add: get_block_Some tree_ok_def) (auto simp: db1_def)
      then have "h1 = ?f h0" using h1 h0'(3, 4) r1 by (simp add: head_state_def get_block_header_root db1_def)
      then show ?thesis using h0'(2) by simp
    qed (simp add: db1_def)
    moreover have "\<not> first_preferred c h1" if "c \<in> set (fork_index db1)" "validated c" for c
      using candidate_best(2) [OF that] not_better first_preferred_trans by blast
    ultimately have "head_ok db1 r" by (auto simp: head_ok_def returns_def h1 list_all_iff)
    then show ?thesis using fdb_okI [OF r1 t1] by (simp add: eq not_better)
  qed
qed

lemma fork_add_ok:
  assumes "fdb_ok db" "fork_add (Some n) ignore_duplicate db = Inr db'"
    and "linked db n" "fork_root db = Some r" "bhs_id n \<noteq> bhs_id r"
  shows "fdb_ok db'"
proof (cases "get_block db (bhs_id n)")
  case (Some b)
  then show ?thesis using assms(1, 2) by (auto simp: fork_add_def split: if_splits)
next
  case None
  have t: "tree_ok db r" and hd: "head_ok db r" using assms(1, 4) by (auto simp: fdb_ok_def)
  define db1 where "db1 = db\<lparr>fork_index := fork_index db @ [n]\<rparr>"
  have eq: "db' = (if validated (hd (by_lib_block_num db1))
      then db1\<lparr>fork_head := Some (bhs_id (hd (by_lib_block_num db1)))\<rparr> else db1)"
    using assms(2) None by (auto simp: fork_add_def db1_def Let_def)
  have r1: "fork_root db1 = Some r" by (simp add: db1_def assms(4))
  have new: "bhs_id n \<notin> bhs_id ` set (fork_index db)" using None by (simp add: get_block_None)
  have d1: "distinct (map bhs_id (fork_index db1))" "bhs_id r \<notin> bhs_id ` set (fork_index db1)"
    using t new assms(5) by (auto simp: db1_def tree_ok_def)
  have l1: "linked db1 b" if l: "linked db b" for b
  proof -
    obtain p where "p = r \<or> p \<in> set (fork_index db)" "previous (header b) = bhs_id p"
      "unat (block_num b) = Suc (unat (block_num p))"
      using linkedE [OF assms(4) l] by metis
    then show ?thesis by (intro linkedI [OF r1 d1, of p]) (auto simp: db1_def)
  qed
  then have t1: "tree_ok db1 r"
    using t d1 assms(3) by (simp add: tree_ok_def db1_def list_all_iff)
  show ?thesis
  proof (cases "validated (hd (by_lib_block_num db1))")
    case True
    have same: "by_lib_block_num (db1\<lparr>fork_head := x\<rparr>) = by_lib_block_num db1" for x by (simp add: by_lib_block_num_def)
    have "hd (by_lib_block_num db1) \<in> set (fork_index db1)"
      using by_lib_hd_least(1) [of n db1] by (simp add: db1_def)
    moreover have t': "tree_ok db' r"
      by (rule flags_tree [OF t1 r1, of "\<lambda>b. b"]) (simp_all add: eq True r1)
    ultimately have "head_ok db' r"
      by (intro head_okI_candidate [OF _ t', of "hd (by_lib_block_num db1)"]) (use True r1 in \<open>simp_all add: eq True same\<close>)
    then show ?thesis using r1 t' by (intro fdb_okI [of db' r]) (simp_all add: eq True)
  next
    case False
    then have invalid: "\<not> validated b" if "b \<in> set (fork_index db1)" for b
      using candidate_best(1) [OF that] by blast
    obtain h where h: "head_state db = Inr h" "h = r \<and> fork_head db = Some (bhs_id r) \<or> h \<in> set (fork_index db) \<and> validated h"
      using head_stateE [OF assms(4) hd] by metis
    then have "h = r" "fork_head db = Some (bhs_id r)" using invalid by (auto simp: db1_def)
    then have "head_ok db1 r"
      using invalid r1 by (auto simp: head_ok_def head_state_def get_block_header_root returns_def list_all_iff db1_def)
    then show ?thesis using fdb_okI [OF r1 t1] by (simp add: eq False)
  qed
qed

end
