(* ===== verification/Fork_Branches.thy ===== *)
theory Fork_Branches
  imports Fork_Database
begin

text \<open>
  The loops of the fork database over a well-formed tree: they end, walking gives the branch down to the
  root, two branches are split at their last common block, removal takes exactly a block and its
  descendants, and advancing the root keeps exactly the descendants of the new root.
\<close>

section \<open>Branches\<close>

text \<open>The blocks from the one with a given id down to the last above the root.\<close>

inductive branch :: "('k, 'g, 't, 'm) fork_database \<Rightarrow> digest \<Rightarrow> ('k, 'g, 't, 'm) block_state list \<Rightarrow> bool"
  for db where
  branch_end: "get_block db i = None \<Longrightarrow> branch db i []"
| branch_block: "\<lbrakk> get_block db i = Some b; branch db (previous (header b)) bs \<rbrakk> \<Longrightarrow> branch db i (b # bs)"

lemma branch_Nil: "branch db i [] \<longleftrightarrow> get_block db i = None"
  by (auto elim: branch.cases intro: branch_end)

lemma branch_Cons: "branch db i (b # bs) \<longleftrightarrow> get_block db i = Some b \<and> branch db (previous (header b)) bs"
  by (auto elim: branch.cases intro: branch_block)

lemma branch_unique: "branch db i bs \<Longrightarrow> branch db i cs \<Longrightarrow> bs = cs"
proof (induction bs arbitrary: i cs)
  case Nil
  then show ?case by (cases cs) (simp_all add: branch_Nil branch_Cons)
next
  case (Cons b bs)
  then show ?case by (cases cs) (auto simp: branch_Nil branch_Cons)
qed

lemma get_block_tree: "tree_ok db r \<Longrightarrow> b \<in> set (fork_index db) \<Longrightarrow> get_block db (bhs_id b) = Some b"
  by (simp add: get_block_Some tree_ok_def)

lemma not_root_id: "tree_ok db r \<Longrightarrow> b \<in> set (fork_index db) \<Longrightarrow> bhs_id b \<noteq> bhs_id r"
  by (metis tree_ok_def image_eqI set_map)

lemma branch_exists:
  assumes "fork_root db = Some r" "tree_ok db r"
  shows "\<exists>bs. branch db i bs"
proof -
  have "\<exists>bs. branch db (bhs_id b) bs" if "b \<in> set (fork_index db)" for b
    using that
  proof (induction "unat (block_num b)" arbitrary: b rule: less_induct)
    case less
    have b: "get_block db (bhs_id b) = Some b" using less.prems assms(2) by (simp add: get_block_Some tree_ok_def)
    obtain p where p: "p = r \<or> p \<in> set (fork_index db)" "previous (header b) = bhs_id p"
      "unat (block_num b) = Suc (unat (block_num p))"
      using tree_parent [OF assms less.prems] .
    have "\<exists>bs. branch db (bhs_id p) bs"
    proof (cases "p \<in> set (fork_index db)")
      case False
      then have "get_block db (bhs_id p) = None" using p(1) assms(2) by (auto simp: get_block_None tree_ok_def)
      then show ?thesis by (blast intro: branch_end)
    qed (use less.hyps p(3) in simp)
    then show ?case using b p(2) by (metis branch_block)
  qed
  then show ?thesis
    by (cases "get_block db i") (auto intro: branch_end dest!: get_block_in)
qed

lemma fetch_branch_filter:
  "branch db i bs \<Longrightarrow> fetch_branch db i trim acc = Some (acc @ filter (\<lambda>b. block_num b \<le> trim) bs)"
  by (induction arbitrary: acc rule: branch.induct) (subst fetch_branch.simps, simp)+

lemma search_on_branch_find:
  "branch db i bs \<Longrightarrow> search_on_branch db i num = Some (find (\<lambda>b. block_num b = num) bs)"
  by (induction rule: branch.induct) (subst search_on_branch.simps, simp)+

text \<open>A branch has consecutive numbers and ends just above the root.\<close>

lemma branch_numbers:
  assumes "fork_root db = Some r" "tree_ok db r"
  shows "branch db i bs \<Longrightarrow> bs \<noteq> [] \<Longrightarrow> bhs_id (hd bs) = i \<and> set bs \<subseteq> set (fork_index db) \<and>
    previous (header (last bs)) = bhs_id r \<and>
    map (\<lambda>b. unat (block_num b)) bs = rev [Suc (unat (block_num r)) ..< Suc (unat (block_num (hd bs)))]"
proof (induction rule: branch.induct)
  case (branch_block i b bs)
  have b: "b \<in> set (fork_index db)" "bhs_id b = i" using get_block_in [OF branch_block.hyps(1)] by simp_all
  obtain p where p: "p = r \<or> p \<in> set (fork_index db)" "previous (header b) = bhs_id p"
    "unat (block_num b) = Suc (unat (block_num p))"
    using tree_parent [OF assms b(1)] .
  show ?case
  proof (cases "bs = []")
    case True
    then have "get_block db (bhs_id p) = None"
      using branch_block.hyps(2) by (auto simp: p(2) elim: branch.cases)
    then have "p = r" using p(1) by (auto simp: get_block_None)
    then show ?thesis using True b p by simp
  next
    case False
    then have "hd bs \<in> set (fork_index db)" "bhs_id (hd bs) = bhs_id p"
      using branch_block.IH by (auto simp: p(2))
    moreover have "p \<in> set (fork_index db)"
      using calculation p(1) not_root_id [OF assms(2)] by metis
    ultimately have "hd bs = p" using index_id_inj [OF assms(2)] by blast
    moreover have "unat (block_num r) < unat (block_num p)" using tree_above_root [OF assms \<open>p \<in> set (fork_index db)\<close>] .
    ultimately show ?thesis using branch_block.IH False b p(3) by simp
  qed
qed simp

section \<open>Splitting two branches\<close>

lemma root_or_block_tree:
  assumes "fork_root db = Some r" "tree_ok db r" "p = r \<or> p \<in> set (fork_index db)"
  shows "root_or_block db (bhs_id p) = Inr p"
proof (cases "p = r")
  case True
  then show ?thesis using assms by (simp add: root_or_block_def get_block_header_root)
next
  case False
  then have "p \<in> set (fork_index db)" using assms(3) by simp
  moreover from this have "bhs_id r \<noteq> bhs_id p" using assms(2) by (auto simp: tree_ok_def)
  ultimately show ?thesis
    using assms(1) get_block_tree [OF assms(2)] by (simp add: root_or_block_def get_block_header_root)
qed

lemma branch_of_block:
  assumes "tree_ok db r" "b \<in> set (fork_index db)" "branch db (previous (header b)) bs"
  shows "branch db (bhs_id b) (b # bs)"
  using assms by (intro branch_block) (simp_all add: get_block_tree)

lemma descend_to_tree:
  assumes t: "fork_root db = Some r" "tree_ok db r"
    and "b = r \<or> b \<in> set (fork_index db)" "unat (block_num r) \<le> unat num"
  shows "\<exists>b' taken. descend_to db b num acc = Some (Inr (b', acc @ taken)) \<and> (b' = r \<or> b' \<in> set (fork_index db)) \<and>
    unat (block_num b') = min (unat (block_num b)) (unat num) \<and> (\<forall>x \<in> set taken. unat (block_num x) > unat num) \<and>
    (\<forall>bs. branch db (bhs_id b') bs \<longrightarrow> branch db (bhs_id b) (taken @ bs))"
  using assms(3)
proof (induction "unat (block_num b)" arbitrary: b acc rule: less_induct)
  case less
  show ?case
  proof (cases "block_num b > num")
    case False
    then have "descend_to db b num acc = Some (Inr (b, acc))" by (simp add: descend_to.simps [of db b])
    then show ?thesis using False less.prems by (intro exI [of _ b] exI [of _ "[]"]) (auto simp: word_less_nat_alt)
  next
    case True
    then have b: "b \<in> set (fork_index db)" using less.prems assms(4) by (auto simp: word_less_nat_alt)
    obtain p where p: "p = r \<or> p \<in> set (fork_index db)" "previous (header b) = bhs_id p"
      "unat (block_num b) = Suc (unat (block_num p))"
      using tree_parent [OF t b] .
    obtain b' taken where ih: "descend_to db p num (acc @ [b]) = Some (Inr (b', acc @ b # taken))"
      "b' = r \<or> b' \<in> set (fork_index db)" "unat (block_num b') = min (unat (block_num p)) (unat num)"
      "\<forall>x \<in> set taken. unat (block_num x) > unat num"
      "\<And>bs. branch db (bhs_id b') bs \<Longrightarrow> branch db (bhs_id p) (taken @ bs)"
      using less.hyps [of p "acc @ [b]"] p by auto
    have "descend_to db b num acc = Some (Inr (b', acc @ b # taken))"
      using True ih(1) root_or_block_tree [OF t p(1)] by (simp add: descend_to.simps [of db b] p(2))
    moreover have "branch db (bhs_id b) (b # taken @ bs)" if "branch db (bhs_id b') bs" for bs
      using branch_of_block [OF t(2) b] ih(5) [OF that] by (simp add: p(2))
    ultimately show ?thesis
      using ih True p(3) by (intro exI [of _ b'] exI [of _ "b # taken"]) (auto simp: word_less_nat_alt)
  qed
qed

lemma descend_both_tree:
  assumes t: "fork_root db = Some r" "tree_ok db r"
    and "b1 \<in> set (fork_index db)" "b2 \<in> set (fork_index db)" "unat (block_num b1) = unat (block_num b2)" "b1 \<noteq> b2"
  shows "\<exists>t1 t2 c. descend_both db b1 b2 acc1 acc2 = Some (Inr (acc1 @ t1, acc2 @ t2)) \<and>
    branch db (bhs_id b1) (t1 @ c) \<and> branch db (bhs_id b2) (t2 @ c) \<and> set t1 \<inter> set t2 = {} \<and>
    (\<forall>x \<in> set t1 \<union> set t2. unat (block_num x) \<le> unat (block_num b1))"
  using assms(3-)
proof (induction "unat (block_num b1)" arbitrary: b1 b2 acc1 acc2 rule: less_induct)
  case less
  obtain p1 where p1: "p1 = r \<or> p1 \<in> set (fork_index db)" "previous (header b1) = bhs_id p1"
    "unat (block_num b1) = Suc (unat (block_num p1))"
    using tree_parent [OF t less.prems(1)] .
  obtain p2 where p2: "p2 = r \<or> p2 \<in> set (fork_index db)" "previous (header b2) = bhs_id p2"
    "unat (block_num b2) = Suc (unat (block_num p2))"
    using tree_parent [OF t less.prems(2)] .
  have num: "unat (block_num p1) = unat (block_num p2)" using p1(3) p2(3) less.prems(3) by simp
  show ?case
  proof (cases "bhs_id p1 = bhs_id p2")
    case True
    obtain c where "branch db (bhs_id p1) c" using branch_exists [OF t] by blast
    then have "branch db (bhs_id b1) (b1 # c)" "branch db (bhs_id b2) (b2 # c)"
      using branch_of_block [OF t(2) less.prems(1)] branch_of_block [OF t(2) less.prems(2)] True by (simp_all add: p1(2) p2(2))
    then show ?thesis
      using True less.prems(3, 4)
      by (intro exI [of _ "[b1]"] exI [of _ "[b2]"] exI [of _ c]) (simp add: descend_both.simps [of db b1] p1(2) p2(2))
  next
    case False
    have in1: "p1 \<in> set (fork_index db)" and in2: "p2 \<in> set (fork_index db)"
      using p1(1) p2(1) num False tree_above_root [OF t] by (metis less_irrefl)+
    obtain t1 t2 c where ih: "descend_both db p1 p2 (acc1 @ [b1]) (acc2 @ [b2]) = Some (Inr (acc1 @ b1 # t1, acc2 @ b2 # t2))"
      "branch db (bhs_id p1) (t1 @ c)" "branch db (bhs_id p2) (t2 @ c)" "set t1 \<inter> set t2 = {}"
      "\<forall>x \<in> set t1 \<union> set t2. unat (block_num x) \<le> unat (block_num p1)"
    proof -
      have "p1 \<noteq> p2" using False by auto
      then show ?thesis
        using less.hyps [OF _ in1 in2 num, of "acc1 @ [b1]" "acc2 @ [b2]"] p1(3) that by auto
    qed
    have "descend_both db b1 b2 acc1 acc2 = Some (Inr (acc1 @ b1 # t1, acc2 @ b2 # t2))"
      using False ih(1) get_block_tree [OF t(2) in1] get_block_tree [OF t(2) in2]
      by (simp add: descend_both.simps [of db b1] p1(2) p2(2))
    moreover have "branch db (bhs_id b1) (b1 # t1 @ c)" "branch db (bhs_id b2) (b2 # t2 @ c)"
      using branch_of_block [OF t(2) less.prems(1)] branch_of_block [OF t(2) less.prems(2)] ih(2, 3)
      by (simp_all add: p1(2) p2(2))
    moreover have "b1 \<notin> set t2" "b2 \<notin> set t1"
      using ih(5) p1(3) less.prems(3) by (metis UnI1 UnI2 Suc_n_not_le_n)+
    moreover have "unat (block_num x) \<le> unat (block_num b1)" if "x \<in> set (b1 # t1) \<union> set (b2 # t2)" for x
    proof -
      from that consider "x = b1" | "x = b2" | "x \<in> set t1 \<union> set t2" by auto
      then show ?thesis using ih(5) p1(3) less.prems(3) by cases (auto intro: le_SucI)
    qed
    moreover have "set (b1 # t1) \<inter> set (b2 # t2) = {}" using calculation(4, 5) ih(4) less.prems(4) by auto
    ultimately show ?thesis
      by (intro exI [of _ "b1 # t1"] exI [of _ "b2 # t2"] exI [of _ c]) simp
  qed
qed

section \<open>Removal\<close>

text \<open>A block descends from an id if it carries it or is linked to it through blocks of the tree.\<close>

inductive descends :: "('k, 'g, 't, 'm) fork_database \<Rightarrow> digest \<Rightarrow> ('k, 'g, 't, 'm) block_state \<Rightarrow> bool" for db i where
  descends_self: "\<lbrakk> b \<in> set (fork_index db); bhs_id b = i \<rbrakk> \<Longrightarrow> descends db i b"
| descends_child: "\<lbrakk> b \<in> set (fork_index db); previous (header b) = i \<rbrakk> \<Longrightarrow> descends db i b"
| descends_step: "\<lbrakk> b \<in> set (fork_index db); descends db i p; previous (header b) = bhs_id p \<rbrakk> \<Longrightarrow> descends db i b"

lemma descends_in_index: "descends db i b \<Longrightarrow> b \<in> set (fork_index db)"
  by (cases rule: descends.cases) auto

lemma children_iff: "c \<in> set (children db i) \<longleftrightarrow> (\<exists>b \<in> set (fork_index db). bhs_id b = c \<and> previous (header b) = i)"
  by (auto simp: children_def)

definition queue_ok :: "('k, 'g, 't, 'm) fork_database \<Rightarrow> digest \<Rightarrow> digest list \<Rightarrow> digest list \<Rightarrow> bool" where
  "queue_ok db i visited queue \<longleftrightarrow>
     distinct (visited @ queue) \<and> i \<in> set (visited @ queue) \<and>
     (\<forall>x \<in> set visited. set (children db x) \<subseteq> set (visited @ queue)) \<and>
     (\<forall>x \<in> set (visited @ queue). x = i \<or> (\<exists>b \<in> set (fork_index db). bhs_id b = x \<and> previous (header b) \<in> set visited))"

lemma queue_okD:
  assumes "queue_ok db i visited queue" "x \<in> set (visited @ queue)"
  obtains "x = i" | b where "b \<in> set (fork_index db)" "bhs_id b = x" "previous (header b) \<in> set visited"
  using assms unfolding queue_ok_def by blast

text \<open>
  While the root is advanced, blocks can lose their parent; what stays true is that ids are unique and
  numbers grow along links.
\<close>

definition forest_ok :: "('k, 'g, 't, 'm) fork_database \<Rightarrow> bool" where
  "forest_ok db \<longleftrightarrow> distinct (map bhs_id (fork_index db)) \<and>
     (\<forall>b \<in> set (fork_index db). \<forall>p \<in> set (fork_index db).
        previous (header b) = bhs_id p \<longrightarrow> unat (block_num p) < unat (block_num b))"

lemma forest_id_inj:
  "\<lbrakk> forest_ok db; b \<in> set (fork_index db); c \<in> set (fork_index db); bhs_id b = bhs_id c \<rbrakk> \<Longrightarrow> b = c"
  by (auto simp: forest_ok_def distinct_map dest: inj_onD)

lemma forest_link:
  "\<lbrakk> forest_ok db; b \<in> set (fork_index db); p \<in> set (fork_index db); previous (header b) = bhs_id p \<rbrakk> \<Longrightarrow>
     unat (block_num p) < unat (block_num b)"
  by (auto simp: forest_ok_def)

lemma tree_forest:
  assumes "fork_root db = Some r" "tree_ok db r"
  shows "forest_ok db"
proof -
  have "unat (block_num q) < unat (block_num b)"
    if bq: "b \<in> set (fork_index db)" "q \<in> set (fork_index db)" "previous (header b) = bhs_id q" for b q
  proof -
    obtain p where p: "p = r \<or> p \<in> set (fork_index db)" "previous (header b) = bhs_id p"
      "unat (block_num b) = Suc (unat (block_num p))"
      using tree_parent [OF assms bq(1)] .
    then have "p = q" using bq index_id_inj [OF assms(2)] not_root_id [OF assms(2)] by metis
    then show ?thesis using p(3) by simp
  qed
  then show ?thesis using assms(2) by (simp add: forest_ok_def tree_ok_def)
qed

lemma forest_filter: "forest_ok db \<Longrightarrow> forest_ok (db\<lparr>fork_index := filter P (fork_index db)\<rparr>)"
  by (simp add: forest_ok_def distinct_map_filter)

lemma queue_descends:
  assumes "forest_ok db" "queue_ok db i visited queue" "b \<in> set (fork_index db)" "bhs_id b \<in> set (visited @ queue)"
  shows "descends db i b"
  using assms(3, 4)
proof (induction "unat (block_num b)" arbitrary: b rule: less_induct)
  case less
  show ?case
  proof (rule queue_okD [OF assms(2) less.prems(2)])
    assume "bhs_id b = i"
    then show ?thesis using less.prems(1) by (rule descends_self [rotated])
  next
    fix b' assume b': "b' \<in> set (fork_index db)" "bhs_id b' = bhs_id b" "previous (header b') \<in> set visited"
    then have "b' = b" using forest_id_inj [OF assms(1) _ less.prems(1)] by blast
    then have prev: "previous (header b) \<in> set (visited @ queue)" using b'(3) by simp
    show ?thesis
    proof (rule queue_okD [OF assms(2) prev])
      assume "previous (header b) = i"
      with less.prems(1) show ?thesis by (rule descends_child)
    next
      fix p assume p: "p \<in> set (fork_index db)" "bhs_id p = previous (header b)"
      have "descends db i p"
        by (rule less.hyps) (use forest_link [OF assms(1) less.prems(1) p(1)] p prev in simp_all)
      from less.prems(1) this p(2) [symmetric] show ?thesis by (rule descends_step)
    qed
  qed
qed

lemma descends_above:
  assumes "forest_ok db" "descends db i b" "c \<in> set (fork_index db)" "bhs_id c = i"
  shows "bhs_id b = i \<or> unat (block_num c) < unat (block_num b)"
  using assms(2)
proof (induction rule: descends.induct)
  case (descends_child b)
  then show ?case using forest_link [OF assms(1) _ assms(3)] assms(4) by auto
next
  case (descends_step b p)
  have p: "p \<in> set (fork_index db)" using descends_in_index [OF descends_step(2)] .
  have "bhs_id p = i \<Longrightarrow> p = c" using forest_id_inj [OF assms(1) p assms(3)] assms(4) by simp
  then show ?case using descends_step.IH forest_link [OF assms(1) descends_step(1) p descends_step(3)] by auto
qed simp

lemma queue_step:
  assumes f: "forest_ok db" and q: "queue_ok db i visited (x # rest)"
  shows "queue_ok db i (visited @ [x]) (rest @ children db x)"
proof -
  have new: "c \<notin> set (visited @ x # rest)" if ch: "c \<in> set (children db x)" for c
  proof
    assume c: "c \<in> set (visited @ x # rest)"
    obtain b where b: "b \<in> set (fork_index db)" "bhs_id b = c" "previous (header b) = x"
      using ch by (auto simp: children_iff)
    show False
    proof (cases "c = i")
      case True
      have xi: "x \<noteq> i" using forest_link [OF f b(1) b(1)] b True by auto
      have "x \<in> set (visited @ x # rest)" by simp
      then obtain p where p: "p \<in> set (fork_index db)" "bhs_id p = x"
        by (rule queue_okD [OF q]) (use xi in auto)
      have "descends db i p" using queue_descends [OF f q p(1)] p(2) by simp
      from descends_above [OF f this b(1)] have "unat (block_num b) < unat (block_num p)" using b(2) True p(2) xi by simp
      then show False using forest_link [OF f b(1) p(1)] b(3) p(2) by simp
    next
      case False
      obtain b' where b': "b' \<in> set (fork_index db)" "bhs_id b' = c" "previous (header b') \<in> set visited"
        by (rule queue_okD [OF q c]) (use False in auto)
      then have "b' = b" using forest_id_inj [OF f b'(1) b(1)] b(2) by simp
      then have "x \<in> set visited" using b'(3) b(3) by simp
      then show False using q by (simp add: queue_ok_def)
    qed
  qed
  moreover have "distinct (children db x)"
    using f by (simp add: children_def forest_ok_def distinct_map_filter)
  ultimately have "distinct (visited @ [x] @ rest @ children db x)"
    using q by (auto simp: queue_ok_def)
  moreover have "y = i \<or> (\<exists>b \<in> set (fork_index db). bhs_id b = y \<and> previous (header b) \<in> set (visited @ [x]))"
    if y: "y \<in> set (visited @ [x] @ rest @ children db x)" for y
  proof (cases "y \<in> set (children db x)")
    case True
    then show ?thesis by (auto simp: children_iff)
  next
    case False
    then have "y \<in> set (visited @ x # rest)" using y by auto
    then show ?thesis by (rule queue_okD [OF q]) auto
  qed
  moreover have "set (children db y) \<subseteq> set (visited @ x # rest) \<union> set (children db x)"
    if "y \<in> set (visited @ [x])" for y
    using q that unfolding queue_ok_def by auto
  moreover have "i \<in> set (visited @ x # rest)" using q by (simp add: queue_ok_def)
  ultimately show ?thesis unfolding queue_ok_def by auto
qed

lemma remove_queue_ends:
  assumes t: "forest_ok db" and q: "queue_ok db i visited queue" and hd: "hd_id \<notin> set visited"
  shows "(\<exists>ids. remove_queue db hd_id visited queue = Some (Inr ids) \<and> hd_id \<notin> set ids \<and> queue_ok db i ids []) \<or>
    remove_queue db hd_id visited queue = Some (Inl fork_database_exception) \<and>
      (hd_id = i \<or> (\<exists>b. descends db i b \<and> bhs_id b = hd_id))"
  using q hd
proof (induction "Suc (Suc (length (fork_index db))) - length visited" arbitrary: visited queue rule: less_induct)
  case less
  show ?case
  proof (cases queue)
    case Nil
    then show ?thesis using less.prems by (simp add: remove_queue.simps [of db])
  next
    case (Cons x rest)
    have "set (visited @ queue) \<subseteq> insert i (bhs_id ` set (fork_index db))"
      using less.prems(1) by (auto simp: queue_ok_def)
    then have "card (set (visited @ queue)) \<le> card (insert i (bhs_id ` set (fork_index db)))"
      by (intro card_mono) simp_all
    also have "\<dots> \<le> Suc (card (bhs_id ` set (fork_index db)))" by (simp add: card_insert_if)
    also have "\<dots> \<le> Suc (length (fork_index db))"
      using order.trans [OF card_image_le card_length] by simp
    finally have "length (visited @ queue) \<le> Suc (length (fork_index db))"
      using less.prems(1) distinct_card [of "visited @ queue"] by (simp add: queue_ok_def)
    then have dec: "Suc (Suc (length (fork_index db))) - length (visited @ [x]) <
        Suc (Suc (length (fork_index db))) - length visited"
      by (simp add: Cons)
    show ?thesis
    proof (cases "x = hd_id")
      case True
      then have "remove_queue db hd_id visited queue = Some (Inl fork_database_exception)"
        by (simp add: remove_queue.simps [of db] Cons)
      moreover have "hd_id = i \<or> (\<exists>b. descends db i b \<and> bhs_id b = hd_id)"
      proof (cases "hd_id = i")
        case False
        have "hd_id \<in> set (visited @ queue)" using True Cons by simp
        then obtain b where "b \<in> set (fork_index db)" "bhs_id b = hd_id"
          by (rule queue_okD [OF less.prems(1)]) (use False in auto)
        then show ?thesis using queue_descends [OF t less.prems(1)] True Cons by auto
      qed simp
      ultimately show ?thesis by simp
    next
      case False
      then have "remove_queue db hd_id visited queue = remove_queue db hd_id (visited @ [x]) (rest @ children db x)"
        unfolding Cons by (subst remove_queue.simps) simp
      then show ?thesis
        using less.hyps [OF dec queue_step [OF t less.prems(1) [unfolded Cons]]] False less.prems(2) by simp
    qed
  qed
qed

lemma erase_ids_eq: "erase_ids ids db = db\<lparr>fork_index := filter (\<lambda>b. bhs_id b \<notin> set ids) (fork_index db)\<rparr>"
proof (induction ids arbitrary: db)
  case Nil
  then show ?case by (simp add: erase_ids_def)
next
  case (Cons i ids)
  have "erase_ids (i # ids) db = erase_ids ids (db\<lparr>fork_index := filter (\<lambda>b. bhs_id b \<noteq> i) (fork_index db)\<rparr>)"
    by (simp add: erase_ids_def)
  then show ?case by (simp add: Cons.IH conj_commute)
qed

lemma queue_done_iff:
  assumes "forest_ok db" "queue_ok db i ids []" "b \<in> set (fork_index db)"
  shows "bhs_id b \<in> set ids \<longleftrightarrow> descends db i b"
proof
  assume "bhs_id b \<in> set ids"
  then show "descends db i b" using queue_descends [OF assms] by simp
next
  have closed: "bhs_id c \<in> set ids" if "c \<in> set (fork_index db)" "previous (header c) \<in> set ids" for c
  proof -
    have "bhs_id c \<in> set (children db (previous (header c)))" using that(1) by (auto simp: children_iff)
    then show ?thesis using assms(2) that(2) unfolding queue_ok_def by auto
  qed
  have "i \<in> set ids" using assms(2) by (simp add: queue_ok_def)
  assume "descends db i b"
  then show "bhs_id b \<in> set ids"
    by (induction rule: descends.induct) (use closed \<open>i \<in> set ids\<close> in auto)
qed

lemma fork_remove_eq:
  assumes "forest_ok db" "fork_head db = Some hd_id"
  shows "fork_remove i db =
    (if hd_id = i \<or> (\<exists>b. descends db i b \<and> bhs_id b = hd_id) then Some (Inl fork_database_exception)
     else Some (Inr (db\<lparr>fork_index := filter (\<lambda>b. \<not> descends db i b) (fork_index db)\<rparr>)))"
proof -
  have "queue_ok db i [] [i]" by (simp add: queue_ok_def)
  from remove_queue_ends [OF assms(1) this, of hd_id]
  consider ids where "remove_queue db hd_id [] [i] = Some (Inr ids)" "hd_id \<notin> set ids" "queue_ok db i ids []"
    | "remove_queue db hd_id [] [i] = Some (Inl fork_database_exception)"
      "hd_id = i \<or> (\<exists>b. descends db i b \<and> bhs_id b = hd_id)"
    by auto
  then show ?thesis
  proof cases
    case 1
    note iff = queue_done_iff [OF assms(1) 1(3)]
    have "\<not> (hd_id = i \<or> (\<exists>b. descends db i b \<and> bhs_id b = hd_id))"
      using 1(2, 3) iff descends_in_index by (metis append_Nil2 queue_ok_def)
    moreover have "filter (\<lambda>b. bhs_id b \<notin> set ids) (fork_index db) = filter (\<lambda>b. \<not> descends db i b) (fork_index db)"
      using iff by (intro filter_cong) simp_all
    ultimately show ?thesis using 1(1) by (simp add: fork_remove_def assms(2) erase_ids_eq)
  next
    case 2
    then show ?thesis by (simp add: fork_remove_def assms(2))
  qed
qed

lemma fork_remove_ok:
  assumes "fdb_ok db" "fork_remove i db = Some (Inr db')"
  shows "fdb_ok db'"
proof -
  obtain r where r: "fork_root db = Some r" and t: "tree_ok db r" and h: "head_ok db r" using assms(1) by (rule fdb_okE)
  obtain hs where hs: "head_state db = Inr hs" "hs = r \<and> fork_head db = Some (bhs_id r) \<or>
      hs \<in> set (fork_index db) \<and> validated hs \<and> fork_head db = Some (bhs_id hs) \<and> bhs_id hs \<noteq> bhs_id r"
    and best: "\<And>b. \<lbrakk> b \<in> set (fork_index db); validated b \<rbrakk> \<Longrightarrow> \<not> first_preferred b hs"
    using head_stateE [OF r h] by metis
  have hd: "fork_head db = Some (bhs_id hs)" using hs(2) by auto
  have keep: "\<not> (bhs_id hs = i \<or> (\<exists>b. descends db i b \<and> bhs_id b = bhs_id hs))"
    and db': "db' = db\<lparr>fork_index := filter (\<lambda>b. \<not> descends db i b) (fork_index db)\<rparr>"
    using assms(2) fork_remove_eq [OF tree_forest [OF r t] hd, of i] by (auto split: if_splits)
  have r': "fork_root db' = Some r" by (simp add: db' r)
  have d': "distinct (map bhs_id (fork_index db'))" "bhs_id r \<notin> bhs_id ` set (fork_index db')"
    using t by (auto simp: db' tree_ok_def distinct_map_filter)
  have "linked db' b" if b: "b \<in> set (fork_index db')" for b
  proof -
    have b': "b \<in> set (fork_index db)" "\<not> descends db i b" using b by (simp_all add: db')
    obtain p where p: "p = r \<or> p \<in> set (fork_index db)" "previous (header b) = bhs_id p"
      "unat (block_num b) = Suc (unat (block_num p))"
      using tree_parent [OF r t b'(1)] .
    have "\<not> descends db i p" using b' p(2) by (metis descends_step)
    then show ?thesis using p by (intro linkedI [OF r' d', of p]) (auto simp: db')
  qed
  then have t': "tree_ok db' r" using d' by (simp add: tree_ok_def list_all_iff)
  have "head_state db' = Inr hs"
  proof (cases "hs = r")
    case True
    then show ?thesis using hd r' by (simp add: head_state_def get_block_header_root db')
  next
    case False
    then have "hs \<in> set (fork_index db')" "bhs_id r \<noteq> bhs_id hs" using hs(2) keep by (auto simp: db')
    moreover have "fork_head db' = Some (bhs_id hs)" by (simp add: db' hd)
    ultimately show ?thesis
      using r' get_block_tree [OF t'] by (simp add: head_state_def get_block_header_root)
  qed
  then have "head_ok db' r"
    using hs(2) best by (auto simp: head_ok_def returns_def list_all_iff db')
  then show ?thesis using fdb_okI [OF r' t'] by simp
qed

section \<open>Advancing the root\<close>

lemma ancestors_to_root_branch:
  assumes t: "fork_root db = Some r" "tree_ok db r"
  shows "branch db (previous (header b)) bs \<Longrightarrow> b \<in> set (fork_index db) \<Longrightarrow>
    ancestors_to_root db (bhs_id r) b acc = Some (Inr (acc @ map bhs_id bs @ [bhs_id r]))"
proof (induction bs arbitrary: b acc)
  case Nil
  obtain p where "p = r \<or> p \<in> set (fork_index db)" "previous (header b) = bhs_id p"
    using tree_parent [OF t Nil(2)] by metis
  then have "previous (header b) = bhs_id r" using Nil(1) by (auto simp: branch_Nil get_block_None)
  then show ?case using Nil(1) by (simp add: ancestors_to_root.simps [of db _ b] branch_Nil)
next
  case (Cons c bs)
  then have c: "get_block db (previous (header b)) = Some c" "branch db (previous (header c)) bs"
    by (simp_all add: branch_Cons)
  then have "c \<in> set (fork_index db)" "bhs_id c = previous (header b)" using get_block_in by blast+
  then show ?case
    using Cons.IH [OF c(2), of "acc @ [previous (header b)]"] c(1) by (simp add: ancestors_to_root.simps [of db _ b])
qed

text \<open>What is left after removing the ids one after the other.\<close>

fun removed_index :: "digest list \<Rightarrow> ('k, 'g, 't, 'm) fork_database \<Rightarrow> ('k, 'g, 't, 'm) fork_database" where
  "removed_index [] db = db"
| "removed_index (i # is) db =
     removed_index is (db\<lparr>fork_index := filter (\<lambda>b. \<not> descends db i b) (fork_index db)\<rparr>)"

lemma removed_index_fields:
  "fork_head (removed_index is db) = fork_head db" "fork_root (removed_index is db) = fork_root db"
  "set (fork_index (removed_index is db)) \<subseteq> set (fork_index db)"
  "forest_ok db \<Longrightarrow> forest_ok (removed_index is db)"
proof -
  show "set (fork_index (removed_index is db)) \<subseteq> set (fork_index db)"
  proof (induction "is" arbitrary: db)
    case (Cons i "is")
    show ?case
      using Cons.IH [of "db\<lparr>fork_index := filter (\<lambda>b. \<not> descends db i b) (fork_index db)\<rparr>"] by auto
  qed simp
qed (induction "is" arbitrary: db; simp add: forest_filter)+

lemma remove_all_eq:
  assumes "forest_ok db" "fork_head db = Some hd_id"
  shows "remove_all is db = Some (Inr (removed_index is db)) \<and> hd_id \<notin> set is \<and>
      (hd_id \<in> bhs_id ` set (fork_index db) \<longrightarrow> hd_id \<in> bhs_id ` set (fork_index (removed_index is db))) \<or>
    remove_all is db = Some (Inl fork_database_exception)"
  using assms
proof (induction "is" arbitrary: db)
  case (Cons i "is")
  let ?db = "db\<lparr>fork_index := filter (\<lambda>b. \<not> descends db i b) (fork_index db)\<rparr>"
  show ?case
  proof (cases "hd_id = i \<or> (\<exists>b. descends db i b \<and> bhs_id b = hd_id)")
    case True
    then show ?thesis using fork_remove_eq [OF Cons.prems] by simp
  next
    case False
    have "hd_id \<in> bhs_id ` set (fork_index ?db)" if "hd_id \<in> bhs_id ` set (fork_index db)"
      using that False by auto
    then show ?thesis
      using Cons.IH [OF forest_filter [OF Cons.prems(1)], of "\<lambda>b. \<not> descends db i b"] False fork_remove_eq [OF Cons.prems]
        Cons.prems(2)
      by auto
  qed
qed simp

lemma removed_index_closed:
  assumes "b \<in> set (fork_index (removed_index is db))" "p \<in> set (fork_index db)" "previous (header b) = bhs_id p"
  shows "p \<in> set (fork_index (removed_index is db))"
  using assms
proof (induction "is" arbitrary: db)
  case (Cons i "is")
  let ?db = "db\<lparr>fork_index := filter (\<lambda>b. \<not> descends db i b) (fork_index db)\<rparr>"
  have b: "b \<in> set (fork_index ?db)"
    using Cons.prems(1) removed_index_fields(3) [of "is" ?db] by auto
  then have "\<not> descends db i p" using Cons.prems(3) descends_step [of b db i p] by auto
  then show ?case using Cons.IH [of ?db] Cons.prems by simp
qed simp

lemma removed_index_gone:
  assumes "b \<in> set (fork_index (removed_index is db))" "i \<in> set is"
  shows "bhs_id b \<noteq> i" "previous (header b) \<noteq> i"
proof -
  have "bhs_id b \<noteq> i \<and> previous (header b) \<noteq> i"
    using assms
  proof (induction "is" arbitrary: db)
    case (Cons j "is")
    let ?db = "db\<lparr>fork_index := filter (\<lambda>b. \<not> descends db j b) (fork_index db)\<rparr>"
    have "b \<in> set (fork_index ?db)"
      using Cons.prems(1) removed_index_fields(3) [of "is" ?db] by auto
    then have "bhs_id b \<noteq> j" "previous (header b) \<noteq> j"
      using descends_self [of b db j] descends_child [of b db j] by auto
    then show ?case using Cons.IH [of ?db] Cons.prems by auto
  qed simp
  then show "bhs_id b \<noteq> i" "previous (header b) \<noteq> i" by simp_all
qed

text \<open>A strict descendant of the new root does not descend from anything below the new root.\<close>

lemma descends_parent:
  assumes "descends db i b" "bhs_id b \<noteq> i"
  shows "previous (header b) = i \<or> (\<exists>p. descends db i p \<and> previous (header b) = bhs_id p)"
  using assms by (cases rule: descends.cases) auto

lemma descendants_kept:
  assumes t: "fork_root db = Some r" "tree_ok db r" and n: "n \<in> set (fork_index db)" "bhs_id n = i"
    and below: "\<And>j. j \<in> set ids \<Longrightarrow> j = bhs_id r \<or> (\<exists>c \<in> set (fork_index db). bhs_id c = j \<and> unat (block_num c) < unat (block_num n))"
    and sub: "set (fork_index d) \<subseteq> set (fork_index db)" "n \<notin> set (fork_index d)"
    and b: "descends d j b" "j \<in> set ids" "descends db i b" "bhs_id b \<noteq> i"
  shows False
proof -
  note f = tree_forest [OF t]
  have high: "bhs_id p \<noteq> j" if "descends db i p" for p
  proof
    assume eq: "bhs_id p = j"
    have p: "p \<in> set (fork_index db)" using descends_in_index [OF that] .
    then obtain c where c: "c \<in> set (fork_index db)" "bhs_id c = j" "unat (block_num c) < unat (block_num n)"
      using below [OF b(2)] not_root_id [OF t(2) p] eq by blast
    then have "c = p" using forest_id_inj [OF f c(1) p] eq by simp
    then show False
      using descends_above [OF f that n] c(3) forest_id_inj [OF f p n(1)] n(2) by auto
  qed
  show False
    using b(1, 3, 4)
  proof (induction rule: descends.induct)
    case (descends_self b)
    then show ?case using high by blast
  next
    case (descends_child b)
    have "i \<noteq> j" using high [OF descends.descends_self [OF n]] n(2) by simp
    then show ?case using descends_parent [OF descends_child(3, 4)] high descends_child(2) by metis
  next
    case (descends_step b p)
    have p: "p \<in> set (fork_index d)" "p \<in> set (fork_index db)"
      using descends_in_index [OF descends_step(2)] sub(1) by auto
    have pi: "bhs_id p \<noteq> i" using forest_id_inj [OF f p(2) n(1)] n(2) sub(2) p(1) by auto
    then obtain q where "descends db i q" "bhs_id q = bhs_id p"
      using descends_parent [OF descends_step.prems] descends_step(3) by auto
    then have "descends db i p" using forest_id_inj [OF f descends_in_index p(2)] by metis
    then show ?case using descends_step.IH pi by simp
  qed
qed

lemma removed_index_keeps:
  assumes t: "fork_root db = Some r" "tree_ok db r" and n: "n \<in> set (fork_index db)" "bhs_id n = i"
    and below: "\<And>j. j \<in> set ids \<Longrightarrow> j = bhs_id r \<or> (\<exists>c \<in> set (fork_index db). bhs_id c = j \<and> unat (block_num c) < unat (block_num n))"
    and "set (fork_index d) \<subseteq> set (fork_index db)" "n \<notin> set (fork_index d)"
    and "b \<in> set (fork_index d)" "descends db i b" "bhs_id b \<noteq> i"
  shows "b \<in> set (fork_index (removed_index ids d))"
  using below assms(6-8)
proof (induction ids arbitrary: d)
  case (Cons j ids)
  have "\<not> descends d j b"
    using descendants_kept [OF t n Cons.prems(1) Cons.prems(2, 3) _ _ assms(9, 10), of "j # ids" j] by auto
  then show ?case
    using Cons.IH [of "d\<lparr>fork_index := filter (\<lambda>b. \<not> descends d j b) (fork_index d)\<rparr>"] Cons.prems by auto
qed simp

lemma removed_index_descends:
  assumes t: "fork_root db = Some r" "tree_ok db r" and n: "n \<in> set (fork_index db)" "bhs_id n = i"
    and d: "set (fork_index d) = set (fork_index db) - {n}" and r: "bhs_id r \<in> set ids"
    and b: "b \<in> set (fork_index (removed_index ids d))"
  shows "descends db i b"
  using b
proof (induction "unat (block_num b)" arbitrary: b rule: less_induct)
  case less
  have bi: "b \<in> set (fork_index db)" using less.prems removed_index_fields(3) [of ids d] d by auto
  obtain p where p: "p = r \<or> p \<in> set (fork_index db)" "previous (header b) = bhs_id p"
    "unat (block_num b) = Suc (unat (block_num p))"
    using tree_parent [OF t bi] .
  have pi: "p \<in> set (fork_index db)" using p(1, 2) removed_index_gone(2) [OF less.prems r] by auto
  show ?case
  proof (cases "p = n")
    case True
    then show ?thesis using descends_child [OF bi] p(2) n(2) by simp
  next
    case False
    then have "p \<in> set (fork_index (removed_index ids d))"
      using removed_index_closed [OF less.prems _ p(2)] pi d by simp
    then have "descends db i p" using less.hyps [of p] p(3) by simp
    then show ?thesis using descends_step [OF bi] p(2) by simp
  qed
qed

lemma below_new_root:
  assumes t: "fork_root db = Some r" "tree_ok db r" and n: "n \<in> set (fork_index db)"
    and bs: "branch db (previous (header n)) bs" and j: "j \<in> set (map bhs_id bs @ [bhs_id r])"
  shows "j = bhs_id r \<or> (\<exists>c \<in> set (fork_index db). bhs_id c = j \<and> unat (block_num c) < unat (block_num n))"
proof -
  have nb: "branch db (bhs_id n) (n # bs)" using branch_of_block [OF t(2) n bs] .
  have "map (\<lambda>b. unat (block_num b)) (n # bs) = rev [Suc (unat (block_num r)) ..< Suc (unat (block_num n))]"
    and sub: "set (n # bs) \<subseteq> set (fork_index db)"
    using branch_numbers [OF t nb] by simp_all
  then have "map (\<lambda>b. unat (block_num b)) bs = rev [Suc (unat (block_num r)) ..< unat (block_num n)]"
    by (cases "Suc (unat (block_num r)) \<le> unat (block_num n)") auto
  then have "unat (block_num c) < unat (block_num n)" if "c \<in> set bs" for c
    using that by (metis (no_types, lifting) atLeastLessThan_iff image_eqI set_map set_rev set_upt)
  then show ?thesis using j sub by auto
qed

lemma remove_all_keeping_head:
  assumes t: "fork_root db = Some r" "tree_ok db r" and n: "n \<in> set (fork_index db)" "bhs_id n = i"
    and below: "\<And>j. j \<in> set ids \<Longrightarrow> j = bhs_id r \<or> (\<exists>c \<in> set (fork_index db). bhs_id c = j \<and> unat (block_num c) < unat (block_num n))"
    and "set (fork_index d) \<subseteq> set (fork_index db)" "n \<notin> set (fork_index d)" "forest_ok d" "fork_head d = Some (bhs_id h)"
    and h: "descends db i h"
  shows "\<exists>d'. remove_all ids d = Some (Inr d')"
  using below assms(6-9)
proof (induction ids arbitrary: d)
  case (Cons j ids)
  note f = tree_forest [OF t]
  have hin: "h \<in> set (fork_index db)" using descends_in_index [OF h] .
  have "bhs_id h \<noteq> j"
  proof
    assume eq: "bhs_id h = j"
    then obtain c where c: "c \<in> set (fork_index db)" "bhs_id c = j" "unat (block_num c) < unat (block_num n)"
      using Cons.prems(1) [of j] not_root_id [OF t(2) hin] by auto
    then have "c = h" using forest_id_inj [OF f c(1) hin] eq by simp
    then show False using descends_above [OF f h n] c(3) forest_id_inj [OF f hin n(1)] n(2) by auto
  qed
  moreover have "\<not> (\<exists>b. descends d j b \<and> bhs_id b = bhs_id h)"
  proof
    assume "\<exists>b. descends d j b \<and> bhs_id b = bhs_id h"
    then obtain b where b: "descends d j b" "bhs_id b = bhs_id h" by blast
    have bd: "b \<in> set (fork_index d)" using descends_in_index [OF b(1)] .
    then have "b = h" using forest_id_inj [OF f _ hin] b(2) Cons.prems(2) by auto
    moreover from this have "bhs_id b \<noteq> i" using bd Cons.prems(3) forest_id_inj [OF f hin n(1)] n(2) by auto
    ultimately show False
      using descendants_kept [OF t n Cons.prems(1) Cons.prems(2, 3) b(1), of "j # ids"] h by simp
  qed
  ultimately have "fork_remove j d = Some (Inr (d\<lparr>fork_index := filter (\<lambda>b. \<not> descends d j b) (fork_index d)\<rparr>))"
    using fork_remove_eq [OF Cons.prems(4, 5)] by simp
  then show ?case
    using Cons.IH [of "d\<lparr>fork_index := filter (\<lambda>b. \<not> descends d j b) (fork_index d)\<rparr>"] Cons.prems
      forest_filter [OF Cons.prems(4)] by auto
qed simp

lemma advance_root_result:
  assumes t: "fork_root db = Some r" "tree_ok db r" and hd: "fork_head db = Some hd_id"
    and n: "n \<in> set (fork_index db)" "validated n"
  shows "(\<exists>db'. advance_root (bhs_id n) db = Some (Inr db') \<and> fork_root db' = Some n \<and> fork_head db' = Some hd_id \<and>
      distinct (map bhs_id (fork_index db')) \<and>
      set (fork_index db') = {b. descends db (bhs_id n) b \<and> b \<noteq> n} \<and> hd_id \<noteq> bhs_id r \<and>
      (hd_id \<in> bhs_id ` set (fork_index db) \<longrightarrow> hd_id = bhs_id n \<or> hd_id \<in> bhs_id ` set (fork_index db'))) \<or>
    advance_root (bhs_id n) db = Some (Inl fork_database_exception)"
proof -
  note f = tree_forest [OF t]
  obtain bs where bs: "branch db (previous (header n)) bs" using branch_exists [OF t] by blast
  define ids where "ids = map bhs_id bs @ [bhs_id r]"
  define d where "d = erase_ids [bhs_id n] db"
  define d' where "d' = removed_index ids d"
  have d: "set (fork_index d) = set (fork_index db) - {n}" "fork_head d = Some hd_id" "forest_ok d"
  proof -
    show "set (fork_index d) = set (fork_index db) - {n}"
      using forest_id_inj [OF f _ n(1)] by (auto simp: d_def erase_ids_eq)
    show "fork_head d = Some hd_id" "forest_ok d"
      using hd forest_filter [OF f] by (simp_all add: d_def erase_ids_eq)
  qed
  have anc: "ancestors_to_root db (bhs_id r) n [] = Some (Inr ids)"
    using ancestors_to_root_branch [OF t bs n(1), of "[]"] by (simp add: ids_def)
  have adv: "advance_root (bhs_id n) db = (case remove_all ids d of None \<Rightarrow> None | Some (Inl e) \<Rightarrow> Some (Inl e)
      | Some (Inr db) \<Rightarrow> Some (Inr (db\<lparr>fork_root := Some n\<rparr>)))"
    using get_block_tree [OF t(2) n(1)] n(2) t(1) anc by (simp add: advance_root_def d_def)
  from remove_all_eq [OF d(3, 2), of ids]
  consider "remove_all ids d = Some (Inr d')" "hd_id \<notin> set ids"
      "hd_id \<in> bhs_id ` set (fork_index d) \<longrightarrow> hd_id \<in> bhs_id ` set (fork_index d')"
    | "remove_all ids d = Some (Inl fork_database_exception)"
    by (auto simp: d'_def)
  then show ?thesis
  proof cases
    case 1
    have below: "j = bhs_id r \<or> (\<exists>c \<in> set (fork_index db). bhs_id c = j \<and> unat (block_num c) < unat (block_num n))"
      if "j \<in> set ids" for j
      using below_new_root [OF t n(1) bs] that by (simp only: ids_def)
    have "bhs_id b \<noteq> bhs_id n" if "b \<in> set (fork_index db)" "b \<noteq> n" for b
      using that forest_id_inj [OF f that(1) n(1)] by auto
    then have "b \<in> set (fork_index d')" if "descends db (bhs_id n) b" "b \<noteq> n" for b
      using removed_index_keeps [OF t n(1) refl below, of ids d b] that d(1) descends_in_index [OF that(1)]
      by (auto simp: d'_def)
    moreover have "descends db (bhs_id n) b" "b \<noteq> n" if "b \<in> set (fork_index d')" for b
      using removed_index_descends [OF t n(1) refl d(1), of ids b] that removed_index_fields(3) [of ids d] d(1)
      by (auto simp: d'_def ids_def)
    ultimately have "set (fork_index d') = {b. descends db (bhs_id n) b \<and> b \<noteq> n}" by blast
    moreover have "distinct (map bhs_id (fork_index d'))"
      using removed_index_fields(4) [OF d(3), of ids] by (simp add: d'_def forest_ok_def)
    moreover have "hd_id \<noteq> bhs_id r" using 1(2) by (simp add: ids_def)
    moreover have "fork_head d' = Some hd_id" using d(2) by (simp add: d'_def removed_index_fields)
    moreover have "hd_id = bhs_id n \<or> hd_id \<in> bhs_id ` set (fork_index d')" if "hd_id \<in> bhs_id ` set (fork_index db)"
      using 1(3) that d(1) by auto
    ultimately show ?thesis using adv 1(1) by simp
  next
    case 2
    then show ?thesis using adv by simp
  qed
qed

lemma advance_root_succeeds:
  assumes t: "fork_root db = Some r" "tree_ok db r" and h: "descends db (bhs_id n) h" "fork_head db = Some (bhs_id h)"
    and n: "n \<in> set (fork_index db)" "validated n"
  shows "\<exists>db'. advance_root (bhs_id n) db = Some (Inr db')"
proof -
  note f = tree_forest [OF t]
  obtain bs where bs: "branch db (previous (header n)) bs" using branch_exists [OF t] by blast
  let ?ids = "map bhs_id bs @ [bhs_id r]"
  let ?d = "erase_ids [bhs_id n] db"
  have "\<exists>d'. remove_all ?ids ?d = Some (Inr d')"
  proof (rule remove_all_keeping_head [OF t n(1) refl below_new_root [OF t n(1) bs] _ _ _ _ h(1)])
    show "forest_ok ?d" using forest_filter [OF f] by (simp add: erase_ids_eq)
  qed (use h(2) in \<open>auto simp: erase_ids_eq\<close>)
  moreover have "ancestors_to_root db (bhs_id r) n [] = Some (Inr ?ids)"
    using ancestors_to_root_branch [OF t bs n(1), of "[]"] by simp
  ultimately show ?thesis
    using get_block_tree [OF t(2) n(1)] n(2) t(1) by (auto simp: advance_root_def)
qed

lemma advance_root_total:
  assumes "fdb_ok db" shows "advance_root i db \<noteq> None"
proof -
  obtain r where r: "fork_root db = Some r" and t: "tree_ok db r" and h: "head_ok db r" using assms by (rule fdb_okE)
  obtain hs where "hs = r \<and> fork_head db = Some (bhs_id r) \<or> fork_head db = Some (bhs_id hs)"
    using head_stateE [OF r h] by metis
  then have hd: "fork_head db = Some (bhs_id hs)" by auto
  show ?thesis
  proof (cases "get_block db i")
    case None
    then show ?thesis using r by (simp add: advance_root_def)
  next
    case (Some n)
    then show ?thesis
      using advance_root_result [OF r t hd, of n] get_block_in [OF Some] r
      by (cases "validated n") (auto simp: advance_root_def)
  qed
qed

lemma advance_root_ok:
  assumes "fdb_ok db" "advance_root i db = Some (Inr db')"
  shows "fdb_ok db'"
proof -
  obtain r where r: "fork_root db = Some r" and t: "tree_ok db r" and h: "head_ok db r" using assms(1) by (rule fdb_okE)
  obtain hs where hs: "head_state db = Inr hs" "hs = r \<and> fork_head db = Some (bhs_id r) \<or>
      hs \<in> set (fork_index db) \<and> validated hs \<and> fork_head db = Some (bhs_id hs) \<and> bhs_id hs \<noteq> bhs_id r"
    and best: "\<And>b. \<lbrakk> b \<in> set (fork_index db); validated b \<rbrakk> \<Longrightarrow> \<not> first_preferred b hs"
    using head_stateE [OF r h] by metis
  have hd: "fork_head db = Some (bhs_id hs)" using hs(2) by auto
  obtain n where n: "get_block db i = Some n" "validated n"
    using assms(2) r by (auto simp: advance_root_def split: option.splits if_splits)
  then have ni: "n \<in> set (fork_index db)" "bhs_id n = i" using get_block_in by blast+
  have res: "fork_root db' = Some n" "fork_head db' = Some (bhs_id hs)" "distinct (map bhs_id (fork_index db'))"
    "set (fork_index db') = {b. descends db i b \<and> b \<noteq> n}" "bhs_id hs \<noteq> bhs_id r"
    "bhs_id hs \<in> bhs_id ` set (fork_index db) \<Longrightarrow> bhs_id hs = i \<or> bhs_id hs \<in> bhs_id ` set (fork_index db')"
    using advance_root_result [OF r t hd ni(1) n(2)] assms(2) ni(2) by auto
  have sub: "set (fork_index db') \<subseteq> set (fork_index db)" using res(4) descends_in_index by auto
  have inj: "bhs_id b \<noteq> bhs_id n" if "b \<in> set (fork_index db')" for b
    using that res(4) index_id_inj [OF t _ ni(1)] descends_in_index by blast
  then have nid: "bhs_id n \<notin> bhs_id ` set (fork_index db')" by (metis imageE)
  have "linked db' b" if b: "b \<in> set (fork_index db')" for b
  proof -
    have b': "descends db i b" "b \<in> set (fork_index db)" using b res(4) sub by auto
    obtain p where p: "p = r \<or> p \<in> set (fork_index db)" "previous (header b) = bhs_id p"
      "unat (block_num b) = Suc (unat (block_num p))"
      using tree_parent [OF r t b'(2)] .
    have "p = n \<or> p \<in> set (fork_index db')"
    proof -
      from descends_parent [OF b'(1)] inj [OF b] ni(2)
      consider "bhs_id p = bhs_id n" | q where "descends db i q" "bhs_id p = bhs_id q" using p(2) by auto
      then show ?thesis
      proof cases
        case 1
        then show ?thesis using p(1) index_id_inj [OF t _ ni(1)] not_root_id [OF t ni(1)] by metis
      next
        case 2
        then have "p = q" using p(1) index_id_inj [OF t _ descends_in_index [OF 2(1)]] not_root_id [OF t descends_in_index [OF 2(1)]] by metis
        then show ?thesis using 2(1) res(4) by auto
      qed
    qed
    then show ?thesis using p by (intro linkedI [OF res(1, 3) nid, of p]) auto
  qed
  then have t': "tree_ok db' n" using res(3) nid by (simp add: tree_ok_def list_all_iff)
  have hi: "hs \<in> set (fork_index db)" "validated hs" using hs(2) res(5) by auto
  have "head_state db' = Inr hs"
  proof (cases "bhs_id hs = i")
    case True
    then have "hs = n" using index_id_inj [OF t hi(1) ni(1)] ni(2) by simp
    then show ?thesis using res(1, 2) by (simp add: head_state_def get_block_header_root)
  next
    case False
    then obtain c where "c \<in> set (fork_index db')" "bhs_id c = bhs_id hs" using res(6) hi(1) by auto
    then have "hs \<in> set (fork_index db')" using index_id_inj [OF t _ hi(1)] sub by auto
    then show ?thesis
      using res(1, 2) get_block_tree [OF t'] False ni(2) by (simp add: head_state_def get_block_header_root)
  qed
  then have "head_ok db' n"
    using hi best sub by (auto simp: head_ok_def returns_def list_all_iff)
  then show ?thesis using fdb_okI [OF res(1) t'] by simp
qed

lemma advance_root_exactly:
  assumes "fdb_ok db" "get_block db i = Some n" "validated n"
  shows "if \<exists>h. descends db i h \<and> fork_head db = Some (bhs_id h)
    then \<exists>db'. advance_root i db = Some (Inr db') \<and> fork_root db' = Some n \<and> fork_head db' = fork_head db \<and>
      set (fork_index db') = {b. descends db i b \<and> b \<noteq> n}
    else advance_root i db = Some (Inl fork_database_exception)"
proof -
  obtain r where r: "fork_root db = Some r" and t: "tree_ok db r" and hk: "head_ok db r" using assms(1) by (rule fdb_okE)
  obtain hs where hs: "hs = r \<and> fork_head db = Some (bhs_id r) \<or>
      hs \<in> set (fork_index db) \<and> validated hs \<and> fork_head db = Some (bhs_id hs) \<and> bhs_id hs \<noteq> bhs_id r"
    using head_stateE [OF r hk] by metis
  have hd: "fork_head db = Some (bhs_id hs)" using hs by auto
  have n: "n \<in> set (fork_index db)" "bhs_id n = i" using get_block_in [OF assms(2)] by simp_all
  note result = advance_root_result [OF r t hd n(1) assms(3), unfolded n(2)]
  show ?thesis
  proof (cases "\<exists>h. descends db i h \<and> fork_head db = Some (bhs_id h)")
    case True
    then obtain db' where "advance_root i db = Some (Inr db')"
      using advance_root_succeeds [OF r t _ _ n(1) assms(3)] n(2) by auto
    then show ?thesis using result True hd by auto
  next
    case False
    have "\<not> (hs \<in> set (fork_index db) \<and> (bhs_id hs = i \<or> descends db i hs))"
      using False hd descends_self [of hs db i] by auto
    moreover have "descends db i hs" if hid: "bhs_id hs \<in> bhs_id ` {b. descends db i b \<and> b \<noteq> n}" "hs \<in> set (fork_index db)"
    proof -
      obtain b where b: "descends db i b" "bhs_id b = bhs_id hs" using hid(1) by auto
      then have "b = hs" using index_id_inj [OF t descends_in_index [OF b(1)] hid(2)] by simp
      then show ?thesis using b(1) by simp
    qed
    ultimately have "advance_root i db = Some (Inl fork_database_exception)" using result hs by fastforce
    then show ?thesis using False by simp
  qed
qed

section \<open>Two branches\<close>

lemma root_or_block_in:
  assumes "fork_root db = Some r" "root_or_block db i = Inr b"
  shows "b = r \<or> b \<in> set (fork_index db)" "bhs_id b = i"
  using assms get_block_in [of db i]
  by (auto simp: root_or_block_def get_block_header_root split: option.splits if_splits)

lemma fetch_branch_from_tree:
  assumes "fdb_ok db" "root_or_block db first = Inr b1" "root_or_block db second = Inr b2"
  shows "\<exists>r1 r2 c. fetch_branch_from db first second = Some (Inr (r1, r2)) \<and>
    branch db first (r1 @ c) \<and> branch db second (r2 @ c) \<and> set r1 \<inter> set r2 = {}"
proof -
  obtain r where r: "fork_root db = Some r" and t: "tree_ok db r" using assms(1) by (rule fdb_okE)
  have b1: "b1 = r \<or> b1 \<in> set (fork_index db)" "bhs_id b1 = first"
    and b2: "b2 = r \<or> b2 \<in> set (fork_index db)" "bhs_id b2 = second"
    using root_or_block_in [OF r assms(2)] root_or_block_in [OF r assms(3)] by simp_all
  have low: "unat (block_num r) \<le> unat (block_num b)" if "b = r \<or> b \<in> set (fork_index db)" for b
    using that tree_above_root [OF r t, of b] by auto
  obtain c1 t1 where d1: "descend_to db b1 (block_num b2) [] = Some (Inr (c1, t1))"
    "c1 = r \<or> c1 \<in> set (fork_index db)" "unat (block_num c1) = min (unat (block_num b1)) (unat (block_num b2))"
    "\<forall>x \<in> set t1. unat (block_num x) > unat (block_num b2)"
    "\<And>bs. branch db (bhs_id c1) bs \<Longrightarrow> branch db first (t1 @ bs)"
    using descend_to_tree [OF r t b1(1) low [OF b2(1)], of "[]"] unfolding b1(2) append_Nil by blast
  obtain c2 t2 where d2: "descend_to db b2 (block_num c1) [] = Some (Inr (c2, t2))"
    "c2 = r \<or> c2 \<in> set (fork_index db)" "unat (block_num c2) = min (unat (block_num b2)) (unat (block_num c1))"
    "\<forall>x \<in> set t2. unat (block_num x) > unat (block_num c1)"
    "\<And>bs. branch db (bhs_id c2) bs \<Longrightarrow> branch db second (t2 @ bs)"
    using descend_to_tree [OF r t b2(1) low [OF d1(2)], of "[]"] unfolding b2(2) append_Nil by blast
  have num: "unat (block_num c1) = unat (block_num c2)" using d1(3) d2(3) by simp
  have height: "unat (block_num x) \<le> unat (block_num b2)" if "branch db second bs" "x \<in> set bs" for x bs
  proof -
    have ne: "bs \<noteq> []" using that(2) by auto
    note n = branch_numbers [OF r t that(1) ne]
    have "unat (block_num x) \<in> set (map (\<lambda>b. unat (block_num b)) bs)" using that(2) by simp
    also have "map (\<lambda>b. unat (block_num b)) bs = rev [Suc (unat (block_num r)) ..< Suc (unat (block_num (hd bs)))]"
      using n by blast
    finally have "unat (block_num x) \<le> unat (block_num (hd bs))" unfolding set_rev set_upt by simp
    moreover have "hd bs = b2"
    proof -
      have "hd bs \<in> set (fork_index db)" "bhs_id (hd bs) = second" using n ne by (auto simp: subset_iff)
      then show ?thesis using b2 index_id_inj [OF t, of "hd bs" b2] not_root_id [OF t, of "hd bs"] by auto
    qed
    ultimately show ?thesis by simp
  qed
  show ?thesis
  proof (cases "bhs_id c1 = bhs_id c2")
    case True
    obtain c where c: "branch db (bhs_id c1) c" using branch_exists [OF r t] by blast
    then have br: "branch db first (t1 @ c)" "branch db second (t2 @ c)" using d1(5) d2(5) True by simp_all
    have "set t1 \<inter> set t2 = {}" using height [OF br(2)] d1(4) by fastforce
    moreover have "fetch_branch_from db first second = Some (Inr (t1, t2))"
      using assms(2, 3) d1(1) d2(1) True by (simp add: fetch_branch_from_def)
    ultimately show ?thesis using br by blast
  next
    case False
    have in_index: "c1 \<in> set (fork_index db)" "c2 \<in> set (fork_index db)"
      using d1(2) d2(2) num False tree_above_root [OF r t, of c1] tree_above_root [OF r t, of c2] by auto
    have ne: "c1 \<noteq> c2" using False by auto
    obtain u1 u2 c where u: "descend_both db c1 c2 t1 t2 = Some (Inr (t1 @ u1, t2 @ u2))"
      "branch db (bhs_id c1) (u1 @ c)" "branch db (bhs_id c2) (u2 @ c)" "set u1 \<inter> set u2 = {}"
      "\<forall>x \<in> set u1 \<union> set u2. unat (block_num x) \<le> unat (block_num c1)"
      using descend_both_tree [OF r t in_index num ne, of t1 t2] by blast
    have br: "branch db first ((t1 @ u1) @ c)" "branch db second ((t2 @ u2) @ c)"
      using d1(5) [OF u(2)] d2(5) [OF u(3)] by simp_all
    have "set t1 \<inter> set (t2 @ u2) = {}" using height [OF br(2)] d1(4) by fastforce
    moreover have "set u1 \<inter> set t2 = {}" 
    proof -
      have "x \<notin> set t2" if "x \<in> set u1" for x using bspec [OF u(5), of x] bspec [OF d2(4), of x] that by auto
      then show ?thesis by blast
    qed
    ultimately have "set (t1 @ u1) \<inter> set (t2 @ u2) = {}" using u(4) by auto
    moreover have "fetch_branch_from db first second = Some (Inr (t1 @ u1, t2 @ u2))"
      using assms(2, 3) d1(1) d2(1) False u(1) by (simp add: fetch_branch_from_def)
    ultimately show ?thesis using br by blast
  qed
qed

end
