(* ===== verification/Fork_File.thy ===== *)
theory Fork_File
  imports Fork_Branches "HOL-Library.Multiset"
begin

text \<open>
  The file of the fork database (\<^verbatim>\<open>fork_database::open\<close>, \<^verbatim>\<open>fork_database::close\<close>): the order in which
  the states are written, what is restored when the file is read, and when the file can be read at all.

  Packing and unpacking (\<^verbatim>\<open>fc::raw\<close>) are parameters. What they keep of a state is fixed by the
  \<^verbatim>\<open>FC_REFLECT\<close> lists of the code: the extracted header extensions, the recovered keys and the cached
  transactions of a state are not written.
\<close>

section \<open>Writing and reading\<close>

record ('c, 'k, 'g, 't, 'm) fork_io =
  pack_u32 :: "u32 \<Rightarrow> 'c list"
  unpack_u32 :: "'c list \<Rightarrow> (u32 \<times> 'c list) result"
  pack_size :: "u32 \<Rightarrow> 'c list"
  unpack_size :: "'c list \<Rightarrow> (u32 \<times> 'c list) result"
  pack_id :: "digest \<Rightarrow> 'c list"
  unpack_id :: "'c list \<Rightarrow> (digest \<times> 'c list) result"
  pack_header_state :: "('k, 'g) block_header_state \<Rightarrow> 'c list"
  unpack_header_state :: "'c list \<Rightarrow> (('k, 'g) block_header_state \<times> 'c list) result"
  pack_state :: "('k, 'g, 't, 'm) block_state \<Rightarrow> 'c list"
  unpack_state :: "'c list \<Rightarrow> (('k, 'g, 't, 'm) block_state \<times> 'c list) result"

definition reflected_header_state :: "('k, 'g) block_header_state \<Rightarrow> ('k, 'g) block_header_state" where
  "reflected_header_state s = s\<lparr>header_exts := []\<rparr>"

definition reflected_state :: "('k, 'g, 't, 'm) block_state \<Rightarrow> ('k, 'g, 't, 'm) block_state" where
  "reflected_state b = b\<lparr>header_exts := [], pub_keys_recovered := False, cached_trxs := []\<rparr>"

text \<open>What the file operations rely on: unpacking returns the reflected part of what was packed and leaves the rest.\<close>

definition codec_ok :: "('c, 'k, 'g, 't, 'm) fork_io \<Rightarrow> bool" where
  "codec_ok io \<longleftrightarrow>
     (\<forall>n ds. unpack_u32 io (pack_u32 io n @ ds) = Inr (n, ds)) \<and>
     (\<forall>n ds. unpack_size io (pack_size io n @ ds) = Inr (n, ds)) \<and>
     (\<forall>i ds. unpack_id io (pack_id io i @ ds) = Inr (i, ds)) \<and>
     (\<forall>s ds. unpack_header_state io (pack_header_state io s @ ds) = Inr (reflected_header_state s, ds)) \<and>
     (\<forall>b ds. unpack_state io (pack_state io b @ ds) = Inr (reflected_state b, ds))"

definition magic_number :: u32 where "magic_number = 0x30510FDB"

definition min_supported_version :: u32 where "min_supported_version = 1"

definition max_supported_version :: u32 where "max_supported_version = 1"

text \<open>
  The loop of \<^verbatim>\<open>close\<close> walks the unvalidated and the validated states backwards and writes the less
  preferred of the two first, a validated one on a tie.
\<close>

fun write_order :: "('k, 'g, 't, 'm) block_state list \<Rightarrow> ('k, 'g, 't, 'm) block_state list \<Rightarrow> ('k, 'g, 't, 'm) block_state list" where
  "write_order (u # us) (v # vs) =
     (if first_preferred v u then u # write_order us (v # vs) else v # write_order (u # us) vs)"
| "write_order us [] = us"
| "write_order [] vs = vs"

definition written_states :: "('k, 'g, 't, 'm) fork_database \<Rightarrow> ('k, 'g, 't, 'm) block_state list" where
  "written_states db =
     (let indx = by_lib_block_num db
      in write_order (rev (dropWhile validated indx)) (rev (takeWhile validated indx)))"

text \<open>\<open>None\<close> stands for a file that is left as it was.\<close>

definition fork_close :: "('c, 'k, 'g, 't, 'm) fork_io \<Rightarrow> ('k, 'g, 't, 'm) fork_database \<Rightarrow>
    'c list option \<times> ('k, 'g, 't, 'm) fork_database" where
  "fork_close io db =
     (case fork_root db of
        None \<Rightarrow> (None, db)
      | Some root \<Rightarrow>
          (Some (pack_u32 io magic_number @ pack_u32 io max_supported_version @
             pack_header_state io (block_header_state.truncate root) @
             pack_size io (of_nat (length (fork_index db))) @
             concat (map (pack_state io) (written_states db)) @
             (case fork_head db of Some i \<Rightarrow> pack_id io i | None \<Rightarrow> [])),
           db\<lparr>fork_index := []\<rparr>))"

definition restore_header_exts :: "('k, 'g) fc_env \<Rightarrow> ('k, 'g, 't, 'm) block_state \<Rightarrow> ('k, 'g, 't, 'm) block_state result" where
  "restore_header_exts env s =
     bindR (deref (block s)) (\<lambda>b.
     bindR (validate_and_extract_header_extensions env b) (\<lambda>exts.
       Inr (s\<lparr>header_exts := exts\<rparr>)))"

fun read_states :: "('k, 'g) fc_env \<Rightarrow> ('c, 'k, 'g, 't, 'm) fork_io \<Rightarrow> nat \<Rightarrow> 'c list \<Rightarrow> ('k, 'g, 't, 'm) fork_database \<Rightarrow>
    (('k, 'g, 't, 'm) fork_database \<times> 'c list) result" where
  "read_states env io 0 ds db = Inr (db, ds)"
| "read_states env io (Suc n) ds db =
     bindR (unpack_state io ds) (\<lambda>(s, ds).
     bindR (restore_header_exts env s) (\<lambda>s.
     bindR (fork_add (Some s) False db) (\<lambda>db. read_states env io n ds db)))"

definition restore_head :: "digest \<Rightarrow> ('k, 'g, 't, 'm) fork_database \<Rightarrow> ('k, 'g, 't, 'm) fork_database result" where
  "restore_head head_id db =
     bindR (deref (fork_root db)) (\<lambda>root.
       EOS_ASSERT (bhs_id root = head_id \<or> get_block db head_id \<noteq> None) fork_database_exception
       (let db = db\<lparr>fork_head := Some head_id\<rparr>
        in case by_lib_block_num db of
             [] \<Rightarrow> EOS_ASSERT (head_id = bhs_id root) fork_database_exception (Inr db)
           | candidate # _ \<Rightarrow>
               if \<not> validated candidate
               then EOS_ASSERT (head_id = bhs_id root) fork_database_exception (Inr db)
               else bindR (head_state db) (\<lambda>h.
                 EOS_ASSERT (\<not> first_preferred candidate h) fork_database_exception (Inr db))))"

text \<open>The result has the file, which is removed once it has been read, and the database.\<close>

definition fork_open :: "('k, 'g) fc_env \<Rightarrow> ('c, 'k, 'g, 't, 'm) fork_io \<Rightarrow> 'c list option \<Rightarrow> ('k, 'g, 't, 'm) fork_database \<Rightarrow>
    ('c list option \<times> ('k, 'g, 't, 'm) fork_database) result" where
  "fork_open env io file db =
     (case file of
        None \<Rightarrow> Inr (None, db)
      | Some content \<Rightarrow>
          bindR (unpack_u32 io content) (\<lambda>(totem, ds).
          EOS_ASSERT (totem = magic_number) fork_database_exception (
          bindR (unpack_u32 io ds) (\<lambda>(ver, ds).
          EOS_ASSERT (min_supported_version \<le> ver \<and> ver \<le> max_supported_version) fork_database_exception (
          bindR (unpack_header_state io ds) (\<lambda>(bhs, ds).
          bindR (unpack_size io ds) (\<lambda>(size, ds).
          bindR (read_states env io (unat size) ds (fork_reset bhs db)) (\<lambda>(db, ds).
          bindR (unpack_id io ds) (\<lambda>(head_id, ds).
          bindR (restore_head head_id db) (\<lambda>db. Inr (None, db)))))))))))"

section \<open>The order of the file\<close>

definition pref_key :: "('k, 'a) block_header_state_common_scheme \<Rightarrow> u32 \<times> u32" where
  "pref_key b = (dpos_irreversible_blocknum b, block_num b)"

lemma first_preferred_key: "first_preferred a b \<longleftrightarrow> pref_key b < pref_key a"
  by (simp add: first_preferred_def pref_key_def)

lemma by_lib_key_order:
  assumes "by_lib_key a \<le> by_lib_key b"
  shows "validated b \<Longrightarrow> validated a" "validated a = validated b \<Longrightarrow> pref_key b \<le> pref_key a"
proof -
  show "validated b \<Longrightarrow> validated a" using assms by (auto simp: by_lib_key_def)
  show "validated a = validated b \<Longrightarrow> pref_key b \<le> pref_key a"
    using assms by (auto simp: by_lib_key_def pref_key_def less_eq_prod_def less_prod_def complement_le
        order.strict_iff_order split: if_splits)
qed

lemma sorted_by_lib: "sorted_wrt (\<lambda>a b. by_lib_key a \<le> by_lib_key b) (by_lib_block_num db)"
  using sorted_sort_key [of by_lib_key "fork_index db"] by (simp add: by_lib_block_num_def sorted_map)

lemma validated_prefix:
  "sorted_wrt (\<lambda>a b. by_lib_key a \<le> by_lib_key b) xs \<Longrightarrow>
   takeWhile validated xs = filter validated xs \<and> dropWhile validated xs = filter (\<lambda>b. \<not> validated b) xs"
proof (induction xs)
  case (Cons x xs)
  show ?case
  proof (cases "validated x")
    case False
    have "\<not> validated y" if "y \<in> set xs" for y using Cons.prems that False by_lib_key_order(1) by auto
    then show ?thesis using False by (simp add: filter_empty_conv filter_id_conv)
  qed (use Cons in auto)
qed simp

lemma filter_descending:
  assumes "sorted_wrt (\<lambda>a b. by_lib_key a \<le> by_lib_key b) xs" "\<And>a b. P a \<Longrightarrow> P b \<Longrightarrow> validated a = validated b"
  shows "sorted (map pref_key (rev (filter P xs)))"
proof -
  have "sorted_wrt (\<lambda>a b. pref_key b \<le> pref_key a) (filter P xs)"
    using assms(1)
  proof (induction xs)
    case (Cons x xs)
    have "pref_key y \<le> pref_key x" if "P x" "P y" "y \<in> set xs" for y
      using Cons.prems that assms(2) [OF that(1, 2)] by_lib_key_order(2) [of x y] by simp
    then show ?case using Cons by simp
  qed simp
  then show ?thesis by (simp add: sorted_wrt_rev sorted_wrt_map)
qed

lemma write_order_mset: "mset (write_order us vs) = mset us + mset vs"
  by (induction us vs rule: write_order.induct) auto

lemma write_order_set: "set (write_order us vs) = set us \<union> set vs"
  using arg_cong [OF write_order_mset [of us vs], of set_mset] by simp

lemma write_order_sorted:
  "sorted (map pref_key us) \<Longrightarrow> sorted (map pref_key vs) \<Longrightarrow> sorted (map pref_key (write_order us vs))"
proof (induction us vs rule: write_order.induct)
  case (1 u us v vs)
  then show ?case by (fastforce simp: write_order_set first_preferred_key)
qed simp_all

lemma written_states_sorted: "sorted (map pref_key (written_states db))"
  unfolding written_states_def Let_def
  using validated_prefix [OF sorted_by_lib [of db]]
    filter_descending [OF sorted_by_lib, of validated db] filter_descending [OF sorted_by_lib, of "\<lambda>b. \<not> validated b" db]
  by (intro write_order_sorted) simp_all

lemma written_states_mset: "mset (written_states db) = mset (fork_index db)"
proof -
  have "mset (written_states db) = mset (takeWhile validated (by_lib_block_num db) @ dropWhile validated (by_lib_block_num db))"
    unfolding written_states_def Let_def write_order_mset by (simp only: mset_append mset_rev union_commute)
  then show ?thesis by (simp add: by_lib_block_num_def)
qed

section \<open>Reading back\<close>

fun parents_first :: "digest set \<Rightarrow> ('k, 'g, 't, 'm) block_state list \<Rightarrow> bool" where
  "parents_first ids [] = True"
| "parents_first ids (b # bs) = (previous (header b) \<in> ids \<and> parents_first (insert (bhs_id b) ids) bs)"

lemma sorted_parents_first:
  assumes "sorted (map pref_key bs)"
    and "\<And>x. x \<in> set bs \<Longrightarrow> previous (header x) \<in> ids \<or>
      (\<exists>p \<in> set bs. bhs_id p = previous (header x) \<and> pref_key p < pref_key x)"
  shows "parents_first ids bs"
  using assms
proof (induction bs arbitrary: ids)
  case (Cons b bs)
  have "previous (header b) \<in> ids" using Cons.prems(2) [of b] Cons.prems(1) by force
  moreover have "parents_first (insert (bhs_id b) ids) bs"
  proof (rule Cons.IH)
    fix x assume x: "x \<in> set bs"
    then have "previous (header x) \<in> ids \<or>
        (\<exists>p \<in> set (b # bs). bhs_id p = previous (header x) \<and> pref_key p < pref_key x)"
      using Cons.prems(2) [of x] by simp
    then show "previous (header x) \<in> insert (bhs_id b) ids \<or>
        (\<exists>p \<in> set bs. bhs_id p = previous (header x) \<and> pref_key p < pref_key x)"
      by auto
  qed (use Cons.prems(1) in simp)
  ultimately show ?case by simp
qed simp

lemma parent_last:
  assumes "sorted (map pref_key bs)" "x \<in> set bs" "p \<in> set bs" "bhs_id p = previous (header x)"
    and "pref_key x < pref_key p" "previous (header x) \<notin> ids" "distinct (map bhs_id bs)"
  shows "\<not> parents_first ids bs"
  using assms
proof (induction bs arbitrary: ids)
  case (Cons b bs)
  show ?case
  proof (cases "x = b")
    case False
    then have "x \<in> set bs" using Cons.prems(2) by simp
    moreover from this have "b \<noteq> p" using Cons.prems(1, 5) by force
    ultimately show ?thesis
      using Cons.IH [of "insert (bhs_id b) ids"] Cons.prems by (auto simp: image_iff)
  qed (use Cons.prems(6) in simp)
qed simp

text \<open>A state as it comes back from the file.\<close>

definition restored_state :: "('k, 'g, 't, 'm) block_state \<Rightarrow> ('k, 'g, 't, 'm) block_state" where
  "restored_state b = b\<lparr>pub_keys_recovered := False, cached_trxs := []\<rparr>"

definition restored_root :: "('k, 'g, 't, 'm) block_state \<Rightarrow> ('k, 'g, 't, 'm) block_state" where
  "restored_root r = make_block_state (reflected_header_state (block_header_state.truncate r)) None True False []"

text \<open>The cached header extensions are those of the block.\<close>

definition exts_of_block :: "('k, 'g) fc_env \<Rightarrow> ('k, 'g, 't, 'm) block_state \<Rightarrow> bool" where
  "exts_of_block env b =
     (case block b of None \<Rightarrow> False | Some sb \<Rightarrow> validate_and_extract_header_extensions env sb = Inr (header_exts b))"

lemma restored_state_simps [simp]:
  "bhs_id (restored_state b) = bhs_id b" "header (restored_state b) = header b"
  "validated (restored_state b) = validated b" "pref_key (restored_state b) = pref_key b"
  "block_num (restored_state b) = block_num b" "by_lib_key (restored_state b) = by_lib_key b"
  by (simp_all add: restored_state_def pref_key_def by_lib_key_def)

lemma restored_root_simps [simp]:
  "bhs_id (restored_root r) = bhs_id r" "pref_key (restored_root r) = pref_key r" "block_num (restored_root r) = block_num r"
  by (simp_all add: restored_root_def make_block_state_def reflected_header_state_def pref_key_def
      block_header_state.defs block_state.defs)

lemma restore_header_exts_reflected:
  "exts_of_block env b \<Longrightarrow> restore_header_exts env (reflected_state b) = Inr (restored_state b)"
  by (auto simp: exts_of_block_def restore_header_exts_def reflected_state_def restored_state_def split: option.splits)

lemma codec_okD:
  assumes "codec_ok io"
  shows "unpack_u32 io (pack_u32 io n @ ds) = Inr (n, ds)" "unpack_size io (pack_size io n @ ds) = Inr (n, ds)"
    "unpack_id io (pack_id io i @ ds) = Inr (i, ds)"
    "unpack_header_state io (pack_header_state io s @ ds) = Inr (reflected_header_state s, ds)"
    "unpack_state io (pack_state io b @ ds) = Inr (reflected_state b, ds)"
  using assms unfolding codec_ok_def by blast+

text \<open>Adding a state whose parent is present and whose id is new appends it; only the head may change besides.\<close>

lemma fork_add_appends:
  assumes "fork_root db = Some r" "bhs_id n \<notin> bhs_id ` set (fork_index db)"
    and "previous (header n) \<in> insert (bhs_id r) (bhs_id ` set (fork_index db))"
  shows "\<exists>hd_id. fork_add (Some n) False db = Inr (db\<lparr>fork_index := fork_index db @ [n], fork_head := hd_id\<rparr>)"
proof -
  have "get_block db (bhs_id n) = None" using assms(2) by (simp add: get_block_None)
  moreover have "returns (get_block_header db (previous (header n))) (\<lambda>p. p \<noteq> None)"
    using assms(1, 3) get_block_None [of db "previous (header n)"]
    by (auto simp: get_block_header_root returns_def)
  then obtain p where "get_block_header db (previous (header n)) = Inr (Some p)" by (auto simp: returns_iff)
  ultimately show ?thesis
    using assms(1) by (cases db) (auto simp: fork_add_def EOS_ASSERT_def Let_def)
qed

lemma read_states_written:
  assumes "codec_ok io"
  shows "\<lbrakk> fork_root db = Some r; list_all (exts_of_block env) bs;
     parents_first (insert (bhs_id r) (bhs_id ` set (fork_index db))) bs; distinct (map bhs_id (fork_index db @ bs)) \<rbrakk> \<Longrightarrow>
   \<exists>hd_id. read_states env io (length bs) (concat (map (pack_state io) bs) @ ds) db =
     Inr (db\<lparr>fork_index := fork_index db @ map restored_state bs, fork_head := hd_id\<rparr>, ds)"
proof (induction bs arbitrary: db)
  case Nil
  then show ?case by (cases db) auto
next
  case (Cons b bs)
  obtain h where add: "fork_add (Some (restored_state b)) False db =
      Inr (db\<lparr>fork_index := fork_index db @ [restored_state b], fork_head := h\<rparr>)"
    using fork_add_appends [OF Cons.prems(1), of "restored_state b"] Cons.prems(3, 4) by auto
  let ?db = "db\<lparr>fork_index := fork_index db @ [restored_state b], fork_head := h\<rparr>"
  have "\<exists>hd_id. read_states env io (length bs) (concat (map (pack_state io) bs) @ ds) ?db =
     Inr (?db\<lparr>fork_index := fork_index ?db @ map restored_state bs, fork_head := hd_id\<rparr>, ds)"
    by (rule Cons.IH) (use Cons.prems in \<open>auto simp: insert_commute\<close>)
  then show ?case
    using add Cons.prems(2) by (auto simp: codec_okD [OF assms] restore_header_exts_reflected)
qed

lemma fork_add_unlinkable:
  assumes "fork_root db = Some r" "previous (header n) \<notin> insert (bhs_id r) (bhs_id ` set (fork_index db))"
  shows "fork_add (Some n) False db = Inl unlinkable_block_exception"
  using assms get_block_None [of db "previous (header n)"]
  by (auto simp: fork_add_def EOS_ASSERT_def get_block_header_root)

lemma read_states_unlinkable:
  assumes "codec_ok io"
  shows "\<lbrakk> fork_root db = Some r; list_all (exts_of_block env) bs;
     \<not> parents_first (insert (bhs_id r) (bhs_id ` set (fork_index db))) bs; distinct (map bhs_id (fork_index db @ bs)) \<rbrakk> \<Longrightarrow>
   read_states env io (length bs) (concat (map (pack_state io) bs) @ ds) db = Inl unlinkable_block_exception"
proof (induction bs arbitrary: db)
  case (Cons b bs)
  show ?case
  proof (cases "previous (header b) \<in> insert (bhs_id r) (bhs_id ` set (fork_index db))")
    case True
    then obtain h where add: "fork_add (Some (restored_state b)) False db =
        Inr (db\<lparr>fork_index := fork_index db @ [restored_state b], fork_head := h\<rparr>)"
      using fork_add_appends [OF Cons.prems(1), of "restored_state b"] Cons.prems(4) by auto
    let ?db = "db\<lparr>fork_index := fork_index db @ [restored_state b], fork_head := h\<rparr>"
    have "read_states env io (length bs) (concat (map (pack_state io) bs) @ ds) ?db = Inl unlinkable_block_exception"
      by (rule Cons.IH) (use Cons.prems True in \<open>auto simp: insert_commute\<close>)
    then show ?thesis
      using add Cons.prems(2) by (simp add: codec_okD [OF assms] restore_header_exts_reflected)
  next
    case False
    then show ?thesis
      using fork_add_unlinkable [OF Cons.prems(1), of "restored_state b"] Cons.prems(2)
      by (simp add: codec_okD [OF assms] restore_header_exts_reflected)
  qed
qed simp

section \<open>Closing and opening again\<close>

text \<open>No block has a lower irreversible block than its parent.\<close>

definition lib_ordered :: "('k, 'g, 't, 'm) fork_database \<Rightarrow> bool" where
  "lib_ordered db = list_all (\<lambda>b. case get_block db (previous (header b)) of
     None \<Rightarrow> True | Some p \<Rightarrow> dpos_irreversible_blocknum p \<le> dpos_irreversible_blocknum b) (fork_index db)"

lemma written_parents_first:
  assumes "fork_root db = Some r" "tree_ok db r" "lib_ordered db"
  shows "parents_first {bhs_id r} (written_states db)"
proof (rule sorted_parents_first [OF written_states_sorted])
  fix x assume "x \<in> set (written_states db)"
  then have x: "x \<in> set (fork_index db)" using written_states_mset mset_eq_setD by blast
  have set: "set (written_states db) = set (fork_index db)" using written_states_mset mset_eq_setD by blast
  have "linked db x" using assms(2) x by (auto simp: tree_ok_def list_all_iff)
  from linkedE [OF assms(1) this] obtain p where
    p: "p = r \<and> previous (header x) = bhs_id r \<or>
      previous (header x) \<noteq> bhs_id r \<and> p \<in> set (fork_index db) \<and> bhs_id p = previous (header x) \<and>
      get_block db (previous (header x)) = Some p"
    "unat (block_num x) = Suc (unat (block_num p))" .
  show "previous (header x) \<in> {bhs_id r} \<or>
      (\<exists>p \<in> set (written_states db). bhs_id p = previous (header x) \<and> pref_key p < pref_key x)"
  proof (cases "previous (header x) = bhs_id r")
    case False
    then have "p \<in> set (fork_index db)" "bhs_id p = previous (header x)" "get_block db (previous (header x)) = Some p"
      using p(1) by auto
    moreover from this(3) have "dpos_irreversible_blocknum p \<le> dpos_irreversible_blocknum x"
      using assms(3) x by (auto simp: lib_ordered_def list_all_iff)
    moreover have "block_num p < block_num x" using p(2) by (simp add: word_less_nat_alt)
    ultimately show ?thesis unfolding set pref_key_def by (auto simp: less_prod_def)
  qed simp
qed

text \<open>The checks on the head pass for every database that satisfies the invariant.\<close>

lemma restore_head_ok:
  assumes "fdb_ok db" "fork_head db = Some i"
  shows "restore_head i (db\<lparr>fork_head := x\<rparr>) = Inr db"
proof -
  obtain r where r: "fork_root db = Some r" and t: "tree_ok db r" and h: "head_ok db r" using assms(1) by (rule fdb_okE)
  obtain hs where hs: "head_state db = Inr hs" "hs = r \<and> i = bhs_id r \<or>
      hs \<in> set (fork_index db) \<and> validated hs \<and> i = bhs_id hs \<and> bhs_id hs \<noteq> bhs_id r"
    "\<And>b. \<lbrakk> b \<in> set (fork_index db); validated b \<rbrakk> \<Longrightarrow> \<not> first_preferred b hs"
    by (rule head_stateE [OF r h]) (use assms(2) in simp)
  have same: "db\<lparr>fork_head := Some i\<rparr> = db" using assms(2) by (cases db) simp
  have found: "bhs_id r = i \<or> get_block (db\<lparr>fork_head := x\<rparr>) i \<noteq> None"
    using hs(2) by (auto simp: get_block_None)
  have set: "set (by_lib_block_num db) = set (fork_index db)" by (simp add: by_lib_block_num_def)
  show ?thesis
  proof (cases "by_lib_block_num db")
    case Nil
    then show ?thesis using r hs(2) found same set by (auto simp: restore_head_def EOS_ASSERT_def Let_def)
  next
    case (Cons c cs)
    then have c: "c \<in> set (fork_index db)" "c = hd (by_lib_block_num db)" using set by auto
    have "i = bhs_id r" if "\<not> validated c" using hs(2) candidate_best(1) [of hs db] that c(2) by auto
    then show ?thesis
      using r found same Cons hs(1) hs(3) [OF c(1)] by (auto simp: restore_head_def EOS_ASSERT_def Let_def)
  qed
qed

definition reopened :: "('k, 'g, 't, 'm) fork_database \<Rightarrow> ('k, 'g, 't, 'm) fork_database" where
  "reopened db = \<lparr>fork_index = map restored_state (written_states db),
     fork_root = map_option restored_root (fork_root db), fork_head = fork_head db\<rparr>"

lemma reopened_ok:
  assumes "fdb_ok db" shows "fdb_ok (reopened db)"
proof -
  obtain r where r: "fork_root db = Some r" and t: "tree_ok db r" and h: "head_ok db r" using assms by (rule fdb_okE)
  have ms: "mset (map bhs_id (written_states db)) = mset (map bhs_id (fork_index db))" by (simp add: written_states_mset)
  have set: "set (written_states db) = set (fork_index db)" using written_states_mset mset_eq_setD by blast
  have root: "fork_root (reopened db) = Some (restored_root r)" using r by (simp add: reopened_def)
  have ids: "map bhs_id (fork_index (reopened db)) = map bhs_id (written_states db)" by (simp add: reopened_def)
  have dist: "distinct (map bhs_id (fork_index (reopened db)))"
    using t mset_eq_imp_distinct_iff [OF ms] ids by (simp add: tree_ok_def)
  have index: "set (fork_index (reopened db)) = restored_state ` set (fork_index db)" by (simp add: reopened_def set)
  have fresh: "bhs_id (restored_root r) \<notin> bhs_id ` set (fork_index (reopened db))"
    using t by (auto simp: tree_ok_def index)
  have linked: "linked (reopened db) b" if b: "b \<in> set (fork_index (reopened db))" for b
  proof -
    obtain b0 where b0: "b = restored_state b0" "b0 \<in> set (fork_index db)" using b index by auto
    then obtain p where p: "p = r \<or> p \<in> set (fork_index db)" "previous (header b0) = bhs_id p"
      "unat (block_num b0) = Suc (unat (block_num p))"
      using tree_parent [OF r t b0(2)] by metis
    let ?p = "if p = r then restored_root r else restored_state p"
    show ?thesis by (rule linkedI [OF root dist fresh, of ?p]) (use p b0 index in auto)
  qed
  have tree: "tree_ok (reopened db) (restored_root r)"
    using dist fresh linked by (simp add: tree_ok_def list_all_iff)
  obtain hs where hs: "hs = r \<and> fork_head db = Some (bhs_id r) \<or>
      hs \<in> set (fork_index db) \<and> validated hs \<and> fork_head db = Some (bhs_id hs) \<and> bhs_id hs \<noteq> bhs_id r"
    "\<And>b. \<lbrakk> b \<in> set (fork_index db); validated b \<rbrakk> \<Longrightarrow> \<not> first_preferred b hs"
    using head_stateE [OF r h] by metis
  have "returns (head_state (reopened db)) (\<lambda>h. pref_key h = pref_key hs \<and> (fork_head db = Some (bhs_id r) \<or> validated h))"
    using hs(1)
  proof
    assume "hs = r \<and> fork_head db = Some (bhs_id r)"
    then show ?thesis using root by (simp add: head_state_def get_block_header_root returns_def reopened_def)
  next
    assume a: "hs \<in> set (fork_index db) \<and> validated hs \<and> fork_head db = Some (bhs_id hs) \<and> bhs_id hs \<noteq> bhs_id r"
    then have "get_block (reopened db) (bhs_id hs) = Some (restored_state hs)"
      using get_block_Some [OF dist] index by auto
    moreover have "fork_head (reopened db) = Some (bhs_id hs)" using a by (simp add: reopened_def)
    ultimately show ?thesis using a root by (auto simp: head_state_def get_block_header_root returns_def)
  qed
  then have "head_ok (reopened db) (restored_root r)"
    using hs(2) index by (auto simp: head_ok_def returns_iff list_all_iff first_preferred_key reopened_def)
  then show ?thesis using root tree by (rule fdb_okI [rotated 2])
qed

lemma open_written:
  assumes "codec_ok io" "fork_root db = Some r" "fork_head db = Some i" "length (fork_index db) < 2 ^ 32"
  shows "fork_open env io (fst (fork_close io db)) db0 =
    bindR (read_states env io (length (written_states db)) (concat (map (pack_state io) (written_states db)) @ pack_id io i @ [])
        (fork_reset (reflected_header_state (block_header_state.truncate r)) db0)) (\<lambda>(db, ds).
      bindR (unpack_id io ds) (\<lambda>(head_id, ds). bindR (restore_head head_id db) (\<lambda>db. Inr (None, db))))"
proof -
  note codec = codec_okD [OF assms(1)]
  have len: "length (written_states db) = length (fork_index db)" using written_states_mset mset_eq_length by blast
  have size: "unat (of_nat (length (fork_index db)) :: u32) = length (fork_index db)"
    using assms(4) by (simp add: unat_of_nat take_bit_nat_eq_self)
  have close: "fst (fork_close io db) = Some (pack_u32 io magic_number @ pack_u32 io max_supported_version @
      pack_header_state io (block_header_state.truncate r) @ pack_size io (of_nat (length (fork_index db))) @
      concat (map (pack_state io) (written_states db)) @ pack_id io i @ [])"
    using assms(2, 3) by (simp add: fork_close_def)
  show ?thesis
    unfolding fork_open_def close len
    by (simp add: codec(1, 2, 4) size EOS_ASSERT_def min_supported_version_def max_supported_version_def)
qed

lemma written_states_facts:
  assumes "tree_ok db r" "list_all (exts_of_block env) (fork_index db)"
  shows "set (written_states db) = set (fork_index db)" "distinct (map bhs_id (written_states db))"
    "list_all (exts_of_block env) (written_states db)"
proof -
  have ms: "mset (map bhs_id (written_states db)) = mset (map bhs_id (fork_index db))" by (simp add: written_states_mset)
  show set: "set (written_states db) = set (fork_index db)" using written_states_mset mset_eq_setD by blast
  show "distinct (map bhs_id (written_states db))"
    using assms(1) mset_eq_imp_distinct_iff [OF ms] by (simp add: tree_ok_def)
  show "list_all (exts_of_block env) (written_states db)" using assms(2) set by (simp add: list_all_iff)
qed

lemma reopen_restores:
  assumes "codec_ok io" "fdb_ok db" "lib_ordered db" "list_all (exts_of_block env) (fork_index db)" "length (fork_index db) < 2 ^ 32"
  shows "fork_open env io (fst (fork_close io db)) db0 = Inr (None, reopened db)"
proof -
  obtain r where r: "fork_root db = Some r" and t: "tree_ok db r" and h: "head_ok db r" using assms(2) by (rule fdb_okE)
  obtain i where i: "fork_head db = Some i" using head_stateE [OF r h] by metis
  note w = written_states_facts [OF t assms(4)]
  let ?db = "fork_reset (reflected_header_state (block_header_state.truncate r)) db0"
  have root: "fork_root ?db = Some (restored_root r)" "fork_index ?db = []"
    by (simp_all add: fork_reset_def restored_root_def)
  have "\<exists>hd_id. read_states env io (length (written_states db)) (concat (map (pack_state io) (written_states db)) @ pack_id io i @ []) ?db =
     Inr (?db\<lparr>fork_index := fork_index ?db @ map restored_state (written_states db), fork_head := hd_id\<rparr>, pack_id io i @ [])"
    by (rule read_states_written [OF assms(1) root(1) w(3)]) (use w(2) written_parents_first [OF r t assms(3)] root(2) in simp_all)
  then obtain x where read: "read_states env io (length (written_states db))
      (concat (map (pack_state io) (written_states db)) @ pack_id io i @ []) ?db = Inr ((reopened db)\<lparr>fork_head := x\<rparr>, pack_id io i @ [])"
    using r by (auto simp: reopened_def fork_reset_def restored_root_def)
  have head: "restore_head i ((reopened db)\<lparr>fork_head := x\<rparr>) = Inr (reopened db)"
    using restore_head_ok [OF reopened_ok [OF assms(2)], of i x] i by (simp add: reopened_def)
  show ?thesis
    unfolding open_written [OF assms(1) r i assms(5)] read using head codec_okD(3) [OF assms(1), of i "[]"] by simp
qed

lemma reopen_unlinkable:
  assumes "codec_ok io" "fdb_ok db" "\<not> lib_ordered db" "list_all (exts_of_block env) (fork_index db)" "length (fork_index db) < 2 ^ 32"
  shows "fork_open env io (fst (fork_close io db)) db0 = Inl unlinkable_block_exception"
proof -
  obtain r where r: "fork_root db = Some r" and t: "tree_ok db r" and h: "head_ok db r" using assms(2) by (rule fdb_okE)
  obtain i where i: "fork_head db = Some i" using head_stateE [OF r h] by metis
  note w = written_states_facts [OF t assms(4)]
  obtain x p where x: "x \<in> set (fork_index db)" and p: "get_block db (previous (header x)) = Some p"
    and lib: "dpos_irreversible_blocknum x < dpos_irreversible_blocknum p"
    using assms(3) by (auto simp: lib_ordered_def list_all_iff split: option.splits)
  have p': "p \<in> set (fork_index db)" "bhs_id p = previous (header x)"
    using p unfolding get_block_def by (auto simp: find_Some_iff)
  have "bhs_id r \<notin> bhs_id ` set (fork_index db)" using t by (simp add: tree_ok_def)
  then have "previous (header x) \<noteq> bhs_id r" using p' by (metis imageI)
  moreover have "pref_key x < pref_key p" using lib by (simp add: pref_key_def less_prod_def)
  ultimately have late: "\<not> parents_first {bhs_id r} (written_states db)"
    using parent_last [OF written_states_sorted, of x db p "{bhs_id r}"] w(1, 2) x p' by simp
  let ?db = "fork_reset (reflected_header_state (block_header_state.truncate r)) db0"
  have root: "fork_root ?db = Some (restored_root r)" "fork_index ?db = []"
    by (simp_all add: fork_reset_def restored_root_def)
  have "read_states env io (length (written_states db)) (concat (map (pack_state io) (written_states db)) @ pack_id io i @ []) ?db =
      Inl unlinkable_block_exception"
    by (rule read_states_unlinkable [OF assms(1) root(1) w(3)]) (use w(2) late root(2) in simp_all)
  then show ?thesis unfolding open_written [OF assms(1) r i assms(5)] by simp
qed

end
