(* ===== verification/Block_Consensus.thy ===== *)
theory Block_Consensus
  imports Block_Header_State
begin

text \<open>
  What the header state machine guarantees along a chain of accepted headers: the numbering and
  irreversibility invariant, the quorum behind the last irreversible block and when that block cannot
  move back, the tree of block ids, block signatures, and the agreement of producing and validating.
\<close>

section \<open>Chains of headers\<close>

text \<open>
  Accepting a list of headers, each with its additional signatures; the second result lists the ids of
  the blocks the chain was extended from, oldest first.
\<close>

fun bhs_run :: "('k, 'g) fc_env \<Rightarrow> bool \<Rightarrow> ('k, 'g) block_header_state \<Rightarrow> ('g signed_block_header \<times> 'g list) list \<Rightarrow>
    (('k, 'g) block_header_state \<times> digest list) result" where
  "bhs_run env skip s [] = Inr (s, [])"
| "bhs_run env skip s ((h, sigs) # hs) =
     bindR (bhs_next env s h sigs skip) (\<lambda>s'.
     bindR (bhs_run env skip s' hs) (\<lambda>(t, ids). Inr (t, bhs_id s # ids)))"

lemma bhs_run_ok:
  assumes endian: "\<And>n. endian_reverse_u32 env (endian_reverse_u32 env n) = n"
    and "bhs_ok env s" "bhs_run env skip s hs = Inr (t, ids)" "unat (block_num s) + length hs < 2 ^ 32"
  shows "bhs_ok env t \<and> unat (block_num t) = unat (block_num s) + length hs \<and>
    dpos_proposed_irreversible_blocknum s \<le> dpos_proposed_irreversible_blocknum t"
  using assms(2-)
proof (induction hs arbitrary: s ids)
  case (Cons x hs)
  obtain h sigs where x: "x = (h, sigs)" by (cases x)
  obtain s' ids' where step: "bhs_next env s h sigs skip = Inr s'" and run: "bhs_run env skip s' hs = Inr (t, ids')"
    using Cons.prems(2) by (auto simp: x bindR_pair_Inr)
  have "unat (block_num s) < 2 ^ 32 - 1" using Cons.prems(3) by simp
  then have "block_num s \<noteq> - 1" by (auto simp: unat_max_word)
  note next_ok = bhs_next_ok [OF Cons.prems(1) step this endian]
  have "unat (block_num s') + length hs < 2 ^ 32" using next_ok(2) Cons.prems(3) by simp
  from Cons.IH [OF next_ok(1) run this] show ?case using next_ok(2, 3) by auto
qed simp

lemma bhs_run_merkle:
  assumes "merkle_repr (hash_pair env) old (blockroot_merkle s)" "bhs_run env skip s hs = Inr (t, ids)"
    and "length old + length hs < 2 ^ 64"
  shows "merkle_repr (hash_pair env) (old @ ids) (blockroot_merkle t) \<and> length ids = length hs"
  using assms
proof (induction hs arbitrary: s ids old)
  case (Cons x hs)
  obtain h sigs where x: "x = (h, sigs)" by (cases x)
  obtain s' ids' where step: "bhs_next env s h sigs skip = Inr s'" and run: "bhs_run env skip s' hs = Inr (t, ids')"
    and ids: "ids = bhs_id s # ids'"
    using Cons.prems(2) by (auto simp: x bindR_pair_Inr)
  from step obtain m d where app: "append_im (hash_pair env) (bhs_id s) (blockroot_merkle s) = Inr (m, d)"
    and m: "blockroot_merkle s' = m"
    by (elim bhs_nextE) (simp add: Let_def)
  have "merkle_repr (hash_pair env) (old @ [bhs_id s]) m"
    using append_im_repr [OF Cons.prems(1), of "bhs_id s"] app Cons.prems(3) by auto
  then show ?case
    using Cons.IH [of "old @ [bhs_id s]" s' ids'] run Cons.prems(3) by (simp add: m ids)
qed simp

section \<open>Signatures\<close>

lemma recover_all:
  "foldR (\<lambda>sg ks. bindR (rec sg) (\<lambda>k. EOS_ASSERT (k \<notin> set ks) e (Inr (ks @ [k])))) sgs acc = Inr r \<longleftrightarrow>
     (\<exists>ks. mapR rec sgs = Inr ks \<and> distinct ks \<and> set ks \<inter> set acc = {} \<and> r = acc @ ks)"
proof (induction sgs arbitrary: acc)
  case (Cons sg sgs)
  show ?case by (cases "rec sg") (auto simp: Cons.IH)
qed auto

lemma count_presented:
  assumes "distinct (map kw_key kws)" "distinct ks"
  shows "length (filter (\<lambda>kw. kw_key kw \<in> set ks) kws) = length ks \<longleftrightarrow> set ks \<subseteq> kw_key ` set kws"
proof -
  let ?f = "filter (\<lambda>kw. kw_key kw \<in> set ks) kws"
  have "distinct (map kw_key ?f)" using assms(1) by (rule distinct_map_filter)
  then have "length ?f = card (kw_key ` set ?f)"
    by (metis distinct_card length_map set_map)
  moreover have "kw_key ` set ?f = set ks \<inter> kw_key ` set kws" by auto
  moreover have "length ks = card (set ks)" using assms(2) by (simp add: distinct_card)
  ultimately show ?thesis
    by (metis List.finite_set card_subset_eq inf.absorb1 inf_le1 inf_le2)
qed

lemma verify_signee_iff:
  assumes "distinct (map kw_key (bsa_keys (valid_block_signing_authority s)))"
  shows "verify_signee env s = Inr () \<longleftrightarrow>
    (\<exists>ks. mapR (\<lambda>g. recover_key env g (sig_digest env s)) (producer_signature (header s) # additional_signatures s) = Inr ks \<and>
       distinct ks \<and> set ks \<subseteq> kw_key ` set (bsa_keys (valid_block_signing_authority s)) \<and>
       unat (bsa_threshold (valid_block_signing_authority s)) \<le>
         (\<Sum>kw \<leftarrow> filter (\<lambda>kw. kw_key kw \<in> set ks) (bsa_keys (valid_block_signing_authority s)). unat (kw_weight kw)))"
  (is "_ \<longleftrightarrow> (\<exists>ks. ?recovered ks \<and> ?good ks)")
proof -
  let ?a = "valid_block_signing_authority s"
  have "verify_signee env s = Inr () \<longleftrightarrow> 1 + length (additional_signatures s) \<le> length (bsa_keys ?a) \<and>
      (\<exists>ks. ?recovered ks \<and> distinct ks \<and>
        length (filter (\<lambda>kw. kw_key kw \<in> set ks) (bsa_keys ?a)) = length ks \<and>
        unat (bsa_threshold ?a) \<le> (\<Sum>kw \<leftarrow> filter (\<lambda>kw. kw_key kw \<in> set ks) (bsa_keys ?a). unat (kw_weight kw)))"
    unfolding verify_signee_def Let_def
    by (cases "recover_key env (producer_signature (header s)) (sig_digest env s)")
      (auto simp: recover_all keys_satisfy_and_relevant_eq Let_def)
  moreover have "1 + length (additional_signatures s) \<le> length (bsa_keys ?a)"
    if "?recovered ks" "length (filter (\<lambda>kw. kw_key kw \<in> set ks) (bsa_keys ?a)) = length ks" for ks
    using that length_filter_le [of "\<lambda>kw. kw_key kw \<in> set ks" "bsa_keys ?a"]
    by (auto simp: mapR_Inr dest!: list_all2_lengthD)
  ultimately show ?thesis using count_presented [OF assms] by metis
qed

section \<open>The last irreversible block\<close>

lemma fm_set_existing:
  assumes "fm_ok m" "fm_find k m \<noteq> None"
  shows "fm_set k v m = map (\<lambda>i. (fst i, if fst i = k then v else snd i)) m"
  using assms
proof (induction m)
  case (Cons x m)
  have ok: "fm_ok m" and gt: "\<And>a. a \<in> set m \<Longrightarrow> fst x < fst a"
    using Cons.prems(1) by (auto simp: fm_ok_def)
  show ?case
  proof (cases "k = fst x")
    case True
    then have "map (\<lambda>i. (fst i, if fst i = k then v else snd i)) m = m"
      by (intro map_idI) (auto dest: gt)
    then show ?thesis using True by (cases x) simp
  next
    case False
    then have "fm_find k m \<noteq> None" using Cons.prems(2) by simp
    then have "fst x < k" using gt by (auto simp: fm_find_None_iff)
    then show ?thesis using Cons.IH [OF ok \<open>fm_find k m \<noteq> None\<close>] by (cases x) auto
  qed
qed simp

lemma scheduled_producer_in_schedule:
  assumes "get_scheduled_producer s t = Inr pro"
  shows "pro \<in> set (producers (active_schedule s))"
proof -
  have n: "0 < length (producers (active_schedule s))"
    and pro: "pro = producers (active_schedule s) !
      (unat t mod (length (producers (active_schedule s)) * producer_repetitions) div producer_repetitions)"
    using assms by (auto simp: get_scheduled_producer_def Let_def)
  have "unat t mod (length (producers (active_schedule s)) * producer_repetitions) <
      length (producers (active_schedule s)) * producer_repetitions"
    using n by (simp add: producer_repetitions_def)
  then have "unat t mod (length (producers (active_schedule s)) * producer_repetitions) div producer_repetitions <
      length (producers (active_schedule s))"
    by (simp add: less_mult_imp_div_less)
  then show ?thesis unfolding pro by (rule nth_mem)
qed

text \<open>
  Without a pending schedule, the values the next block sorts are those of this block, one of them
  raised.
\<close>

lemma implied_values_grow:
  assumes ok: "bhs_ok env s" and step: "bhs_next env s h sigs skip = Inr s'" and room: "block_num s \<noteq> - 1"
    and no_pending: "\<not> has_pending_producers s"
  shows "\<exists>p. dpos_irreversible_blocknum s' = calc_dpos_last_irreversible s p \<and>
    list_all2 (\<le>) (implied_after s p) (implied_after s' q)"
proof -
  let ?pr = "dpos_proposed_irreversible_blocknum s"
  from step obtain t pro m where pro: "get_scheduled_producer s t = Inr pro"
    and eq: "let p = next_result s t (confirmed h) pro m in
       dpos_proposed_irreversible_blocknum s' = dpos_proposed_irreversible_blocknum p \<and>
       dpos_irreversible_blocknum s' = dpos_irreversible_blocknum p \<and>
       producer_to_last_implied_irb s' = producer_to_last_implied_irb p"
    by (elim bhs_nextE) (simp add: Let_def)
  define n where "n = next_result s t (confirmed h) pro m"
  have ok': "fm_ok (producer_to_last_implied_irb s)" and le: "?pr \<le> dpos_proposed_irreversible_blocknum n"
    using ok next_result_bounds(3) [OF _ room n_def, of env] by (auto simp: bhs_ok_eq bhs_tracked_def)
  have "fm_find (producer_name pro) (producer_to_last_implied_irb s) \<noteq> None"
    using ok scheduled_producer_in_schedule [OF pro] by (auto simp: bhs_ok_def list_all_iff)
  moreover have "\<not> promotes_pending s lib" for lib
    using no_pending by (simp add: promotes_pending_def has_pending_producers_def)
  ultimately have implied: "producer_to_last_implied_irb n =
      map (\<lambda>i. (fst i, if fst i = producer_name pro then ?pr else snd i)) (producer_to_last_implied_irb s)"
    using fm_set_existing [OF ok'] by (simp add: n_def next_result_def Let_def)
  have "snd i \<le> ?pr" if "i \<in> set (producer_to_last_implied_irb s)" for i
    using ok that by (auto simp: bhs_ok_def list_all_iff)
  then have "list_all2 (\<le>) (implied_after s (producer_name pro)) (implied_after s' q)"
    using eq le unfolding implied_after_def n_def [symmetric] Let_def
    by (auto simp: implied list_all2_map1 list_all2_map2 list_all2_same intro: order.trans)
  then show ?thesis using eq by (intro exI [of _ "producer_name pro"]) (simp add: Let_def)
qed

lemma lib_step_mono:
  assumes "bhs_ok env s" "bhs_next env s h sigs skip = Inr s'" "block_num s \<noteq> - 1" "\<not> has_pending_producers s"
    and "bhs_next env s' h' sigs' skip' = Inr s''"
  shows "dpos_irreversible_blocknum s' \<le> dpos_irreversible_blocknum s''"
proof -
  from assms(5) obtain q where q: "dpos_irreversible_blocknum s'' = calc_dpos_last_irreversible s' q"
    by (elim bhs_nextE) (simp add: Let_def)
  obtain p where p: "dpos_irreversible_blocknum s' = calc_dpos_last_irreversible s p"
    and le: "list_all2 (\<le>) (implied_after s p) (implied_after s' q)"
    using implied_values_grow [OF assms(1-4)] by blast
  have len: "length (implied_after s' q) = length (implied_after s p)" using le by (simp add: list_all2_lengthD)
  show ?thesis
  proof (cases "implied_after s p = []")
    case True
    then show ?thesis by (simp add: p calc_dpos_eq)
  next
    case False
    then have "(length (implied_after s p) - 1) div 3 < length (implied_after s p)" by (cases "implied_after s p") auto
    from sort_nth_mono [OF le this] show ?thesis using False len by (auto simp: p q calc_dpos_eq)
  qed
qed

lemma calc_dpos_quorum:
  assumes "implied_after s p \<noteq> []"
  shows "2 * length (implied_after s p) <
      3 * length (filter (\<lambda>v. calc_dpos_last_irreversible s p \<le> v) (implied_after s p))"
    and "calc_dpos_last_irreversible s p < w \<Longrightarrow>
      length (filter (\<lambda>v. w \<le> v) (implied_after s p)) < length (implied_after s p) - (length (implied_after s p) - 1) div 3"
proof -
  let ?xs = "implied_after s p"
  have i: "(length ?xs - 1) div 3 < length ?xs" using assms by (cases ?xs) auto
  have "length ?xs - (length ?xs - 1) div 3 \<le> length (filter (\<lambda>v. calc_dpos_last_irreversible s p \<le> v) ?xs)"
    using sort_nth_count [OF i] assms by (simp add: calc_dpos_eq)
  moreover have "2 * length ?xs < 3 * (length ?xs - (length ?xs - 1) div 3)"
    using assms by (cases "length ?xs") auto
  ultimately show "2 * length ?xs < 3 * length (filter (\<lambda>v. calc_dpos_last_irreversible s p \<le> v) ?xs)" by linarith
  show "length (filter (\<lambda>v. w \<le> v) ?xs) < length ?xs - (length ?xs - 1) div 3"
    if "calc_dpos_last_irreversible s p < w"
    using sort_nth_maximal [OF i, of w] that assms by (simp add: calc_dpos_eq)
qed

section \<open>Producing and validating agree\<close>

lemma finish_next_common_signature:
  "finish_next_common env p (h\<lparr>producer_signature := g\<rparr>) =
     bindR (finish_next_common env p h) (\<lambda>r. Inr (r\<lparr>header := h\<lparr>producer_signature := g\<rparr>\<rparr>))"
proof -
  have ids: "header_id env (h\<lparr>producer_signature := g\<rparr>) = header_id env h"
    "validate_and_extract_header_extensions env (h\<lparr>producer_signature := g\<rparr>) = validate_and_extract_header_extensions env h"
    "finish_schedule env p (h\<lparr>producer_signature := g\<rparr>) = finish_schedule env p h"
    by (simp_all add: header_id_def header_digest_def header_block_num_def block_header.defs
        validate_and_extract_header_extensions_def finish_schedule_def fun_eq_iff split: option.split)
  show ?thesis
    by (simp add: finish_next_common_def finish_checks_def ids EOS_ASSERT_def)
      (auto simp: bindR_def block_header_state_common.defs block_header_state.defs split: sum.split)
qed

lemma next_pending_same_slot:
  assumes "bhs_next_pending env s when conf = Inr p"
  shows "bhs_next_pending env s (pend_timestamp p) (pend_confirmed p) = Inr p"
proof -
  let ?t = "timestamp (header s)"
  from assms obtain t pro m d where
    n: "t = (if when \<noteq> 0 then when else ?t + 1)" "when = 0 \<or> when > ?t" "p = next_result s t conf pro m"
    by (rule bhs_next_pendingE)
  show ?thesis
  proof (cases "when = 0 \<and> ?t + 1 \<noteq> 0")
    case True
    then have "?t \<noteq> - 1" by auto
    then have "?t < ?t + 1" using unat_plus_one [of ?t] by (simp add: word_less_nat_alt)
    then show ?thesis using assms n True by (simp add: bhs_next_pending_def)
  next
    case False
    then show ?thesis using assms n by auto
  qed
qed

lemma produced_header_validates:
  assumes "bhs_next_pending env s when conf = Inr p"
    and "h = make_block_header env p g0 trx_mroot act_mroot np standby standby_num"
    and "finish_next_signed env p h signer = Inr (h', r)"
  shows "bhs_next env s h' (additional_signatures r) skip = Inr r"
proof -
  obtain c where c: "finish_next_common env p h = Inr c" and s: "sign_header env c signer = Inr r"
    and h': "h' = h\<lparr>producer_signature := producer_signature (header r)\<rparr>"
    using assms(3) by (auto simp: finish_next_signed_def)
  have hc: "header c = h" and ac: "additional_signatures c = []"
    using c by (auto elim!: finish_next_commonE)
  obtain sigs where r: "r = c\<lparr>header := (header c)\<lparr>producer_signature := last sigs\<rparr>,
      additional_signatures := butlast sigs\<rparr>" and v: "verify_signee env r = Inr ()"
    using s by (auto simp: sign_header_def Let_def)
  have hr: "h' = header r" by (simp add: h' r hc)
  have "timestamp h' = pend_timestamp p" "confirmed h' = pend_confirmed p"
    by (simp_all add: h' assms(2) make_block_header_def)
  then have "bhs_next_pending env s (timestamp h') (confirmed h') = Inr p"
    using next_pending_same_slot [OF assms(1)] by simp
  moreover have "finish_next_common env p h' = Inr (c\<lparr>header := header r\<rparr>)"
    unfolding h' finish_next_common_signature c by (simp add: hr [unfolded h'])
  moreover have "(if additional_signatures r \<noteq> [] then c\<lparr>header := header r, additional_signatures := additional_signatures r\<rparr>
      else c\<lparr>header := header r\<rparr>) = r"
    using ac by (auto simp: r)
  ultimately show ?thesis
    using v by (auto simp: bhs_next_def finish_next_def Let_def split: if_splits)
qed

section \<open>Double confirmation\<close>

lemma not_double_confirming_exact:
  assumes "unat conf \<le> Suc (unat (block_num s))" "block_num s \<noteq> - 1"
    and "fm_find p (producer_to_last_produced s) = Some n"
  shows "not_double_confirming s p conf \<longleftrightarrow> unat n + unat conf < Suc (unat (block_num s))"
proof -
  have u: "unat (ucast conf :: u32) = unat conf"
    by (simp add: unsigned_ucast_eq take_bit_nat_eq_self unsigned_less [THEN order.strict_trans])
  have "unat ((block_num s + 1) - ucast conf) = Suc (unat (block_num s)) - unat conf"
    using assms(1) unat_plus_one [OF assms(2)] by (subst unat_sub) (simp_all add: word_le_nat_alt u)
  then show ?thesis using assms by (auto simp: not_double_confirming_def word_less_nat_alt)
qed

lemma not_double_confirming_wraps:
  assumes "Suc (unat (block_num s)) < unat conf" "list_all (\<lambda>(p, v). v \<le> block_num s) (producer_to_last_produced s)"
  shows "not_double_confirming s p conf"
proof -
  have c: "unat conf < 2 ^ 16" using unsigned_less [of conf, where ?'a = nat] by simp
  have u: "unat (ucast conf :: u32) = unat conf"
    by (simp add: unsigned_ucast_eq take_bit_nat_eq_self unsigned_less [THEN order.strict_trans])
  have b: "unat (block_num s) < 2 ^ 16 - 1" using assms(1) c by simp
  then have "block_num s \<noteq> - 1" by (auto simp: unat_max_word)
  then have b1: "unat (block_num s + 1) = Suc (unat (block_num s))" by (rule unat_plus_one)
  have "\<not> ucast conf \<le> block_num s + 1" using assms(1) by (simp add: word_le_nat_alt u b1)
  then have "unat ((block_num s + 1) - ucast conf) = Suc (unat (block_num s)) + 2 ^ 32 - unat conf"
    by (simp add: unat_sub_if_size word_size u b1 word_le_nat_alt)
  then have "unat (block_num s) < unat ((block_num s + 1) - ucast conf)" using c by simp
  then show ?thesis
    using assms(2) fm_find_Some_in_set [of p "producer_to_last_produced s"]
    by (force simp: not_double_confirming_def word_less_nat_alt word_le_nat_alt list_all_iff split: option.split)
qed

section \<open>Example states\<close>

definition single_key :: "nat \<Rightarrow> nat block_signing_authority_v0" where
  "single_key k = \<lparr>bsa_threshold = 1, bsa_keys = [\<lparr>kw_key = k, kw_weight = 1\<rparr>]\<rparr>"

definition example_schedule :: "u32 \<Rightarrow> u64 list \<Rightarrow> nat producer_authority_schedule" where
  "example_schedule v names =
     \<lparr>version = v, producers = map (\<lambda>n. \<lparr>producer_name = n, pa_authority = single_key (unat n)\<rparr>) names\<rparr>"

definition example_header :: "u32 \<Rightarrow> u64 \<Rightarrow> digest \<Rightarrow> u32 \<Rightarrow> nat signed_block_header" where
  "example_header slot p prev v =
     \<lparr>timestamp = slot, producer = p, confirmed = 0, previous = prev, transaction_mroot = digest_zero,
      action_mroot = digest_zero, schedule_version = v, header_extensions = [],
      hdr_enable_standby_schedule = False, hdr_standby_schedule_block_num = None, producer_signature = unat p\<rparr>"

text \<open>Block 20, signed by producer 1 of four; producer 4 has been absent for a while.\<close>

definition example_state :: "(nat, nat) block_header_state" where
  "example_state =
     \<lparr>block_num = 20, dpos_proposed_irreversible_blocknum = 12, dpos_irreversible_blocknum = 10,
      active_schedule = example_schedule 1 [1, 2, 3, 4], blockroot_merkle = incremental_merkle_empty,
      producer_to_last_produced = [(1, 20), (2, 18), (3, 19), (4, 2)],
      producer_to_last_implied_irb = [(1, 10), (2, 10), (3, 10), (4, 1)],
      valid_block_signing_authority = single_key 1, confirm_count = [2, 3],
      enable_standby_schedule = False, standby_schedule_block_num = None,
      bhs_id = \<lparr>hash0 = 0x14000000, hash1 = 0, hash2 = 0, hash3 = 0\<rparr>,
      header = example_header 47 1 digest_zero 1,
      pending_schedule = \<lparr>schedule_lib_num = 5, schedule_hash = digest_zero, schedule = example_schedule 2 []\<rparr>,
      additional_signatures = [], header_exts = []\<rparr>"

definition example_first :: "nat signed_block_header" where
  "example_first = example_header 48 1 \<lparr>hash0 = 0x14000000, hash1 = 0, hash2 = 0, hash3 = 0\<rparr> 1"

lemma example_state_ok: "bhs_ok env_reference example_state"
  by code_simp

definition example_second :: "nat signed_block_header" where
  "example_second = example_header 49 1 (header_id env_reference example_first) 1"

lemma example_run:
  "returns (bhs_run env_reference False example_state [(example_first, []), (example_second, [])]) (\<lambda>r. True)"
  by code_simp

section \<open>Properties\<close>

text \<open>
  C4: along every chain of accepted headers that stays below \<open>2 ^ 32\<close> blocks, the number of the last
  block is the number inside its id and grows by one per header, the last irreversible block is never
  ahead of the proposed one nor that ahead of the chain, one counter is kept for at most every block
  since the proposed one, no producer is recorded beyond the chain, and the proposed irreversible
  block never moves back.
\<close>

theorem header_chain_invariant:
  assumes "\<And>n. endian_reverse_u32 env (endian_reverse_u32 env n) = n"
    and "bhs_ok env s" "bhs_run env skip s hs = Inr (t, ids)" "unat (block_num s) + length hs < 2 ^ 32"
  shows "bhs_ok env t \<and> unat (block_num t) = unat (block_num s) + length hs \<and>
    dpos_proposed_irreversible_blocknum s \<le> dpos_proposed_irreversible_blocknum t"
  using assms by (rule bhs_run_ok)

theorem header_chain_invariant_witness:
  "\<exists>t ids. bhs_run env_reference False example_state [(example_first, []), (example_second, [])] = Inr (t, ids) \<and>
     bhs_ok env_reference t \<and> unat (block_num t) = 22"
proof -
  obtain t ids where
    run: "bhs_run env_reference False example_state [(example_first, []), (example_second, [])] = Inr (t, ids)"
    using example_run by (auto simp: returns_iff)
  have num: "unat (block_num example_state) = 20" by (simp add: example_state_def)
  show ?thesis
    using header_chain_invariant [OF env_reference_endian example_state_ok run] run num by auto
qed

text \<open>
  C10: the last irreversible block is backed by more than two thirds of the producers' proposals, and
  no later block is backed by as many as the rule asks for: fewer than \<open>n - (n - 1) div 3\<close> of the \<open>n\<close>
  proposals reach any greater number.
\<close>

theorem lib_quorum:
  assumes "implied_after s p \<noteq> []"
  shows "2 * length (implied_after s p) <
      3 * length (filter (\<lambda>v. calc_dpos_last_irreversible s p \<le> v) (implied_after s p)) \<and>
    (\<forall>w > calc_dpos_last_irreversible s p.
      length (filter (\<lambda>v. w \<le> v) (implied_after s p)) <
      length (implied_after s p) - (length (implied_after s p) - 1) div 3)"
  using calc_dpos_quorum [OF assms] by blast

theorem lib_quorum_witness:
  "2 * length (implied_after example_state 1) <
     3 * length (filter (\<lambda>v. calc_dpos_last_irreversible example_state 1 \<le> v) (implied_after example_state 1))"
proof -
  have "implied_after example_state 1 \<noteq> []" by code_simp
  from lib_quorum [OF this] show ?thesis by blast
qed

text \<open>
  C11: while no schedule is pending, the last irreversible block does not move back from one accepted
  header to the next.
\<close>

theorem lib_monotone:
  assumes "bhs_ok env s" "bhs_next env s h sigs skip = Inr s'" "block_num s \<noteq> - 1" "\<not> has_pending_producers s"
    and "bhs_next env s' h' sigs' skip' = Inr s''"
  shows "dpos_irreversible_blocknum s' \<le> dpos_irreversible_blocknum s''"
  using assms by (rule lib_step_mono)

theorem lib_monotone_witness:
  "\<exists>s' s''. bhs_next env_reference example_state example_first [] False = Inr s' \<and>
     bhs_next env_reference s' example_second [] False = Inr s'' \<and>
     dpos_irreversible_blocknum s' \<le> dpos_irreversible_blocknum s''"
proof -
  have "returns (bhs_next env_reference example_state example_first [] False) (\<lambda>s'.
      returns (bhs_next env_reference s' example_second [] False) (\<lambda>s''. True))"
    by code_simp
  then obtain s' s'' where s: "bhs_next env_reference example_state example_first [] False = Inr s'"
    "bhs_next env_reference s' example_second [] False = Inr s''"
    by (auto simp: returns_iff)
  have "block_num example_state \<noteq> - 1" "\<not> has_pending_producers example_state" by code_simp+
  then show ?thesis using lib_monotone [OF example_state_ok s(1) _ _ s(2)] s by blast
qed

text \<open>
  C21: the tree kept in the header state commits to the whole chain: after any run of accepted headers
  its root is the Merkle root of the ids of all blocks before the last, in order.
\<close>

theorem blockroot_commits_to_chain:
  assumes "append_all (hash_pair env) old incremental_merkle_empty = Inr (blockroot_merkle s)"
    and "bhs_run env skip s hs = Inr (t, ids)" "length old + length hs < 2 ^ 64"
  shows "get_root (blockroot_merkle t) = merkle (hash_pair env) (old @ ids)"
proof -
  obtain m where "append_all (hash_pair env) old incremental_merkle_empty = Inr m" "merkle_repr (hash_pair env) old m"
    using im.add_all_root [of old "hash_pair env"] assms(3) by (auto simp: append_all_def)
  then have "merkle_repr (hash_pair env) old (blockroot_merkle s)" using assms(1) by simp
  from bhs_run_merkle [OF this assms(2, 3)] assms(3) show ?thesis
    by (simp add: im.repr_root)
qed

theorem blockroot_commits_to_chain_witness:
  "\<exists>t ids. bhs_run env_reference False example_state [(example_first, []), (example_second, [])] = Inr (t, ids) \<and>
     get_root (blockroot_merkle t) = merkle (hash_pair env_reference) ids"
proof -
  obtain t ids where
    run: "bhs_run env_reference False example_state [(example_first, []), (example_second, [])] = Inr (t, ids)"
    using example_run by (auto simp: returns_iff)
  have "append_all (hash_pair env_reference) [] incremental_merkle_empty = Inr (blockroot_merkle example_state)"
    by (simp add: append_all_def example_state_def)
  from blockroot_commits_to_chain [OF this run] run show ?thesis by auto
qed

text \<open>
  C20: with pairwise different keys in the signing authority, the signatures of a header are accepted
  exactly when every signature yields a key, the keys are pairwise different, all belong to the
  authority, and their weights reach its threshold.
\<close>

theorem verify_signee_exact:
  assumes "distinct (map kw_key (bsa_keys (valid_block_signing_authority s)))"
  shows "verify_signee env s = Inr () \<longleftrightarrow>
    (\<exists>ks. mapR (\<lambda>g. recover_key env g (sig_digest env s)) (producer_signature (header s) # additional_signatures s) = Inr ks \<and>
       distinct ks \<and> set ks \<subseteq> kw_key ` set (bsa_keys (valid_block_signing_authority s)) \<and>
       unat (bsa_threshold (valid_block_signing_authority s)) \<le>
         (\<Sum>kw \<leftarrow> filter (\<lambda>kw. kw_key kw \<in> set ks) (bsa_keys (valid_block_signing_authority s)). unat (kw_weight kw)))"
  using assms by (rule verify_signee_iff)

theorem verify_signee_exact_witness:
  "verify_signee env_reference example_state = Inr ()"
  using verify_signee_exact [of example_state env_reference]
  by (simp add: example_state_def single_key_def example_header_def env_reference_def)

text \<open>
  A header that a producer builds on a state and signs is accepted on that state by every validator,
  with the producer's resulting state as the result, whatever slot, confirmations, new producers and
  standby settings it was built with.
\<close>

theorem produced_header_accepted:
  assumes "bhs_next_pending env s when conf = Inr p"
    and "finish_next_signed env p (make_block_header env p g0 trx_mroot act_mroot np standby standby_num) signer = Inr (h', r)"
  shows "bhs_next env s h' (additional_signatures r) skip = Inr r"
  using produced_header_validates [OF assms(1) refl assms(2)] .

theorem produced_header_accepted_witness:
  "\<exists>p h' r. bhs_next_pending env_reference example_state 0 0 = Inr p \<and>
     finish_next_signed env_reference p (make_block_header env_reference p 0 digest_zero digest_zero None False None)
       (\<lambda>d. Inr [1]) = Inr (h', r) \<and>
     bhs_next env_reference example_state h' (additional_signatures r) False = Inr r"
proof -
  have "returns (bhs_next_pending env_reference example_state 0 0) (\<lambda>p.
     returns (finish_next_signed env_reference p
       (make_block_header env_reference p 0 digest_zero digest_zero None False None) (\<lambda>d. Inr [1])) (\<lambda>r. True))"
    by code_simp
  then obtain p h' r where p: "bhs_next_pending env_reference example_state 0 0 = Inr p"
    "finish_next_signed env_reference p (make_block_header env_reference p 0 digest_zero digest_zero None False None)
       (\<lambda>d. Inr [1]) = Inr (h', r)"
    by (auto simp: returns_iff)
  from produced_header_accepted [OF this] p show ?thesis by blast
qed

text \<open>
  C37: the check against double confirmation compares wrapped 32-bit numbers: a header that claims to
  confirm more blocks than the chain has passes it for every producer, although the range it claims
  covers blocks the producer already signed.
\<close>

theorem double_confirm_check_wraps:
  assumes "bhs_ok env s" "Suc (unat (block_num s)) < unat conf"
  shows "not_double_confirming s p conf"
  using assms by (intro not_double_confirming_wraps) (simp_all add: bhs_ok_def)

theorem double_confirm_check_wraps_witness:
  "not_double_confirming example_state 1 22 \<and> \<not> not_double_confirming example_state 1 21"
proof -
  have "\<not> not_double_confirming example_state 1 21" by code_simp
  moreover have "not_double_confirming example_state 1 22"
    by (rule double_confirm_check_wraps [OF example_state_ok]) (simp add: example_state_def)
  ultimately show ?thesis by simp
qed

end
