(* ===== verification/Fork_Chain.thy ===== *)
theory Fork_Chain
  imports Fork_File Block_Consensus
begin

text \<open>
  The fork database together with the block states that are put into it: blocks received from the
  network and blocks produced by the node itself are built on a block of the tree, so that the
  invariant of the tree, the numbering of ids and the cached extensions hold for every database that
  the operations can reach. The properties of the fork database are stated here.
\<close>

section \<open>Block states built on a parent\<close>

text \<open>What both constructors of a block state guarantee.\<close>

definition built_on :: "('k, 'g) fc_env \<Rightarrow> ('k, 'g) block_header_state \<Rightarrow> ('k, 'g, 't, 'm) block_state \<Rightarrow> bool" where
  "built_on env p n \<longleftrightarrow>
     previous (header n) = bhs_id p \<and> block_num n = block_num p + 1 \<and> bhs_id n = header_id env (header n) \<and>
     exts_of_block env n"

lemma make_block_state_simps [simp]:
  "header (make_block_state s b v k t) = header s" "bhs_id (make_block_state s b v k t) = bhs_id s"
  "block_num (make_block_state s b v k t) = block_num s" "header_exts (make_block_state s b v k t) = header_exts s"
  "block (make_block_state s b v k t) = b" "validated (make_block_state s b v k t) = v"
  "dpos_irreversible_blocknum (make_block_state s b v k t) = dpos_irreversible_blocknum s"
  by (simp_all add: make_block_state_def block_header_state.defs block_state.defs)

lemma truncated_header_simps [simp]:
  "header_extensions (signed_block_header.truncate b) = header_extensions b"
  "producer_signature (signed_block_header.truncate b) = producer_signature b"
  by (simp_all add: signed_block_header.defs)

lemma finish_next_common_built:
  assumes "finish_next_common env p h = Inr r"
  shows "header r = h" "bhs_id r = header_id env h" "previous h = pend_previous p" "block_num r = block_num p"
    "validate_and_extract_header_extensions env h = Inr (header_exts r)" "additional_signatures r = []"
  using assms by (auto elim!: finish_next_commonE)

lemma block_state_of_block_built:
  assumes "block_state_of_block env p b skip = Inr n"
  shows "built_on env p n"
proof -
  obtain sigs s where s: "bhs_next env p (signed_block_header.truncate b) sigs skip = Inr s"
    "n = make_block_state s (Some b) False False []"
    using assms by (auto simp: block_state_of_block_def)
  let ?h = "signed_block_header.truncate b"
  obtain q c where q: "bhs_next_pending env p (timestamp ?h) (confirmed ?h) = Inr q" "finish_next_common env q ?h = Inr c"
    "s = c \<or> s = c\<lparr>additional_signatures := sigs\<rparr>"
    using s(1) by (auto simp: bhs_next_def finish_next_def Let_def split: if_splits)
  note c = finish_next_common_built [OF q(2)]
  have "pend_previous q = bhs_id p" "block_num q = block_num p + 1" using q(1) by (auto elim!: bhs_next_pendingE)
  moreover have "validate_and_extract_header_extensions env b = Inr (header_exts c)"
    using c(5) by (simp add: validate_and_extract_header_extensions_def)
  ultimately show ?thesis using c q(3) by (auto simp: built_on_def exts_of_block_def s(2))
qed

text \<open>A block assembled by the node: its header is made from the pending state.\<close>

definition produced_block :: "('k, 'g) fc_env \<Rightarrow> ('k, 'g) block_header_state \<Rightarrow> ('g, 't) signed_block \<Rightarrow>
    ('k, 'g, 't, 'm) block_state \<Rightarrow> bool" where
  "produced_block env p b n \<longleftrightarrow>
     (\<exists>slot conf cur g0 trx_mroot act_mroot np standby standby_num trxs signer.
        bhs_next_pending env p slot conf = Inr cur \<and>
        signed_block_header.truncate b = make_block_header env cur g0 trx_mroot act_mroot np standby standby_num \<and>
        block_extensions b = [] \<and> block_state_of_pending env cur b trxs signer = Inr n)"

lemma sign_header_fields:
  assumes "sign_header env c signer = Inr r"
  shows "\<exists>g sigs. r = c\<lparr>header := (header c)\<lparr>producer_signature := g\<rparr>, additional_signatures := sigs\<rparr>"
    "verify_signee env r = Inr ()"
  using assms by (auto simp: sign_header_def Let_def)

lemma header_id_signature: "header_id env (h\<lparr>producer_signature := g\<rparr>) = header_id env h"
  by (simp add: header_id_def header_digest_def header_block_num_def block_header.defs)

lemma block_state_of_pendingE:
  assumes "block_state_of_pending env cur b trxs signer = Inr n"
  obtains h r b' where "finish_next_signed env cur (signed_block_header.truncate b) signer = Inr (h, r)"
    "b' = (if additional_signatures r \<noteq> []
       then b\<lparr>producer_signature := producer_signature h, block_extensions :=
         emplace_extension (block_extensions b) additional_sigs_eid (pack_signatures env (additional_signatures r))\<rparr>
       else b\<lparr>producer_signature := producer_signature h\<rparr>)"
    "n = make_block_state r (Some b') False True trxs"
  using assms by (auto simp: block_state_of_pending_def inject_additional_signatures_def Let_def)

lemma produced_block_built:
  assumes "produced_block env p b n"
  shows "built_on env p n"
proof -
  obtain slot conf cur trxs signer where q: "bhs_next_pending env p slot conf = Inr cur"
    "block_state_of_pending env cur b trxs signer = Inr n"
    using assms by (auto simp: produced_block_def)
  from q(2) obtain h r b' where f: "finish_next_signed env cur (signed_block_header.truncate b) signer = Inr (h, r)"
    and b': "b' = (if additional_signatures r \<noteq> []
       then b\<lparr>producer_signature := producer_signature h, block_extensions :=
         emplace_extension (block_extensions b) additional_sigs_eid (pack_signatures env (additional_signatures r))\<rparr>
       else b\<lparr>producer_signature := producer_signature h\<rparr>)"
    and n: "n = make_block_state r (Some b') False True trxs"
    by (rule block_state_of_pendingE)
  have exts: "header_extensions b' = header_extensions b" by (simp add: b')
  from f obtain c where c: "finish_next_common env cur (signed_block_header.truncate b) = Inr c" "sign_header env c signer = Inr r"
    by (auto simp: finish_next_signed_def)
  note fields = finish_next_common_built [OF c(1)]
  have "pend_previous cur = bhs_id p" "block_num cur = block_num p + 1" using q(1) by (auto elim!: bhs_next_pendingE)
  moreover have "validate_and_extract_header_extensions env b' = Inr (header_exts c)"
    using fields(5) exts by (simp add: validate_and_extract_header_extensions_def)
  ultimately show ?thesis
    using fields sign_header_fields(1) [OF c(2)]
    by (auto simp: built_on_def exts_of_block_def n header_id_signature)
qed

section \<open>Produced blocks are accepted\<close>

lemma verify_signee_distinct:
  assumes "verify_signee env s = Inr ()" shows "distinct (additional_signatures s)"
proof -
  have "distinct sigs \<and> (\<forall>g \<in> set sigs. \<forall>k. recover_key env g d = Inr k \<longrightarrow> k \<notin> set ks)"
    if "foldR (\<lambda>sg ks. bindR (recover_key env sg d) (\<lambda>k. EOS_ASSERT (k \<notin> set ks) wrong_signing_key (Inr (ks @ [k])))) sigs ks = Inr ks'"
    for sigs d ks ks'
    using that
  proof (induction sigs arbitrary: ks)
    case (Cons g sigs)
    then obtain k where k: "recover_key env g d = Inr k" "k \<notin> set ks"
      "foldR (\<lambda>sg ks. bindR (recover_key env sg d) (\<lambda>k. EOS_ASSERT (k \<notin> set ks) wrong_signing_key (Inr (ks @ [k])))) sigs (ks @ [k]) = Inr ks'"
      by auto
    from Cons.IH [OF k(3)] k(1, 2) show ?case by auto
  qed simp
  then show ?thesis using assms by (auto simp: verify_signee_def Let_def)
qed

lemma produced_block_state:
  assumes "\<And>sigs. unpack_signatures env (pack_signatures env sigs) = Inr sigs" "produced_block env p b n"
  shows "\<exists>b'. block n = Some b' \<and> block_state_of_block env p b' skip = Inr (restored_state n)"
proof -
  obtain slot conf cur g0 trx_mroot act_mroot np standby standby_num trxs signer where
    q: "bhs_next_pending env p slot conf = Inr cur"
      "signed_block_header.truncate b = make_block_header env cur g0 trx_mroot act_mroot np standby standby_num"
      "block_extensions b = []" "block_state_of_pending env cur b trxs signer = Inr n"
    using assms(2) by (auto simp: produced_block_def)
  from q(4) obtain h r b' where f: "finish_next_signed env cur (signed_block_header.truncate b) signer = Inr (h, r)"
    and b': "b' = (if additional_signatures r \<noteq> []
       then b\<lparr>producer_signature := producer_signature h, block_extensions :=
         emplace_extension (block_extensions b) additional_sigs_eid (pack_signatures env (additional_signatures r))\<rparr>
       else b\<lparr>producer_signature := producer_signature h\<rparr>)"
    and n: "n = make_block_state r (Some b') False True trxs"
    by (rule block_state_of_pendingE)
  have "verify_signee env r = Inr ()" using f sign_header_fields(2) by (auto simp: finish_next_signed_def)
  then have dist: "distinct (additional_signatures r)" by (rule verify_signee_distinct)
  have "h = (signed_block_header.truncate b)\<lparr>producer_signature := producer_signature h\<rparr>"
    using f by (auto simp: finish_next_signed_def)
  then have trunc: "signed_block_header.truncate b' = h" by (auto simp: b' signed_block_header.defs)
  have "validate_and_extract_extensions env b' =
      Inr (if additional_signatures r = [] then [] else [(additional_sigs_eid, additional_signatures r)])"
    using dist assms(1) q(3) by (subst block_extensions_accepted) (auto simp: b' emplace_extension_def)
  then have "extract_additional_signatures env b' = Inr (additional_signatures r)"
    by (simp add: extract_additional_signatures_def)
  moreover have "bhs_next env p h (additional_signatures r) skip = Inr r"
    using produced_header_validates [OF q(1) q(2)] f by blast
  moreover have "block n = Some b'" by (simp add: n)
  moreover have "make_block_state r (Some b') False False [] = restored_state n"
    by (simp add: n restored_state_def make_block_state_def block_header_state.defs block_state.defs)
  ultimately show ?thesis using trunc by (auto simp: block_state_of_block_def)
qed

section \<open>Reachable databases\<close>

text \<open>
  Every way the tree changes while the node runs. A block is added on a block of the tree, as it is
  received or as it is produced; block numbers stay below \<open>2 ^ 32\<close>. Resetting is allowed on every state
  whose id carries its number, which includes the genesis state and every state of a chain; this is
  more than a node does, and what is shown of every reachable database holds for it all the more.
\<close>

inductive fork_reach :: "('k, 'g) fc_env \<Rightarrow> ('k, 'g, 't, 'm) fork_database \<Rightarrow> bool" for env where
  reach_reset: "num_from_id env (bhs_id s) = block_num s \<Longrightarrow> fork_reach env (fork_reset s db)"
| reach_received: "\<lbrakk> fork_reach env db; get_block_header db i = Inr (Some p); block_num p \<noteq> - 1;
     block_state_of_block env (block_header_state.truncate p) b skip = Inr n; fork_add (Some n) ignore_duplicate db = Inr db' \<rbrakk>
     \<Longrightarrow> fork_reach env db'"
| reach_produced: "\<lbrakk> fork_reach env db; get_block_header db i = Inr (Some p); block_num p \<noteq> - 1;
     produced_block env (block_header_state.truncate p) b n; fork_add (Some n) ignore_duplicate db = Inr db' \<rbrakk>
     \<Longrightarrow> fork_reach env db'"
| reach_mark_valid: "\<lbrakk> fork_reach env db; mark_valid h db = Inr db' \<rbrakk> \<Longrightarrow> fork_reach env db'"
| reach_remove: "\<lbrakk> fork_reach env db; fork_remove i db = Some (Inr db') \<rbrakk> \<Longrightarrow> fork_reach env db'"
| reach_advance: "\<lbrakk> fork_reach env db; advance_root i db = Some (Inr db') \<rbrakk> \<Longrightarrow> fork_reach env db'"
| reach_rollback: "fork_reach env db \<Longrightarrow> fork_reach env (rollback_head_to_root db)"

text \<open>What holds of every block besides the tree: its id carries its number and its extensions are cached.\<close>

definition numbered :: "('k, 'g) fc_env \<Rightarrow> ('k, 'g, 't, 'm) block_state \<Rightarrow> bool" where
  "numbered env b \<longleftrightarrow> num_from_id env (bhs_id b) = block_num b"

definition chain_ok :: "('k, 'g) fc_env \<Rightarrow> ('k, 'g, 't, 'm) fork_database \<Rightarrow> bool" where
  "chain_ok env db \<longleftrightarrow> fdb_ok db \<and> pred_option (numbered env) (fork_root db) \<and>
     list_all (\<lambda>b. numbered env b \<and> exts_of_block env b) (fork_index db)"

lemma numbered_validated [simp]:
  "numbered env (b\<lparr>validated := v\<rparr>) = numbered env b" "exts_of_block env (b\<lparr>validated := v\<rparr>) = exts_of_block env b"
  by (simp_all add: numbered_def exts_of_block_def split: option.split)

lemma chain_ok_subset:
  assumes "chain_ok env db" "fdb_ok db'" "set (fork_index db') \<subseteq> set (fork_index db)"
    and "fork_root db' = fork_root db \<or> (\<exists>n \<in> set (fork_index db). fork_root db' = Some n)"
  shows "chain_ok env db'"
  using assms by (fastforce simp: chain_ok_def list_all_iff pred_option_def)

lemma chain_ok_flags:
  assumes "chain_ok env db" "fdb_ok db'" "fork_root db' = fork_root db" "fork_index db' = map (\<lambda>b. b\<lparr>validated := f b\<rparr>) (fork_index db)"
  shows "chain_ok env db'"
  using assms by (simp add: chain_ok_def list_all_iff)

lemma erase_ids_kept:
  "set (fork_index (erase_ids is db)) \<subseteq> set (fork_index db)" "fork_root (erase_ids is db) = fork_root db"
  by (auto simp: erase_ids_eq)

lemma fork_remove_kept:
  assumes "fork_remove i db = Some (Inr db')"
  shows "set (fork_index db') \<subseteq> set (fork_index db)" "fork_root db' = fork_root db"
  using assms by (auto simp: fork_remove_def erase_ids_eq split: option.splits sum.splits)

lemma remove_all_kept:
  "remove_all is db = Some (Inr db') \<Longrightarrow> set (fork_index db') \<subseteq> set (fork_index db) \<and> fork_root db' = fork_root db"
proof (induction "is" arbitrary: db)
  case (Cons i "is")
  then obtain db1 where "fork_remove i db = Some (Inr db1)" "remove_all is db1 = Some (Inr db')"
    by (auto split: option.splits sum.splits)
  then show ?case using Cons.IH [of db1] fork_remove_kept [of i db db1] by auto
qed simp

lemma advance_root_kept:
  assumes "advance_root i db = Some (Inr db')"
  shows "set (fork_index db') \<subseteq> set (fork_index db)" "\<exists>n \<in> set (fork_index db). fork_root db' = Some n"
proof -
  obtain n ids db1 where n: "get_block db i = Some n" "remove_all ids (erase_ids [i] db) = Some (Inr db1)"
    "db' = db1\<lparr>fork_root := Some n\<rparr>"
    using assms by (auto simp: advance_root_def split: option.splits sum.splits if_splits)
  then show "set (fork_index db') \<subseteq> set (fork_index db)"
    using remove_all_kept [OF n(2)] erase_ids_kept(1) [of "[i]" db] by auto
  show "\<exists>n \<in> set (fork_index db). fork_root db' = Some n" using get_block_in [OF n(1)] n(3) by auto
qed

lemma truncated_state_simps [simp]:
  "bhs_id (block_header_state.truncate p) = bhs_id p" "block_num (block_header_state.truncate p) = block_num p"
  by (simp_all add: block_header_state.defs)

lemma fork_add_cases:
  assumes "fork_add (Some n) ignore_duplicate db = Inr db'"
  shows "db' = db \<or> fork_root db' = fork_root db \<and> fork_index db' = fork_index db @ [n]"
  using assms by (auto simp: fork_add_def Let_def split: if_splits)

lemma chain_ok_add:
  assumes endian: "\<And>n. endian_reverse_u32 env (endian_reverse_u32 env n) = n"
    and ok: "chain_ok env db" and p: "get_block_header db i = Inr (Some p)" "block_num p \<noteq> - 1"
    and n: "built_on env (block_header_state.truncate p) n" and add: "fork_add (Some n) ignore_duplicate db = Inr db'"
  shows "chain_ok env db'"
proof -
  obtain r where r: "fork_root db = Some r" and t: "tree_ok db r" using ok by (auto simp: chain_ok_def elim: fdb_okE)
  have in_tree: "p = r \<or> p \<in> set (fork_index db)" "bhs_id p = i"
    using p(1) r get_block_in by (auto simp: get_block_header_root split: if_splits)
  have num: "unat (block_num n) = Suc (unat (block_num p))" using n p(2) by (simp add: built_on_def unat_plus_one)
  have "numbered env p" using ok in_tree r by (auto simp: chain_ok_def list_all_iff)
  then have numbered: "numbered env n"
    using n num_from_header_id [of env "header n", OF endian] by (simp add: built_on_def numbered_def header_block_num_def)
  have above: "unat (block_num r) < unat (block_num n)"
    using in_tree(1) num tree_above_root [OF r t, of p] by auto
  have "numbered env r" using ok r by (simp add: chain_ok_def)
  then have "bhs_id n \<noteq> bhs_id r" using numbered above by (auto simp: numbered_def)
  moreover have "linked db n" using p(1) n num in_tree(2) by (simp add: linked_def built_on_def returns_def)
  ultimately have "fdb_ok db'" using fork_add_ok [OF _ add _ r] ok by (simp add: chain_ok_def)
  then show ?thesis
    using fork_add_cases [OF add] ok numbered n by (auto simp: chain_ok_def built_on_def)
qed

lemma mark_valid_kept:
  assumes "mark_valid h db = Inr db'"
  shows "db' = db \<or> fork_root db' = fork_root db \<and>
    fork_index db' = map (\<lambda>b. b\<lparr>validated := (if bhs_id b = bhs_id h then True else validated b)\<rparr>) (fork_index db)"
  using assms by (auto simp: mark_valid_def Let_def split: if_splits)

lemma fork_reach_chain_ok:
  assumes endian: "\<And>n. endian_reverse_u32 env (endian_reverse_u32 env n) = n"
  shows "fork_reach env db \<Longrightarrow> chain_ok env db"
proof (induction rule: fork_reach.induct)
  case (reach_reset s db)
  then show ?case using fork_reset_ok [of s db] by (simp add: chain_ok_def fork_reset_def numbered_def)
next
  case (reach_received db i p b skip n ignore_duplicate db')
  show ?case
    by (rule chain_ok_add [OF endian reach_received.IH reach_received.hyps(2, 3)
          block_state_of_block_built [OF reach_received.hyps(4)] reach_received.hyps(5)])
next
  case (reach_produced db i p b n ignore_duplicate db')
  show ?case
    by (rule chain_ok_add [OF endian reach_produced.IH reach_produced.hyps(2, 3)
          produced_block_built [OF reach_produced.hyps(4)] reach_produced.hyps(5)])
next
  case (reach_mark_valid db h db')
  have ok: "fdb_ok db'" using mark_valid_ok [OF _ reach_mark_valid.hyps(2)] reach_mark_valid.IH by (simp add: chain_ok_def)
  from mark_valid_kept [OF reach_mark_valid.hyps(2)] show ?case
  proof
    assume "db' = db"
    then show ?thesis using reach_mark_valid.IH by simp
  next
    assume flags: "fork_root db' = fork_root db \<and>
      fork_index db' = map (\<lambda>b. b\<lparr>validated := (if bhs_id b = bhs_id h then True else validated b)\<rparr>) (fork_index db)"
    show ?thesis
      by (rule chain_ok_flags [OF reach_mark_valid.IH ok conjunct1 [OF flags] conjunct2 [OF flags]])
  qed
next
  case (reach_remove db i db')
  have "fdb_ok db'" using fork_remove_ok [OF _ reach_remove.hyps(2)] reach_remove.IH by (simp add: chain_ok_def)
  then show ?case
    using chain_ok_subset [OF reach_remove.IH, of db'] fork_remove_kept [OF reach_remove.hyps(2)] by simp
next
  case (reach_advance db i db')
  have "fdb_ok db'" using advance_root_ok [OF _ reach_advance.hyps(2)] reach_advance.IH by (simp add: chain_ok_def)
  then show ?case
    using chain_ok_subset [OF reach_advance.IH, of db'] advance_root_kept [OF reach_advance.hyps(2)] by simp
next
  case (reach_rollback db)
  have "fdb_ok (rollback_head_to_root db)" using rollback_ok [of db] reach_rollback.IH by (simp add: chain_ok_def)
  then show ?case
    using chain_ok_flags [OF reach_rollback.IH, of "rollback_head_to_root db" "\<lambda>_. False"]
    by (simp add: rollback_head_to_root_def)
qed

section \<open>Examples\<close>

datatype ('k, 'g, 't, 'm) token =
    T_u32 u32
  | T_size u32
  | T_id digest
  | T_header_state "('k, 'g) block_header_state"
  | T_state "('k, 'g, 't, 'm) block_state"

text \<open>A codec that writes one token per value.\<close>

definition token_io :: "(('k, 'g, 't, 'm) token, 'k, 'g, 't, 'm) fork_io" where
  "token_io = \<lparr>
     pack_u32 = \<lambda>n. [T_u32 n],
     unpack_u32 = \<lambda>ds. case ds of T_u32 n # ds \<Rightarrow> Inr (n, ds) | _ \<Rightarrow> Inl std_out_of_range,
     pack_size = \<lambda>n. [T_size n],
     unpack_size = \<lambda>ds. case ds of T_size n # ds \<Rightarrow> Inr (n, ds) | _ \<Rightarrow> Inl std_out_of_range,
     pack_id = \<lambda>i. [T_id i],
     unpack_id = \<lambda>ds. case ds of T_id i # ds \<Rightarrow> Inr (i, ds) | _ \<Rightarrow> Inl std_out_of_range,
     pack_header_state = \<lambda>s. [T_header_state (reflected_header_state s)],
     unpack_header_state = \<lambda>ds. case ds of T_header_state s # ds \<Rightarrow> Inr (s, ds) | _ \<Rightarrow> Inl std_out_of_range,
     pack_state = \<lambda>b. [T_state (reflected_state b)],
     unpack_state = \<lambda>ds. case ds of T_state b # ds \<Rightarrow> Inr (b, ds) | _ \<Rightarrow> Inl std_out_of_range\<rparr>"

lemma token_io_ok: "codec_ok token_io"
  by (simp add: codec_ok_def token_io_def)

definition example_block :: "nat signed_block_header \<Rightarrow> (nat, nat) signed_block" where
  "example_block h = signed_block_header.extend h (signed_block.fields [] [])"

text \<open>A block that arrives is built on the block it names and added; the tree of two blocks on the example state.\<close>

definition receive :: "(nat, nat) fc_env \<Rightarrow> nat signed_block_header \<Rightarrow> (nat, nat, nat, nat) fork_database \<Rightarrow>
    ((nat, nat, nat, nat) block_state \<times> (nat, nat, nat, nat) fork_database) result" where
  "receive env h db =
     bindR (get_block_header db (previous h)) (\<lambda>p.
     bindR (deref p) (\<lambda>p.
       EOS_ASSERT (block_num p \<noteq> - 1) overflow_exception
       (bindR (block_state_of_block env (block_header_state.truncate p) (example_block h) False) (\<lambda>b.
        bindR (fork_add (Some b) False db) (\<lambda>db. Inr (b, db))))))"

definition example_tree :: "(nat, nat, nat, nat) fork_database result" where
  "example_tree =
     bindR (receive env_reference example_first (fork_reset example_state fork_database_empty)) (\<lambda>(b1, db).
     bindR (mark_valid b1 db) (\<lambda>db.
     bindR (receive env_reference example_second db) (\<lambda>(b2, db). Inr db)))"

lemma receive_reach:
  assumes "fork_reach env db" "receive env h db = Inr (b, db')"
  shows "fork_reach env db'"
proof -
  obtain p where "get_block_header db (previous h) = Inr (Some p)" "block_num p \<noteq> - 1"
    "block_state_of_block env (block_header_state.truncate p) (example_block h) False = Inr b"
    "fork_add (Some b) False db = Inr db'"
    using assms(2) by (auto simp: receive_def deref_def split: option.splits)
  then show ?thesis by (rule reach_received [OF assms(1)])
qed

lemma example_tree_reach:
  assumes "example_tree = Inr db"
  shows "fork_reach env_reference db"
proof -
  have "num_from_id env_reference (bhs_id example_state) = block_num example_state"
    unfolding example_state_def by simp code_simp
  then have "fork_reach env_reference (fork_reset example_state fork_database_empty :: (nat, nat, nat, nat) fork_database)"
    by (rule reach_reset)
  moreover obtain b1 db1 db2 b2 where
    "receive env_reference example_first (fork_reset example_state fork_database_empty) = Inr (b1, db1)"
    "mark_valid b1 db1 = Inr db2" "receive env_reference example_second db2 = Inr (b2, db)"
    using assms by (auto simp: example_tree_def)
  ultimately show ?thesis using receive_reach reach_mark_valid by metis
qed

text \<open>The id of the first block and of the second.\<close>

definition id1 :: digest where "id1 = header_id env_reference example_first"

definition id2 :: digest where "id2 = header_id env_reference example_second"

lemma example_tree_facts:
  obtains db where "example_tree = Inr db" "lib_ordered db" "length (fork_index db) = 2"
    "fork_head db = Some id1" "map_option validated (get_block db id1) = Some True"
    "returns (root_or_block db id2) (\<lambda>b. True)" "returns (root_or_block db (bhs_id example_state)) (\<lambda>b. True)"
proof -
  have "returns (example_tree) (\<lambda>db. lib_ordered db \<and> length (fork_index db) = 2 \<and>
    fork_head db = Some id1 \<and> map_option validated (get_block db id1) = Some True \<and>
    returns (root_or_block db id2) (\<lambda>b. True) \<and> returns (root_or_block db (bhs_id example_state)) (\<lambda>b. True))"
    by code_simp
  then show ?thesis using that by (auto simp: returns_iff)
qed

text \<open>Signatures written in unary, and a block produced on the example state.\<close>

fun unary_decode :: "nat \<Rightarrow> u8 list \<Rightarrow> nat list" where
  "unary_decode n [] = []"
| "unary_decode n (b # bs) = (if b = 0 then n # unary_decode 0 bs else unary_decode (Suc n) bs)"

definition env_unary :: "(nat, nat) fc_env" where
  "env_unary = env_reference\<lparr>pack_signatures := \<lambda>sigs. concat (map (\<lambda>n. replicate n 1 @ [0]) sigs),
     unpack_signatures := \<lambda>bs. Inr (unary_decode 0 bs)\<rparr>"

lemma env_unary_signatures: "unpack_signatures env_unary (pack_signatures env_unary sigs) = Inr sigs"
proof -
  have run: "unary_decode m (replicate n 1 @ 0 # bs) = (m + n) # unary_decode 0 bs" for m n bs
    by (induction n arbitrary: m) simp_all
  have "unary_decode 0 (concat (map (\<lambda>n. replicate n 1 @ [0]) sigs)) = sigs"
    by (induction sigs) (simp_all add: run [simplified])
  then show ?thesis by (simp add: env_unary_def)
qed

definition example_pending :: "nat pending_block_header_state result" where
  "example_pending = bhs_next_pending env_unary example_state 0 0"

definition example_produced :: "nat pending_block_header_state \<Rightarrow> (nat, nat) signed_block" where
  "example_produced cur = example_block (make_block_header env_unary cur 0 digest_zero digest_zero None False None)"

section \<open>Properties\<close>

text \<open>
  C3: in every fork database that resetting, receiving, producing, validating, removing, advancing and
  rolling back can reach, ids are unique, every block follows the root or another block of the tree
  with the next number, the head is the root or a validated block to which no validated block is
  preferred, ids carry block numbers, and the cached header extensions are those of the blocks.
\<close>

theorem fork_tree_invariant:
  assumes "\<And>n. endian_reverse_u32 env (endian_reverse_u32 env n) = n" "fork_reach env db"
  shows "chain_ok env db"
  using fork_reach_chain_ok [OF assms] .

theorem fork_tree_invariant_witness:
  "\<exists>db :: (nat, nat, nat, nat) fork_database. fork_reach env_reference db \<and> length (fork_index db) = 2 \<and>
     chain_ok env_reference db"
proof -
  obtain db where db: "example_tree = Inr db" "length (fork_index db) = 2" by (rule example_tree_facts)
  note reach = example_tree_reach [OF db(1)]
  show ?thesis using fork_tree_invariant [OF env_reference_endian reach] reach db(2) by blast
qed

text \<open>
  C18: \<^verbatim>\<open>remove\<close> always ends, and removes exactly the block with the given id and everything that
  descends from the id; when that would remove the head it throws instead and changes nothing.
\<close>

theorem remove_exact:
  assumes "fdb_ok db" "fork_head db = Some head_id"
  shows "fork_remove i db =
    (if head_id = i \<or> (\<exists>b. descends db i b \<and> bhs_id b = head_id) then Some (Inl fork_database_exception)
     else Some (Inr (db\<lparr>fork_index := filter (\<lambda>b. \<not> descends db i b) (fork_index db)\<rparr>)))"
proof -
  obtain r where "fork_root db = Some r" "tree_ok db r" using assms(1) by (rule fdb_okE)
  then show ?thesis using fork_remove_eq [OF tree_forest assms(2)] by blast
qed

theorem remove_exact_witness:
  "\<exists>db :: (nat, nat, nat, nat) fork_database. fdb_ok db \<and> length (fork_index db) = 2 \<and>
     fork_remove id1 db = Some (Inl fork_database_exception)"
proof -
  obtain db where db: "example_tree = Inr db" "length (fork_index db) = 2" "fork_head db = Some id1"
    by (rule example_tree_facts)
  have ok: "fdb_ok db"
    using fork_reach_chain_ok [OF env_reference_endian example_tree_reach [OF db(1)]] by (simp add: chain_ok_def)
  show ?thesis using remove_exact [OF ok db(3), of id1] ok db(2) by auto
qed

text \<open>
  C17: advancing the root to a validated block always ends. It succeeds exactly when the head is that
  block or descends from it, and then exactly the descendants of the new root remain and the head
  stays; otherwise it throws.
\<close>

theorem advance_root_exact:
  assumes "fdb_ok db" "get_block db i = Some n" "validated n"
  shows "if \<exists>h. descends db i h \<and> fork_head db = Some (bhs_id h)
    then \<exists>db'. advance_root i db = Some (Inr db') \<and> fork_root db' = Some n \<and> fork_head db' = fork_head db \<and>
      set (fork_index db') = {b. descends db i b \<and> b \<noteq> n}
    else advance_root i db = Some (Inl fork_database_exception)"
  using advance_root_exactly [OF assms] .

theorem advance_root_exact_witness:
  "\<exists>(db :: (nat, nat, nat, nat) fork_database) n db'. fdb_ok db \<and> get_block db id1 = Some n \<and> validated n \<and>
     advance_root id1 db = Some (Inr db') \<and> fork_root db' = Some n"
proof -
  obtain db where db: "example_tree = Inr db" "fork_head db = Some id1"
    "map_option validated (get_block db id1) = Some True"
    by (rule example_tree_facts)
  have ok: "fdb_ok db"
    using fork_reach_chain_ok [OF env_reference_endian example_tree_reach [OF db(1)]] by (simp add: chain_ok_def)
  obtain n where n: "get_block db id1 = Some n" "validated n" using db(3) by auto
  have "descends db id1 n" "fork_head db = Some (bhs_id n)"
    using get_block_in [OF n(1)] descends_self db(2) by auto
  then have "\<exists>h. descends db id1 h \<and> fork_head db = Some (bhs_id h)" by blast
  then show ?thesis using advance_root_exact [OF ok n] ok n by auto
qed

text \<open>
  C19: for any two blocks of the tree \<^verbatim>\<open>fetch_branch_from\<close> ends and returns the two branches from the
  blocks down to their last common ancestor: followed by one and the same path to the root they are
  the complete branches of the two blocks, and they share no block.
\<close>

theorem fetch_branch_from_splits:
  assumes "fdb_ok db" "root_or_block db first = Inr b1" "root_or_block db second = Inr b2"
  shows "\<exists>r1 r2 common. fetch_branch_from db first second = Some (Inr (r1, r2)) \<and>
    branch db first (r1 @ common) \<and> branch db second (r2 @ common) \<and> set r1 \<inter> set r2 = {}"
  using fetch_branch_from_tree [OF assms] .

theorem fetch_branch_from_splits_witness:
  "\<exists>(db :: (nat, nat, nat, nat) fork_database) b1 b2 r1 r2. fdb_ok db \<and> root_or_block db id2 = Inr b1 \<and>
     root_or_block db (bhs_id example_state) = Inr b2 \<and>
     fetch_branch_from db id2 (bhs_id example_state) = Some (Inr (r1, r2)) \<and> set r1 \<inter> set r2 = {}"
proof -
  obtain db where db: "example_tree = Inr db"
    "returns (root_or_block db id2) (\<lambda>b. True)" "returns (root_or_block db (bhs_id example_state)) (\<lambda>b. True)"
    by (rule example_tree_facts)
  have ok: "fdb_ok db"
    using fork_reach_chain_ok [OF env_reference_endian example_tree_reach [OF db(1)]] by (simp add: chain_ok_def)
  obtain b1 b2 where b: "root_or_block db id2 = Inr b1" "root_or_block db (bhs_id example_state) = Inr b2"
    using db(2, 3) by (auto simp: returns_iff)
  show ?thesis using fetch_branch_from_splits [OF ok b] ok b by blast
qed

text \<open>
  C8: closing the fork database of a running node and opening the file gives the same tree with the
  same head, up to caches and the root's block, and satisfies the invariant again, provided no block
  has a lower irreversible block than its parent, and packing of single values can be undone.
\<close>

theorem reopen_round_trip:
  assumes "\<And>n. endian_reverse_u32 env (endian_reverse_u32 env n) = n" "codec_ok io"
    and "fork_reach env db" "lib_ordered db" "length (fork_index db) < 2 ^ 32"
  shows "\<exists>db'. fork_open env io (fst (fork_close io db)) db0 = Inr (None, db') \<and>
    mset (fork_index db') = mset (map restored_state (fork_index db)) \<and> fork_head db' = fork_head db \<and>
    fork_root db' = map_option restored_root (fork_root db) \<and> fdb_ok db'"
proof -
  have ok: "fdb_ok db" "list_all (exts_of_block env) (fork_index db)"
    using fork_reach_chain_ok [OF assms(1, 3)] by (auto simp: chain_ok_def list_all_iff)
  have "mset (fork_index (reopened db)) = mset (map restored_state (fork_index db))"
    by (simp add: reopened_def written_states_mset)
  then show ?thesis
    using reopen_restores [OF assms(2) ok(1) assms(4) ok(2) assms(5), of db0] reopened_ok [OF ok(1)]
    by (auto simp: reopened_def)
qed

theorem reopen_round_trip_witness:
  "\<exists>(db :: (nat, nat, nat, nat) fork_database) db'. fork_reach env_reference db \<and> length (fork_index db) = 2 \<and>
     fork_open env_reference token_io (fst (fork_close token_io db)) fork_database_empty = Inr (None, db') \<and>
     fork_head db' = fork_head db \<and> fdb_ok db'"
proof -
  obtain db where db: "example_tree = Inr db" "lib_ordered db" "length (fork_index db) = 2"
    by (rule example_tree_facts)
  note reach = example_tree_reach [OF db(1)]
  show ?thesis
    using reopen_round_trip [OF env_reference_endian token_io_ok reach db(2), of fork_database_empty] reach db(3) by auto
qed

text \<open>
  C9: a block that the node produced and signed is accepted by every validator on the same parent,
  from its serialised form alone: extracting the additional signatures from its extension and
  validating gives the producer's own block state, up to the caches of transactions.
\<close>

theorem produced_block_accepted:
  assumes "\<And>sigs. unpack_signatures env (pack_signatures env sigs) = Inr sigs" "produced_block env p b n"
  shows "\<exists>b'. block n = Some b' \<and> block_state_of_block env p b' skip = Inr (restored_state n)"
  using produced_block_state [OF assms] .

theorem produced_block_accepted_witness:
  "\<exists>b (n :: (nat, nat, nat, nat) block_state) b'. produced_block env_unary example_state b n \<and> block n = Some b' \<and>
     block_state_of_block env_unary example_state b' False = Inr (restored_state n)"
proof -
  have "returns example_pending (\<lambda>cur.
      returns (block_state_of_pending env_unary cur (example_produced cur) [7 :: nat] (\<lambda>d. Inr [1])) (\<lambda>n. True))"
    by code_simp
  then obtain cur and n :: "(nat, nat, nat, nat) block_state" where
    n: "example_pending = Inr cur" "block_state_of_pending env_unary cur (example_produced cur) [7] (\<lambda>d. Inr [1]) = Inr n"
    by (auto simp: returns_iff)
  have "signed_block_header.truncate (example_produced cur) =
      make_block_header env_unary cur 0 digest_zero digest_zero None False None"
    "block_extensions (example_produced cur) = []"
    by (simp_all add: example_produced_def example_block_def signed_block_header.defs signed_block.defs)
  then have p: "produced_block env_unary example_state (example_produced cur) n"
    unfolding produced_block_def using n unfolding example_pending_def by blast
  show ?thesis using produced_block_accepted [OF env_unary_signatures p, of False] p by blast
qed

end
