(* ===== verification/Permissions.thy ===== *)
theory Permissions
  imports Chainbase Authority Name Merkle
begin

text \<open>
  The authorization manager (\<^verbatim>\<open>authorization_manager.cpp\<close>, \<^verbatim>\<open>permission_object.hpp\<close>,
  \<^verbatim>\<open>permission_link_object.hpp\<close>): the hierarchy of permissions of every account, the links from actions
  to the permission they need, and the check that decides whether a transaction is authorized.

  The objects are kept in chainbase indices. What the manager reads of the controller is a context:
  block time, chain configuration, the deferred transactions, and the unpacking of action data, which
  is a function of \<^verbatim>\<open>fc::raw\<close>. The deadline callback \<^verbatim>\<open>checktime\<close> is the no-op that the code uses by
  default; one that raises only ends the check earlier.
\<close>

section \<open>Objects\<close>

record 'k permission_object =
  po_usage_id :: int
  po_parent :: int
  po_owner :: u64
  po_name :: u64
  po_last_updated :: int
  po_auth :: "'k authority"

text \<open>A reference to a permission is its id together with the object.\<close>

type_synonym 'k perm_ref = "int \<times> 'k permission_object"

definition permission_keys :: "'k permission_object \<Rightarrow> (u64 \<times> u64) list" where
  "permission_keys p = [(po_owner p, po_name p)]"

record permission_link_object =
  plo_account :: u64
  plo_code :: u64
  plo_message_type :: u64
  plo_required_permission :: u64

definition link_keys :: "permission_link_object \<Rightarrow> (u64 \<times> u64 \<times> u64) list" where
  "link_keys l = [(plo_account l, plo_code l, plo_message_type l)]"

definition usage_keys :: "int \<Rightarrow> unit list" where
  "usage_keys u = []"

record 'k auth_db =
  perm_index :: "'k permission_object generic_index"
  usage_index :: "int generic_index"
  link_index :: "permission_link_object generic_index"

section \<open>Actions and context\<close>

record action =
  act_account :: u64
  act_name :: u64
  act_authorization :: "permission_level list"
  act_data :: "u8 list"

record 'k updateauth =
  ua_account :: u64
  ua_permission :: u64
  ua_parent :: u64
  ua_auth :: "'k authority"

record deleteauth =
  da_account :: u64
  da_permission :: u64

record linkauth =
  la_account :: u64
  la_code :: u64
  la_type :: u64
  la_requirement :: u64

record unlinkauth =
  ula_account :: u64
  ula_code :: u64
  ula_type :: u64

record canceldelay =
  cd_canceling_auth :: permission_level
  cd_trx_id :: digest

record generated_transaction_object =
  gto_trx_id :: digest
  gto_sender :: u64
  gto_sender_id :: "128 word"
  gto_payer :: u64
  gto_delay_until :: int
  gto_expiration :: int
  gto_published :: int
  gto_packed_trx :: "u8 list"

record 'k auth_context =
  num_supported_key_types :: nat
  key_which :: "'k \<Rightarrow> nat"
  pending_block_time :: int
  max_authority_depth :: u16
  max_transaction_delay :: u32
  deferred :: "generated_transaction_object list"
  unpack_updateauth :: "u8 list \<Rightarrow> 'k updateauth result"
  unpack_deleteauth :: "u8 list \<Rightarrow> deleteauth result"
  unpack_linkauth :: "u8 list \<Rightarrow> linkauth result"
  unpack_unlinkauth :: "u8 list \<Rightarrow> unlinkauth result"
  unpack_canceldelay :: "u8 list \<Rightarrow> canceldelay result"
  unpack_transaction :: "u8 list \<Rightarrow> action list result"

definition system_account_name :: u64 where "system_account_name = string_to_name ''eosio''"

definition active_name :: u64 where "active_name = string_to_name ''active''"

definition owner_name :: u64 where "owner_name = string_to_name ''owner''"

definition eosio_any_name :: u64 where "eosio_any_name = string_to_name ''eosio.any''"

definition updateauth_name :: u64 where "updateauth_name = string_to_name ''updateauth''"

definition deleteauth_name :: u64 where "deleteauth_name = string_to_name ''deleteauth''"

definition linkauth_name :: u64 where "linkauth_name = string_to_name ''linkauth''"

definition unlinkauth_name :: u64 where "unlinkauth_name = string_to_name ''unlinkauth''"

definition canceldelay_name :: u64 where "canceldelay_name = string_to_name ''canceldelay''"

definition chipcounter_name :: u64 where "chipcounter_name = string_to_name ''chipcounter''"

definition enstandby_name :: u64 where "enstandby_name = string_to_name ''enstandby''"

definition data_as :: "u64 \<Rightarrow> (u8 list \<Rightarrow> 'a result) \<Rightarrow> action \<Rightarrow> 'a result" where
  "data_as nm unpack a =
     EOS_ASSERT (act_account a = system_account_name) action_type_exception
     (EOS_ASSERT (act_name a = nm) action_type_exception
     (unpack (act_data a)))"

section \<open>Operations on permissions\<close>

definition auth_db_empty :: "'k auth_db" where
  "auth_db_empty = \<lparr>perm_index = generic_index_empty, usage_index = generic_index_empty, link_index = generic_index_empty\<rparr>"

text \<open>Permission 0 is reserved, so that a parent of 0 can stand for no parent.\<close>

definition reserved_permission :: "'k permission_object" where
  "reserved_permission = \<lparr>po_usage_id = 0, po_parent = 0, po_owner = 0, po_name = 0, po_last_updated = 0,
     po_auth = \<lparr>threshold = 0, keys = [], accounts = [], waits = []\<rparr>\<rparr>"

definition auth_initialize_database :: "'k auth_db \<Rightarrow> 'k auth_db result" where
  "auth_initialize_database db =
     bindR (emplace permission_keys (\<lambda>_. reserved_permission) (perm_index db)) (\<lambda>(g, _). Inr (db\<lparr>perm_index := g\<rparr>))"

definition supported_keys :: "'k auth_context \<Rightarrow> 'k authority \<Rightarrow> bool" where
  "supported_keys ctx a = list_all (\<lambda>k. key_which ctx (kw_key k) < num_supported_key_types ctx) (keys a)"

definition create_permission :: "'k auth_context \<Rightarrow> u64 \<Rightarrow> u64 \<Rightarrow> int \<Rightarrow> 'k authority \<Rightarrow> int \<Rightarrow> 'k auth_db \<Rightarrow>
    ('k auth_db \<times> int) result" where
  "create_permission ctx account nm parent au initial_creation_time db =
     EOS_ASSERT (supported_keys ctx au) unactivated_key_type
     (let creation_time = (if initial_creation_time = 0 then pending_block_time ctx else initial_creation_time)
      in bindR (emplace usage_keys (\<lambda>_. creation_time) (usage_index db)) (\<lambda>(u, usage).
         bindR (emplace permission_keys (\<lambda>_. \<lparr>po_usage_id = usage, po_parent = parent, po_owner = account, po_name = nm,
             po_last_updated = creation_time, po_auth = au\<rparr>) (perm_index db)) (\<lambda>(g, i).
           Inr (db\<lparr>usage_index := u, perm_index := g\<rparr>, i))))"

definition modify_permission :: "'k auth_context \<Rightarrow> int \<Rightarrow> 'k authority \<Rightarrow> 'k auth_db \<Rightarrow> 'k auth_db result" where
  "modify_permission ctx i au db =
     EOS_ASSERT (supported_keys ctx au) unactivated_key_type
     (bindR (modify permission_keys i (\<lambda>p. p\<lparr>po_auth := au, po_last_updated := pending_block_time ctx\<rparr>) (perm_index db))
        (\<lambda>g. Inr (db\<lparr>perm_index := g\<rparr>)))"

definition has_children :: "'k auth_db \<Rightarrow> int \<Rightarrow> bool" where
  "has_children db i = list_ex (\<lambda>(j, q). po_parent q = i) (indices (perm_index db))"

definition remove_permission :: "'k perm_ref \<Rightarrow> 'k auth_db \<Rightarrow> 'k auth_db result" where
  "remove_permission p db =
     EOS_ASSERT (\<not> has_children db (fst p)) action_validate_exception
     (bindR (remove_object (po_usage_id (snd p)) (usage_index db)) (\<lambda>u.
      bindR (remove_obj (fst p) (perm_index db)) (\<lambda>g.
        Inr (db\<lparr>usage_index := u, perm_index := g\<rparr>))))"

definition update_permission_usage :: "'k auth_context \<Rightarrow> 'k perm_ref \<Rightarrow> 'k auth_db \<Rightarrow> 'k auth_db result" where
  "update_permission_usage ctx p db =
     bindR (get_obj (po_usage_id (snd p)) (usage_index db)) (\<lambda>_.
     bindR (modify usage_keys (po_usage_id (snd p)) (\<lambda>_. pending_block_time ctx) (usage_index db)) (\<lambda>u.
       Inr (db\<lparr>usage_index := u\<rparr>)))"

definition get_permission_last_used :: "'k perm_ref \<Rightarrow> 'k auth_db \<Rightarrow> int result" where
  "get_permission_last_used p db = get_obj (po_usage_id (snd p)) (usage_index db)"

definition find_by_owner :: "'k auth_db \<Rightarrow> u64 \<Rightarrow> u64 \<Rightarrow> 'k perm_ref option" where
  "find_by_owner db account nm =
     find (\<lambda>(i, p). po_owner p = account \<and> po_name p = nm) (indices (perm_index db))"

definition find_permission :: "'k auth_db \<Rightarrow> permission_level \<Rightarrow> 'k perm_ref option result" where
  "find_permission db level =
     EOS_ASSERT (actor level \<noteq> 0 \<and> permission level \<noteq> 0) invalid_permission
     (Inr (find_by_owner db (actor level) (permission level)))"

text \<open>A missing key raises \<^verbatim>\<open>std::out_of_range\<close>, which is rethrown as a query exception.\<close>

definition get_permission :: "'k auth_db \<Rightarrow> permission_level \<Rightarrow> 'k perm_ref result" where
  "get_permission db level =
     EOS_ASSERT (actor level \<noteq> 0 \<and> permission level \<noteq> 0) invalid_permission
     (case find_by_owner db (actor level) (permission level) of
        None \<Rightarrow> Inl permission_query_exception
      | Some p \<Rightarrow> Inr p)"

text \<open>The walk up the parents; an id that is not in the index is dereferenced without a check.\<close>

partial_function (option) parent_walk :: "'k permission_object generic_index \<Rightarrow> int \<Rightarrow> 'k permission_object \<Rightarrow>
    bool result option" where
  "parent_walk g i p =
     (if i = po_parent p then Some (Inr True)
      else if po_parent p = 0 then Some (Inr False)
      else (case find_obj (po_parent p) g of
          None \<Rightarrow> Some (Inl undefined_behaviour)
        | Some q \<Rightarrow> parent_walk g i q))"

definition satisfies :: "'k permission_object generic_index \<Rightarrow> 'k perm_ref \<Rightarrow> 'k perm_ref \<Rightarrow> bool result option" where
  "satisfies g self other =
     (if po_owner (snd self) \<noteq> po_owner (snd other) then Some (Inr False)
      else if fst self = fst other \<or> fst self = po_parent (snd other) then Some (Inr True)
      else (case find_obj (po_parent (snd other)) g of
          None \<Rightarrow> Some (Inl undefined_behaviour)
        | Some q \<Rightarrow> parent_walk g (fst self) q))"

section \<open>Links\<close>

definition find_link :: "'k auth_db \<Rightarrow> u64 \<Rightarrow> u64 \<Rightarrow> u64 \<Rightarrow> (int \<times> permission_link_object) option" where
  "find_link db account code type =
     find (\<lambda>(i, l). plo_account l = account \<and> plo_code l = code \<and> plo_message_type l = type) (indices (link_index db))"

definition lookup_linked_permission :: "'k auth_db \<Rightarrow> u64 \<Rightarrow> u64 \<Rightarrow> u64 \<Rightarrow> u64 option" where
  "lookup_linked_permission db authorizer_account scope nm =
     (let link = find_link db authorizer_account scope nm;
          link = (if link = None then find_link db authorizer_account scope 0 else link)
      in map_option (\<lambda>(i, l). plo_required_permission l) link)"

definition lookup_minimum_permission :: "'k auth_db \<Rightarrow> u64 \<Rightarrow> u64 \<Rightarrow> u64 \<Rightarrow> u64 option result" where
  "lookup_minimum_permission db authorizer_account scope nm =
     EOS_ASSERT (scope = system_account_name \<longrightarrow> nm \<noteq> updateauth_name \<and> nm \<noteq> deleteauth_name \<and>
         nm \<noteq> linkauth_name \<and> nm \<noteq> unlinkauth_name \<and> nm \<noteq> canceldelay_name) unlinkable_min_permission_action
     (case lookup_linked_permission db authorizer_account scope nm of
        None \<Rightarrow> Inr (Some active_name)
      | Some l \<Rightarrow> if l = eosio_any_name then Inr None else Inr (Some l))"

section \<open>Authorization of the native actions\<close>

definition require_satisfies :: "'k auth_db \<Rightarrow> 'k perm_ref \<Rightarrow> 'k perm_ref \<Rightarrow> unit result option" where
  "require_satisfies db p min_permission =
     bindO (satisfies (perm_index db) p min_permission) (\<lambda>b. assertO b irrelevant_auth_exception (Some (Inr ())))"

definition single_auth :: "permission_level list \<Rightarrow> permission_level result" where
  "single_auth auths = EOS_ASSERT (length auths = 1) irrelevant_auth_exception (Inr (auths ! 0))"

definition check_updateauth_authorization :: "'k auth_db \<Rightarrow> 'k updateauth \<Rightarrow> permission_level list \<Rightarrow> unit result option" where
  "check_updateauth_authorization db update auths =
     bindO (Some (single_auth auths)) (\<lambda>au.
     assertO (actor au = ua_account update) irrelevant_auth_exception
     (bindO (Some (find_permission db (permission_level (ua_account update) (ua_permission update)))) (\<lambda>m.
      bindO (case m of Some p \<Rightarrow> Some (Inr p)
             | None \<Rightarrow> Some (get_permission db (permission_level (ua_account update) (ua_parent update)))) (\<lambda>min_permission.
      bindO (Some (get_permission db au)) (\<lambda>p. require_satisfies db p min_permission)))))"

definition check_deleteauth_authorization :: "'k auth_db \<Rightarrow> deleteauth \<Rightarrow> permission_level list \<Rightarrow> unit result option" where
  "check_deleteauth_authorization db del auths =
     bindO (Some (single_auth auths)) (\<lambda>au.
     assertO (actor au = da_account del) irrelevant_auth_exception
     (bindO (Some (get_permission db (permission_level (da_account del) (da_permission del)))) (\<lambda>min_permission.
      bindO (Some (get_permission db au)) (\<lambda>p. require_satisfies db p min_permission))))"

definition check_linkauth_authorization :: "'k auth_db \<Rightarrow> linkauth \<Rightarrow> permission_level list \<Rightarrow> unit result option" where
  "check_linkauth_authorization db link auths =
     bindO (Some (single_auth auths)) (\<lambda>au.
     assertO (actor au = la_account link) irrelevant_auth_exception
     (assertO (la_code link = system_account_name \<longrightarrow> la_type link \<noteq> updateauth_name \<and> la_type link \<noteq> deleteauth_name \<and>
          la_type link \<noteq> linkauth_name \<and> la_type link \<noteq> unlinkauth_name \<and> la_type link \<noteq> canceldelay_name \<and>
          la_type link \<noteq> chipcounter_name \<and> la_type link \<noteq> enstandby_name) action_validate_exception
     (bindO (Some (lookup_minimum_permission db (la_account link) (la_code link) (la_type link))) (\<lambda>linked.
      case linked of
        None \<Rightarrow> Some (Inr ())
      | Some nm \<Rightarrow>
          bindO (Some (get_permission db au)) (\<lambda>p.
          bindO (Some (get_permission db (permission_level (la_account link) nm))) (\<lambda>min_permission.
            require_satisfies db p min_permission))))))"

definition check_unlinkauth_authorization :: "'k auth_db \<Rightarrow> unlinkauth \<Rightarrow> permission_level list \<Rightarrow> unit result option" where
  "check_unlinkauth_authorization db unlink auths =
     bindO (Some (single_auth auths)) (\<lambda>au.
     assertO (actor au = ula_account unlink) irrelevant_auth_exception
     (case lookup_linked_permission db (ula_account unlink) (ula_code unlink) (ula_type unlink) of
        None \<Rightarrow> Some (Inl transaction_exception)
      | Some nm \<Rightarrow>
          if nm = eosio_any_name then Some (Inr ())
          else bindO (Some (get_permission db au)) (\<lambda>p.
               bindO (Some (get_permission db (permission_level (ula_account unlink) nm))) (\<lambda>min_permission.
                 require_satisfies db p min_permission))))"

definition check_canceldelay_authorization :: "'k auth_context \<Rightarrow> 'k auth_db \<Rightarrow> canceldelay \<Rightarrow> permission_level list \<Rightarrow>
    int result option" where
  "check_canceldelay_authorization ctx db cancel auths =
     bindO (Some (single_auth auths)) (\<lambda>au.
     bindO (Some (get_permission db au)) (\<lambda>p.
     bindO (Some (get_permission db (cd_canceling_auth cancel))) (\<lambda>min_permission.
     bindO (require_satisfies db p min_permission) (\<lambda>_.
     case find (\<lambda>t. gto_trx_id t = cd_trx_id cancel) (deferred ctx) of
       None \<Rightarrow> Some (Inl tx_not_found)
     | Some itr \<Rightarrow>
         assertO (gto_sender itr = 0) tx_not_found
         (bindO (Some (unpack_transaction ctx (gto_packed_trx itr))) (\<lambda>acts.
          assertO (list_ex (\<lambda>a. list_ex (\<lambda>d. d = cd_canceling_auth cancel) (act_authorization a)) acts) action_validate_exception
          (Some (Inr (gto_delay_until itr - gto_published itr)))))))))"

section \<open>Authorization of a transaction\<close>

definition microseconds_maximum :: int where
  "microseconds_maximum = 2 ^ 63 - 1"

definition effective_delay :: "'k auth_context \<Rightarrow> int \<Rightarrow> int" where
  "effective_delay ctx delay =
     (if delay \<ge> uint (max_transaction_delay ctx) * 1000000 then microseconds_maximum else delay)"

definition make_auth_checker :: "'k auth_context \<Rightarrow> 'k auth_db \<Rightarrow> 'k list \<Rightarrow> permission_level list \<Rightarrow> int \<Rightarrow> 'k checker" where
  "make_auth_checker ctx db pkeys pperms delay =
     \<lparr>permission_to_authority = \<lambda>p. bindR (get_permission db p) (\<lambda>(i, o'). Inr (po_auth o')),
      recursion_depth_limit = max_authority_depth ctx, provided_keys = pkeys, provided_permissions = pperms,
      provided_delay = delay\<rparr>"

text \<open>The branch on native actions: whether the action is a special case, and the delay that counts for it.\<close>

definition check_native :: "'k auth_context \<Rightarrow> 'k auth_db \<Rightarrow> int \<Rightarrow> action \<Rightarrow> (bool \<times> int) result option" where
  "check_native ctx db delay act =
     (let special = (\<lambda>m. bindO m (\<lambda>_. Some (Inr (True, delay))))
      in if act_account act \<noteq> system_account_name then Some (Inr (False, delay))
         else if act_name act = updateauth_name then
           special (bindO (Some (data_as updateauth_name (unpack_updateauth ctx) act)) (\<lambda>u.
             check_updateauth_authorization db u (act_authorization act)))
         else if act_name act = deleteauth_name then
           special (bindO (Some (data_as deleteauth_name (unpack_deleteauth ctx) act)) (\<lambda>d.
             check_deleteauth_authorization db d (act_authorization act)))
         else if act_name act = linkauth_name then
           special (bindO (Some (data_as linkauth_name (unpack_linkauth ctx) act)) (\<lambda>l.
             check_linkauth_authorization db l (act_authorization act)))
         else if act_name act = unlinkauth_name then
           special (bindO (Some (data_as unlinkauth_name (unpack_unlinkauth ctx) act)) (\<lambda>u.
             check_unlinkauth_authorization db u (act_authorization act)))
         else if act_name act = canceldelay_name then
           bindO (Some (data_as canceldelay_name (unpack_canceldelay ctx) act)) (\<lambda>c.
           bindO (check_canceldelay_authorization ctx db c (act_authorization act)) (\<lambda>d.
             Some (Inr (True, max delay d))))
         else Some (Inr (False, delay)))"

definition check_declared :: "'k auth_db \<Rightarrow> action \<Rightarrow> permission_level \<Rightarrow> unit result option" where
  "check_declared db act declared_auth =
     bindO (Some (lookup_minimum_permission db (actor declared_auth) (act_account act) (act_name act))) (\<lambda>min_name.
     case min_name of
       None \<Rightarrow> Some (Inr ())
     | Some nm \<Rightarrow>
         bindO (Some (get_permission db (permission_level (actor declared_auth) nm))) (\<lambda>min_permission.
         bindO (Some (get_permission db declared_auth)) (\<lambda>p. require_satisfies db p min_permission)))"

text \<open>The map of permissions to satisfy keeps the lowest delay of the actions that declare one.\<close>

definition emplace_lowest :: "permission_level \<Rightarrow> int \<Rightarrow> (permission_level \<times> int) list \<Rightarrow> (permission_level \<times> int) list" where
  "emplace_lowest d delay m =
     (case fm_find d m of
        None \<Rightarrow> fm_set d delay m
      | Some x \<Rightarrow> if x > delay then fm_set d delay m else m)"

definition check_action :: "'k auth_context \<Rightarrow> 'k auth_db \<Rightarrow> int \<Rightarrow> permission_level list \<Rightarrow> action \<Rightarrow>
    (permission_level \<times> int) list \<Rightarrow> (permission_level \<times> int) list result option" where
  "check_action ctx db effective satisfied_authorizations act m =
     bindO (check_native ctx db effective act) (\<lambda>(special_case, delay).
       foldO (\<lambda>declared_auth m.
         bindO (if special_case then Some (Inr ()) else check_declared db act declared_auth) (\<lambda>_.
           Some (Inr (if declared_auth \<in> set satisfied_authorizations then m
                      else emplace_lowest declared_auth delay m)))) (act_authorization act) m)"

definition check_satisfied :: "'k checker \<Rightarrow> permission_level \<times> int \<Rightarrow> bool list \<Rightarrow> bool list result" where
  "check_satisfied c p used =
     bindR (satisfied_permission_with_delay c (fst p) (snd p) None used) (\<lambda>(r, s).
       EOS_ASSERT r unsatisfied_authorization (Inr (marked s)))"

definition check_authorization :: "'k auth_context \<Rightarrow> 'k auth_db \<Rightarrow> action list \<Rightarrow> 'k list \<Rightarrow> permission_level list \<Rightarrow> int \<Rightarrow>
    bool \<Rightarrow> permission_level list \<Rightarrow> unit result option" where
  "check_authorization ctx db actions pkeys pperms delay allow_unused_keys satisfied_authorizations =
     (let effective = effective_delay ctx delay;
          c = make_auth_checker ctx db pkeys pperms effective
      in bindO (foldO (check_action ctx db effective satisfied_authorizations) actions []) (\<lambda>permissions_to_satisfy.
         Some (bindR (foldR (check_satisfied c) permissions_to_satisfy (initial_marks c)) (\<lambda>used.
           EOS_ASSERT (allow_unused_keys \<or> all_keys_used used) tx_irrelevant_sig (Inr ())))))"

definition check_permission_authorization :: "'k auth_context \<Rightarrow> 'k auth_db \<Rightarrow> u64 \<Rightarrow> u64 \<Rightarrow> 'k list \<Rightarrow>
    permission_level list \<Rightarrow> int \<Rightarrow> bool \<Rightarrow> unit result" where
  "check_permission_authorization ctx db account perm pkeys pperms delay allow_unused_keys =
     (let c = make_auth_checker ctx db pkeys pperms (effective_delay ctx delay)
      in bindR (satisfied_permission c (permission_level account perm) None (initial_marks c)) (\<lambda>(r, s).
         EOS_ASSERT r unsatisfied_authorization
         (EOS_ASSERT (allow_unused_keys \<or> all_keys_used (marked s)) tx_irrelevant_sig (Inr ()))))"

definition get_required_keys :: "'k auth_context \<Rightarrow> 'k auth_db \<Rightarrow> action list \<Rightarrow> 'k list \<Rightarrow> int \<Rightarrow> 'k list result" where
  "get_required_keys ctx db actions candidate_keys delay =
     (let c = make_auth_checker ctx db candidate_keys [] delay
      in bindR (foldR (\<lambda>d used. bindR (satisfied_permission c d None used) (\<lambda>(r, s).
             EOS_ASSERT r unsatisfied_authorization (Inr (marked s))))
           (concat (map act_authorization actions)) (initial_marks c)) (\<lambda>used.
         Inr (used_keys c used)))"

section \<open>The hierarchy\<close>

text \<open>
  What the manager keeps of the hierarchy: permission 0 is the reserved one and its own parent, every
  other permission belongs to an account, is younger than its parent and of the same account, no two
  have the same account and name, and each has its usage object to itself.
\<close>

definition parent_ok :: "'k permission_object generic_index \<Rightarrow> 'k perm_ref \<Rightarrow> bool" where
  "parent_ok g x =
     (case x of (i, p) \<Rightarrow>
        if i = 0 then po_parent p = 0 \<and> po_owner p = 0
        else po_owner p \<noteq> 0 \<and> 0 \<le> po_parent p \<and> po_parent p < i \<and>
          (case find_obj (po_parent p) g of
             None \<Rightarrow> False
           | Some q \<Rightarrow> po_parent p = 0 \<or> po_owner q = po_owner p))"

definition perms_ok :: "'k permission_object generic_index \<Rightarrow> bool" where
  "perms_ok g \<longleftrightarrow> fm_ok (indices g) \<and> find_obj 0 g \<noteq> None \<and> list_all (parent_ok g) (indices g) \<and>
     distinct (map (\<lambda>(i, p). (po_owner p, po_name p)) (indices g)) \<and> list_all (\<lambda>(i, p). i < next_id g) (indices g)"

text \<open>A permission is above another if it is the permission itself, its parent, or further up.\<close>

inductive above :: "'k permission_object generic_index \<Rightarrow> int \<Rightarrow> int \<Rightarrow> bool" for g where
  above_self: "find_obj j g = Some q \<Longrightarrow> above g j j"
| above_parent: "find_obj j g = Some q \<Longrightarrow> j \<noteq> 0 \<Longrightarrow> above g i (po_parent q) \<Longrightarrow> above g i j"

inductive_cases above_cases: "above g i j"

lemma find_obj_in: "fm_ok (indices g) \<Longrightarrow> find_obj i g = Some p \<longleftrightarrow> (i, p) \<in> set (indices g)"
  unfolding find_obj_def using fm_find_Some_in_set [of i "indices g" p] fm_in_set_find [of "indices g" i p] by blast

lemma perms_okD:
  assumes "perms_ok g" "find_obj i g = Some p"
  shows "parent_ok g (i, p)"
  using assms find_obj_in [of g i p] by (auto simp: perms_ok_def list_all_iff)

lemma perms_ok_parent:
  assumes "perms_ok g" "find_obj i g = Some p" "i \<noteq> 0"
  obtains q where "find_obj (po_parent p) g = Some q" "0 \<le> po_parent p" "po_parent p < i" "po_owner p \<noteq> 0"
    "po_parent p \<noteq> 0 \<Longrightarrow> po_owner q = po_owner p"
  using perms_okD [OF assms(1, 2)] assms(3) by (auto simp: parent_ok_def split: option.splits)

lemma above_zero: "above g i 0 \<Longrightarrow> i = 0"
  by (auto elim: above_cases)

lemma parent_walk_above:
  assumes "perms_ok g" "find_obj j g = Some q" "i \<noteq> 0" "i \<noteq> j" "find_obj i g = Some p"
  shows "parent_walk g i q = Some (Inr (above g i j))"
  using assms(2, 4)
proof (induction "nat j" arbitrary: j q rule: less_induct)
  case less
  show ?case
  proof (cases "j = 0")
    case True
    then have "po_parent q = 0" using perms_okD [OF assms(1) less.prems(1)] by (simp add: parent_ok_def)
    moreover have "\<not> above g i j" using above_zero [of g i] True assms(3) by auto
    ultimately show ?thesis using assms(3) by (subst parent_walk.simps) simp
  next
    case False
    obtain r where r: "find_obj (po_parent q) g = Some r" "0 \<le> po_parent q" "po_parent q < j"
      using perms_ok_parent [OF assms(1) less.prems(1) False] by metis
    have up: "above g i j \<longleftrightarrow> above g i (po_parent q)"
      using less.prems False above_parent [OF less.prems(1) False] by (auto elim: above_cases)
    show ?thesis
    proof (cases "i = po_parent q")
      case True
      then show ?thesis using up above_self [OF r(1)] by (subst parent_walk.simps) simp
    next
      case ne: False
      show ?thesis
      proof (cases "po_parent q = 0")
        case True
        then have "\<not> above g i (po_parent q)" using above_zero [of g i] assms(3) by auto
        then show ?thesis using up ne True by (subst parent_walk.simps) simp
      next
        case nz: False
        have "parent_walk g i r = Some (Inr (above g i (po_parent q)))"
          using less.hyps [OF _ r(1) ne] r(2, 3) False by simp
        then show ?thesis using up ne nz r(1) by (subst parent_walk.simps) simp
      qed
    qed
  qed
qed

lemma satisfies_above:
  assumes "perms_ok g" "find_obj i g = Some p" "find_obj j g = Some q"
  shows "satisfies g (i, p) (j, q) = Some (Inr (po_owner p = po_owner q \<and> above g i j))"
proof (cases "po_owner p = po_owner q \<and> i \<noteq> j")
  case True
  have nz: "i \<noteq> 0" "j \<noteq> 0"
    using True assms perms_okD [OF assms(1) assms(2)] perms_okD [OF assms(1) assms(3)]
    by (auto simp: parent_ok_def split: if_splits)
  obtain r where r: "find_obj (po_parent q) g = Some r" using perms_ok_parent [OF assms(1, 3) nz(2)] by metis
  have up: "above g i j \<longleftrightarrow> above g i (po_parent q)"
    using assms(3) True nz above_parent [OF assms(3) nz(2)] by (auto elim: above_cases)
  show ?thesis
  proof (cases "i = po_parent q")
    case True
    then show ?thesis using up above_self [OF assms(2)] by (simp add: satisfies_def)
  next
    case False
    then show ?thesis
      using True up parent_walk_above [OF assms(1) r nz(1) False assms(2)] r by (simp add: satisfies_def)
  qed
qed (use above_self [OF assms(2)] in \<open>auto simp: satisfies_def\<close>)

end
