(* ===== verification/Genesis.thy ===== *)
theory Genesis
  imports Fork_Chain Permissions
begin

text \<open>
  The state a new chain starts from (\<^verbatim>\<open>controller.cpp\<close>, \<^verbatim>\<open>initialize_blockchain_state\<close>) and the chains of
  headers that are accepted on it: the invariant of the header state machine holds along every one
  of them, and one of them shows that the last irreversible block can move back.
\<close>

section \<open>The genesis state\<close>

text \<open>
  The schedule of the system account alone is active and at the same time pending; everything else is
  default-constructed. The initial timestamp is given as its slot and the chain id as its digest.
\<close>

definition initial_schedule :: "'k \<Rightarrow> 'k producer_authority_schedule" where
  "initial_schedule initial_key =
     \<lparr>version = 0, producers = [\<lparr>producer_name = system_account_name,
        pa_authority = \<lparr>bsa_threshold = 1, bsa_keys = [\<lparr>kw_key = initial_key, kw_weight = 1\<rparr>]\<rparr>\<rparr>]\<rparr>"

definition genesis_header :: "'g \<Rightarrow> u32 \<Rightarrow> digest \<Rightarrow> 'g signed_block_header" where
  "genesis_header no_signature initial_timestamp chain_id =
     \<lparr>timestamp = initial_timestamp, producer = 0, confirmed = 1, previous = digest_zero,
      transaction_mroot = digest_zero, action_mroot = chain_id, schedule_version = 0, header_extensions = [],
      hdr_enable_standby_schedule = False, hdr_standby_schedule_block_num = None, producer_signature = no_signature\<rparr>"

definition initialize_blockchain_state :: "('k, 'g) fc_env \<Rightarrow> 'g \<Rightarrow> 'k \<Rightarrow> u32 \<Rightarrow> digest \<Rightarrow> ('k, 'g) block_header_state" where
  "initialize_blockchain_state env no_signature initial_key initial_timestamp chain_id =
     (let hdr = genesis_header no_signature initial_timestamp chain_id
      in \<lparr>block_num = header_block_num env hdr, dpos_proposed_irreversible_blocknum = 0, dpos_irreversible_blocknum = 0,
          active_schedule = initial_schedule initial_key, blockroot_merkle = incremental_merkle_empty,
          producer_to_last_produced = [], producer_to_last_implied_irb = [],
          valid_block_signing_authority = \<lparr>bsa_threshold = 0, bsa_keys = []\<rparr>, confirm_count = [],
          enable_standby_schedule = False, standby_schedule_block_num = None,
          bhs_id = header_id env hdr, header = hdr,
          pending_schedule = \<lparr>schedule_lib_num = 0, schedule_hash = hash_schedule env (initial_schedule initial_key),
            schedule = initial_schedule initial_key\<rparr>,
          additional_signatures = [], header_exts = []\<rparr>)"

section \<open>Chains from the genesis state\<close>

lemma genesis_tracked:
  assumes "\<And>n. endian_reverse_u32 env (endian_reverse_u32 env n) = n"
  shows "bhs_tracked env (initialize_blockchain_state env g k t c)"
  using num_from_header_id [of env, OF assms]
  by (simp add: bhs_tracked_def initialize_blockchain_state_def Let_def maximum_tracked_dpos_confirmations_def)

lemma genesis_promotes: "promotes_pending (initialize_blockchain_state env g k t c) lib"
  by (simp add: promotes_pending_def initialize_blockchain_state_def initial_schedule_def Let_def)

lemma genesis_next_ok:
  assumes endian: "\<And>n. endian_reverse_u32 env (endian_reverse_u32 env n) = n"
    and step: "bhs_next env (initialize_blockchain_state env g k t c) h sigs skip = Inr s"
    and room: "block_num (initialize_blockchain_state env g k t c) \<noteq> - 1"
  shows "bhs_ok env s \<and> unat (block_num s) = Suc (unat (block_num (initialize_blockchain_state env g k t c)))"
  using bhs_next_tracked [OF genesis_tracked step room endian] endian
  by (simp add: bhs_ok_eq genesis_promotes)

section \<open>A chain with two changes of schedule\<close>

text \<open>
  Schedules packed as their version and the names of their producers, for producers that sign with one
  key of their own.
\<close>

definition env_schedules :: "(nat, nat) fc_env" where
  "env_schedules = env_reference\<lparr>
     pack_schedule := \<lambda>s. ucast (version s) # map (\<lambda>p. ucast (producer_name p)) (producers s),
     unpack_schedule := \<lambda>bs. case bs of [] \<Rightarrow> Inl std_out_of_range
       | v # names \<Rightarrow> Inr (example_schedule (ucast v) (map ucast names))\<rparr>"

definition example_genesis :: "(nat, nat) block_header_state" where
  "example_genesis = initialize_blockchain_state env_schedules 0 9 0 digest_zero"

text \<open>A header on a state, given its slot, producer, signature, confirmations and new schedule.\<close>

type_synonym scripted = "u32 \<times> u64 \<times> nat \<times> u16 \<times> nat producer_authority_schedule option"

definition scripted_header :: "('k, nat) block_header_state \<Rightarrow> scripted \<Rightarrow> nat signed_block_header" where
  "scripted_header s = (\<lambda>(slot, p, sig, conf, new).
     (example_header slot p (bhs_id s) (version (active_schedule s)))
     \<lparr>confirmed := conf, producer_signature := sig,
      header_extensions := (case new of None \<Rightarrow> [] | Some np \<Rightarrow> [(schedule_change_id, pack_schedule env_schedules np)])\<rparr>)"

definition example_script :: "scripted list" where
  "example_script =
     [(1, system_account_name, 9, 0, None),
      (2, system_account_name, 9, 0, Some (example_schedule 1 [1, 2, 3, 4])),
      (3, system_account_name, 9, 0, None),
      (48, 1, 1, 0, Some (example_schedule 2 [3, 4])),
      (60, 2, 2, 1, None), (72, 3, 3, 2, None), (96, 1, 1, 2, None), (108, 2, 2, 2, None), (120, 3, 3, 2, None)]"

definition example_last :: scripted where
  "example_last = (144, 3, 3, 0, None)"

fun scripted_run :: "(nat, nat) block_header_state \<Rightarrow> scripted list \<Rightarrow> (nat, nat) block_header_state result" where
  "scripted_run s [] = Inr s"
| "scripted_run s (x # xs) = bindR (bhs_next env_schedules s (scripted_header s x) [] False) (\<lambda>s. scripted_run s xs)"

lemma scripted_run_run:
  "scripted_run s xs = Inr t \<Longrightarrow> \<exists>hs ids. bhs_run env_schedules False s hs = Inr (t, ids) \<and> length hs = length xs"
proof (induction xs arbitrary: s)
  case (Cons x xs)
  then obtain s' where step: "bhs_next env_schedules s (scripted_header s x) [] False = Inr s'" and "scripted_run s' xs = Inr t"
    by auto
  with Cons.IH obtain hs ids where "bhs_run env_schedules False s' hs = Inr (t, ids)" "length hs = length xs" by blast
  then show ?case using step by (intro exI [of _ "(scripted_header s x, []) # hs"]) simp
qed auto



text \<open>
  Blocks 2 to 4 are the system account's, which hands over to producers 1 to 4 in block 3. Producer 4
  never signs. Block 5 proposes to keep producers 3 and 4 only, block 10 brings that schedule into
  force, and block 11 is the first under it. The fork database is that of a node started on block 9.
\<close>

lemma system_account_name_eq [code]: "system_account_name = 6138663577826885632"
  unfolding system_account_name_def by code_simp

lemma example_chain:
  "returns (scripted_run example_genesis example_script) (\<lambda>s. dpos_irreversible_blocknum s = 5 \<and>
     returns (bhs_next env_schedules s (scripted_header s example_last) [] False) (\<lambda>s. dpos_irreversible_blocknum s = 3))"
  by code_simp



lemma env_schedules_endian [simp]:
  "endian_reverse_u32 env_schedules (endian_reverse_u32 env_schedules n) = n" "endian_reverse_u32 env_schedules 0 = 0"
proof -
  show "endian_reverse_u32 env_schedules (endian_reverse_u32 env_schedules n) = n"
    using env_reference_endian by (simp add: env_schedules_def)
  show "endian_reverse_u32 env_schedules 0 = 0" by code_simp
qed

lemma genesis_block_num:
  assumes "endian_reverse_u32 env 0 = 0"
  shows "block_num (initialize_blockchain_state env g k t c) = 1"
  using assms
  by (simp add: initialize_blockchain_state_def header_block_num_def genesis_header_def num_from_id_def digest_zero_def Let_def)

lemma genesis_run_ok:
  assumes endian: "\<And>n. endian_reverse_u32 env (endian_reverse_u32 env n) = n" "endian_reverse_u32 env 0 = 0"
    and run: "bhs_run env skip (initialize_blockchain_state env g k t c) hs = Inr (s, ids)" "hs \<noteq> []" "length hs < 2 ^ 32 - 1"
  shows "bhs_ok env s \<and> unat (block_num s) = 1 + length hs"
proof -
  let ?g = "initialize_blockchain_state env g k t c"
  obtain h sigs hs' where hs: "hs = (h, sigs) # hs'" using run(2) by (cases hs) auto
  obtain s' ids' where step: "bhs_next env ?g h sigs skip = Inr s'" and rest: "bhs_run env skip s' hs' = Inr (s, ids')"
    using run(1) by (auto simp: hs bindR_pair_Inr)
  have num: "block_num ?g = 1" by (rule genesis_block_num [OF endian(2)])
  have "bhs_ok env s' \<and> unat (block_num s') = 2"
    using genesis_next_ok [OF endian(1) step] by (simp add: num)
  then show ?thesis using bhs_run_ok [OF endian(1) _ rest] run(3) by (simp add: hs)
qed


section \<open>Properties\<close>

text \<open>
  C39: every chain of accepted headers that starts at the genesis state and stays below \<open>2 ^ 32\<close> blocks
  satisfies the invariant of the header state machine from its second block on, and its last block has
  the number of its place in the chain.
\<close>

theorem genesis_chain_invariant:
  assumes "\<And>n. endian_reverse_u32 env (endian_reverse_u32 env n) = n" "endian_reverse_u32 env 0 = 0"
    and "bhs_run env skip (initialize_blockchain_state env g k t c) hs = Inr (s, ids)" "hs \<noteq> []" "length hs < 2 ^ 32 - 1"
  shows "bhs_ok env s \<and> unat (block_num s) = 1 + length hs"
  using assms by (rule genesis_run_ok)

theorem genesis_chain_invariant_witness:
  "\<exists>hs s ids. bhs_run env_schedules False (initialize_blockchain_state env_schedules 0 9 0 digest_zero) hs = Inr (s, ids) \<and>
     length hs = 9 \<and> bhs_ok env_schedules s \<and> unat (block_num s) = 10"
proof -
  obtain s where s: "scripted_run example_genesis example_script = Inr s" using example_chain by (auto simp: returns_iff)
  obtain hs ids where hs: "bhs_run env_schedules False example_genesis hs = Inr (s, ids)" "length hs = 9"
    using scripted_run_run [OF s] by (auto simp: example_script_def)
  show ?thesis
    using genesis_chain_invariant [OF env_schedules_endian hs(1) [unfolded example_genesis_def]] hs
    by (force simp: example_genesis_def)
qed



text \<open>
  C35: the last irreversible block can move back. There is a chain of accepted, correctly signed headers
  from the genesis state after which the next accepted header has a lower irreversible block: a
  producer that never signed keeps its old entry when a new schedule keeps it, and a smaller schedule
  then takes that entry for its quorum value.
\<close>

theorem lib_moves_back_on_schedule_change:
  "\<exists>hs s ids h s'. bhs_run env_schedules False (initialize_blockchain_state env_schedules 0 9 0 digest_zero) hs = Inr (s, ids) \<and>
     bhs_next env_schedules s h [] False = Inr s' \<and> dpos_irreversible_blocknum s' < dpos_irreversible_blocknum s"
proof -
  obtain s s' where s: "scripted_run example_genesis example_script = Inr s"
    "bhs_next env_schedules s (scripted_header s example_last) [] False = Inr s'"
    "dpos_irreversible_blocknum s = 5" "dpos_irreversible_blocknum s' = 3"
    using example_chain by (auto simp: returns_iff)
  obtain hs ids where "bhs_run env_schedules False example_genesis hs = Inr (s, ids)"
    using scripted_run_run [OF s(1)] by blast
  then show ?thesis using s by (fastforce simp: example_genesis_def)
qed

end
