(* ===== verification/Authorization.thy ===== *)
theory Authorization
  imports Permissions
begin

text \<open>
  What the authorization manager guarantees: its checks always end, a transaction that passes declares
  only permissions that are above the ones its actions need and that the provided keys, permissions
  and delay satisfy, and a native action on permissions is authorized by a permission above the one it
  changes.
\<close>

section \<open>Looking up permissions\<close>

lemma find_by_owner_Some:
  assumes "perms_ok (perm_index db)" "find_by_owner db a n = Some (i, p)"
  shows "find_obj i (perm_index db) = Some p" "po_owner p = a" "po_name p = n"
proof -
  have "(i, p) \<in> set (indices (perm_index db))" "po_owner p = a \<and> po_name p = n"
    using assms(2) by (auto simp: find_by_owner_def dest: find_SomeD)
  then show "find_obj i (perm_index db) = Some p" "po_owner p = a" "po_name p = n"
    using assms(1) find_obj_in [of "perm_index db" i p] by (auto simp: perms_ok_def)
qed

lemma find_by_owner_unique:
  assumes "perms_ok (perm_index db)" "find_obj i (perm_index db) = Some p"
  shows "find_by_owner db (po_owner p) (po_name p) = Some (i, p)"
proof -
  let ?f = "\<lambda>(i, p). (po_owner p, po_name p)"
  have m: "(i, p) \<in> set (indices (perm_index db))"
    using assms find_obj_in [of "perm_index db" i p] by (auto simp: perms_ok_def)
  obtain x where x: "find_by_owner db (po_owner p) (po_name p) = Some x"
    using m by (cases "find_by_owner db (po_owner p) (po_name p)") (auto simp: find_by_owner_def find_None_iff)
  then have "x \<in> set (indices (perm_index db))" "?f x = ?f (i, p)"
    by (auto simp: find_by_owner_def dest: find_SomeD)
  moreover have "inj_on ?f (set (indices (perm_index db)))" using assms(1) by (simp add: perms_ok_def distinct_map)
  ultimately have "x = (i, p)" using m by (meson inj_onD)
  then show ?thesis using x by simp
qed

lemma get_permission_Inr:
  assumes "perms_ok (perm_index db)" "get_permission db l = Inr (i, p)"
  shows "find_obj i (perm_index db) = Some p" "po_owner p = actor l" "po_name p = permission l"
  using find_by_owner_Some [OF assms(1), of "actor l" "permission l" i p] assms(2)
  by (auto simp: get_permission_def split: option.splits)

lemma find_permission_Inr:
  assumes "perms_ok (perm_index db)" "find_permission db l = Inr (Some (i, p))"
  shows "find_obj i (perm_index db) = Some p" "po_owner p = actor l" "po_name p = permission l"
  using find_by_owner_Some [OF assms(1), of "actor l" "permission l" i p] assms(2)
  by (auto simp: find_permission_def)

lemma require_satisfies_above:
  assumes "perms_ok (perm_index db)" "find_obj i (perm_index db) = Some p" "find_obj j (perm_index db) = Some q"
  shows "require_satisfies db (i, p) (j, q) =
    (if po_owner p = po_owner q \<and> above (perm_index db) i j then Some (Inr ()) else Some (Inl irrelevant_auth_exception))"
  using satisfies_above [OF assms] by (simp add: require_satisfies_def assertO_def)

section \<open>The checks end\<close>

lemma require_satisfies_defined:
  assumes "perms_ok (perm_index db)" "find_obj (fst x) (perm_index db) = Some (snd x)" "find_obj (fst y) (perm_index db) = Some (snd y)"
  shows "require_satisfies db x y \<noteq> None"
  using require_satisfies_above [OF assms] by (simp split: if_splits)

lemma get_permission_ref:
  assumes "perms_ok (perm_index db)" "Some (get_permission db l) = Some (Inr x)"
  shows "find_obj (fst x) (perm_index db) = Some (snd x)"
  using get_permission_Inr(1) [OF assms(1), of l "fst x" "snd x"] assms(2) by simp

lemmas check_defs = check_updateauth_authorization_def check_deleteauth_authorization_def check_linkauth_authorization_def
  check_unlinkauth_authorization_def check_canceldelay_authorization_def

lemma option_case_defined: "(x = None \<Longrightarrow> a \<noteq> None) \<Longrightarrow> (\<And>y. x = Some y \<Longrightarrow> f y \<noteq> None) \<Longrightarrow> case_option a f x \<noteq> None"
  by (cases x) simp_all

lemma if_defined: "(c \<Longrightarrow> a \<noteq> None) \<Longrightarrow> (\<not> c \<Longrightarrow> b \<noteq> None) \<Longrightarrow> (if c then a else b) \<noteq> None"
  by simp

lemmas defined_intros = bindO_defined assertO_defined option_case_defined if_defined require_satisfies_defined option.discI

lemma native_checks_defined:
  assumes "perms_ok (perm_index db)"
  shows "check_updateauth_authorization db u auths \<noteq> None" "check_deleteauth_authorization db d auths \<noteq> None"
    "check_linkauth_authorization db l auths \<noteq> None" "check_unlinkauth_authorization db ul auths \<noteq> None"
    "check_canceldelay_authorization ctx db c auths \<noteq> None"
proof -
  note ref = get_permission_ref [OF assms]
  have fref: "find_obj (fst x) (perm_index db) = Some (snd x)"
    if "Some (find_permission db l) = Some (Inr (Some x))" for l x
    using find_permission_Inr(1) [OF assms, of l "fst x" "snd x"] that by simp
  show "check_deleteauth_authorization db d auths \<noteq> None"
    "check_linkauth_authorization db l auths \<noteq> None" "check_unlinkauth_authorization db ul auths \<noteq> None"
    "check_canceldelay_authorization ctx db c auths \<noteq> None"
    unfolding check_defs by (intro defined_intros assms; (erule ref | simp))+
  show "check_updateauth_authorization db u auths \<noteq> None"
    unfolding check_defs
    by (intro defined_intros assms; (erule ref | simp)) (use ref fref in \<open>auto split: option.splits\<close>)
qed

lemma check_native_defined:
  assumes "perms_ok (perm_index db)"
  shows "check_native ctx db delay act \<noteq> None"
  unfolding check_native_def Let_def
  by (intro if_defined bindO_defined native_checks_defined [OF assms]) simp_all

lemma check_declared_defined:
  assumes "perms_ok (perm_index db)"
  shows "check_declared db act d \<noteq> None"
  unfolding check_declared_def
  by (intro defined_intros assms; (erule get_permission_ref [OF assms] | simp))

lemma check_action_defined:
  assumes "perms_ok (perm_index db)"
  shows "check_action ctx db eff sat act m \<noteq> None"
  unfolding check_action_def case_prod_unfold
  by (intro bindO_defined foldO_defined if_defined check_native_defined check_declared_defined assms) simp_all

lemma check_authorization_defined:
  assumes "perms_ok (perm_index db)"
  shows "check_authorization ctx db actions pkeys pperms delay allow sat \<noteq> None"
  unfolding check_authorization_def Let_def
  by (intro bindO_defined foldO_defined check_action_defined assms) simp_all

section \<open>What passing the check means\<close>

text \<open>A longer delay satisfies more.\<close>

lemma holds_delay_mono:
  assumes "d \<le> d'"
  shows "permission_holds (c\<lparr>provided_delay := d\<rparr>) p \<Longrightarrow> permission_holds (c\<lparr>provided_delay := d'\<rparr>) p"
    and "entry_holds (c\<lparr>provided_delay := d\<rparr>) m \<Longrightarrow> entry_holds (c\<lparr>provided_delay := d'\<rparr>) m"
proof (induction rule: permission_holds_entry_holds.inducts)
  case (provided p)
  then show ?case by (intro permission_holds_entry_holds.provided) simp
next
  case (whole_account p)
  show ?case by (rule permission_holds_entry_holds.whole_account) (fact whole_account.IH)
next
  case (by_authority p auth ms)
  show ?case by (rule permission_holds_entry_holds.by_authority [of _ _ auth ms]) (use by_authority in simp_all)
next
  case (by_wait w)
  then show ?case using assms by simp
next
  case (by_key k)
  then show ?case by simp
next
  case (by_account a)
  show ?case by (rule permission_holds_entry_holds.by_account) (fact by_account.IH)
qed

text \<open>The map of permissions to satisfy only loses delay.\<close>

definition covers :: "(permission_level \<times> int) list \<Rightarrow> permission_level \<Rightarrow> int \<Rightarrow> bool" where
  "covers m d delay \<longleftrightarrow> (\<exists>y \<le> delay. fm_find d m = Some y)"

lemma emplace_lowest_covers:
  "covers (emplace_lowest d delay m) d delay"
  "covers m d' delay' \<Longrightarrow> covers (emplace_lowest d delay m) d' delay'"
  by (force simp: covers_def emplace_lowest_def fm_find_set split: option.splits)+

lemma check_action_result:
  assumes "check_action ctx db eff sat act m = Some (Inr m')"
  obtains special delay where "check_native ctx db eff act = Some (Inr (special, delay))"
    "\<And>d. d \<in> set (act_authorization act) \<Longrightarrow> special \<or> check_declared db act d = Some (Inr ())"
    "\<And>d. d \<in> set (act_authorization act) \<Longrightarrow> d \<notin> set sat \<Longrightarrow> covers m' d delay"
    "\<And>d x. covers m d x \<Longrightarrow> covers m' d x"
proof -
  obtain special delay where n: "check_native ctx db eff act = Some (Inr (special, delay))"
    and f: "foldO (\<lambda>d m. bindO (if special then Some (Inr ()) else check_declared db act d) (\<lambda>_.
         Some (Inr (if d \<in> set sat then m else emplace_lowest d delay m)))) (act_authorization act) m = Some (Inr m')"
    using assms by (auto simp: check_action_def)
  have "(\<forall>d \<in> set ds. special \<or> check_declared db act d = Some (Inr ())) \<and>
      (\<forall>d \<in> set ds. d \<notin> set sat \<longrightarrow> covers m' d delay) \<and> (\<forall>d x. covers m d x \<longrightarrow> covers m' d x)"
    if "foldO (\<lambda>d m. bindO (if special then Some (Inr ()) else check_declared db act d) (\<lambda>_.
         Some (Inr (if d \<in> set sat then m else emplace_lowest d delay m)))) ds m = Some (Inr m')" for ds m
    using that
  proof (induction ds arbitrary: m)
    case (Cons d ds)
    let ?m = "if d \<in> set sat then m else emplace_lowest d delay m"
    from Cons.prems have head: "special \<or> check_declared db act d = Some (Inr ())" by (auto split: if_splits)
    from Cons.prems have "foldO (\<lambda>d m. bindO (if special then Some (Inr ()) else check_declared db act d) (\<lambda>_.
         Some (Inr (if d \<in> set sat then m else emplace_lowest d delay m)))) ds ?m = Some (Inr m')"
      by (auto split: if_splits)
    note rest = Cons.IH [OF this]
    have "covers ?m d' x" if "covers m d' x" for d' x using that emplace_lowest_covers(2) by simp
    moreover have "covers ?m d delay" if "d \<notin> set sat" using that emplace_lowest_covers(1) by simp
    ultimately show ?case using head rest by (metis set_ConsD)
  qed simp
  from this [OF f] show ?thesis using that [OF n] by blast
qed

lemma check_actions_result:
  assumes "foldO (check_action ctx db eff sat) acts m = Some (Inr m')" "act \<in> set acts"
  obtains special delay where "check_native ctx db eff act = Some (Inr (special, delay))"
    "\<And>d. d \<in> set (act_authorization act) \<Longrightarrow> special \<or> check_declared db act d = Some (Inr ())"
    "\<And>d. d \<in> set (act_authorization act) \<Longrightarrow> d \<notin> set sat \<Longrightarrow> covers m' d delay"
proof -
  have keeps: "covers m d x \<longrightarrow> covers m' d x" if "foldO (check_action ctx db eff sat) as m = Some (Inr m')" for as m d x
    by (rule foldO_invariant [OF that, of "\<lambda>m'. covers m d x \<longrightarrow> covers m' d x"]) (auto elim: check_action_result)
  obtain as bs where "acts = as @ act # bs" using assms(2) by (auto simp: in_set_conv_decomp)
  moreover have "\<exists>m1. foldO f (as @ cs) m = Some (Inr m') \<longrightarrow> foldO f cs m1 = Some (Inr m')" for f :: "action \<Rightarrow> _" and cs m
    by (induction as arbitrary: m) auto
  ultimately obtain m1 where "foldO (check_action ctx db eff sat) (act # bs) m1 = Some (Inr m')" using assms(1) by blast
  then obtain m2 where m2: "check_action ctx db eff sat act m1 = Some (Inr m2)"
    "foldO (check_action ctx db eff sat) bs m2 = Some (Inr m')" by auto
  show ?thesis
    by (rule check_action_result [OF m2(1)]) (use that keeps [OF m2(2)] in blast)
qed

lemma check_satisfied_all:
  "foldR (check_satisfied c) ps used = Inr used' \<Longrightarrow> (d, delay) \<in> set ps \<Longrightarrow>
   permission_holds (c\<lparr>provided_delay := delay\<rparr>) d"
proof (induction ps arbitrary: used)
  case (Cons p ps)
  then obtain u where u: "check_satisfied c p used = Inr u" "foldR (check_satisfied c) ps u = Inr used'" by auto
  have "permission_holds (c\<lparr>provided_delay := snd p\<rparr>) (fst p)"
    using u(1) by (auto simp: check_satisfied_def satisfied_permission_with_delay_def bindR_pair_Inr
        intro: satisfied_permission_sound)
  then show ?case using Cons u(2) by auto
qed simp

text \<open>
  The permission a level names exists, and so does the permission of the same account with a given
  name, which it is above.
\<close>

definition stands_above :: "'k auth_db \<Rightarrow> permission_level \<Rightarrow> u64 \<Rightarrow> bool" where
  "stands_above db d n \<longleftrightarrow>
     (\<exists>i p j q. find_obj i (perm_index db) = Some p \<and> po_owner p = actor d \<and> po_name p = permission d \<and>
        find_obj j (perm_index db) = Some q \<and> po_owner q = actor d \<and> po_name q = n \<and> above (perm_index db) i j)"

text \<open>What a declared permission needs for an ordinary action: to be above the minimum permission, if there is one.\<close>

definition declared_suffices :: "'k auth_db \<Rightarrow> action \<Rightarrow> permission_level \<Rightarrow> bool" where
  "declared_suffices db act d \<longleftrightarrow>
     (\<exists>nm. lookup_minimum_permission db (actor d) (act_account act) (act_name act) = Inr nm \<and>
        (\<forall>n. nm = Some n \<longrightarrow> stands_above db d n))"

lemma require_satisfies_stands_above:
  assumes "perms_ok (perm_index db)" "get_permission db d = Inr x" "find_obj (fst y) (perm_index db) = Some (snd y)"
    "require_satisfies db x y = Some (Inr ())"
  shows "stands_above db d (po_name (snd y)) \<and> po_owner (snd y) = actor d"
proof -
  note p = get_permission_Inr [OF assms(1), of d "fst x" "snd x"]
  have "po_owner (snd x) = po_owner (snd y) \<and> above (perm_index db) (fst x) (fst y)"
    using require_satisfies_above [OF assms(1), of "fst x" "snd x" "fst y" "snd y"] p assms by (auto split: if_splits)
  then show ?thesis using p assms(2, 3) unfolding stands_above_def by (metis prod.collapse)
qed

lemma check_declared_suffices:
  assumes "perms_ok (perm_index db)" "check_declared db act d = Some (Inr ())"
  shows "declared_suffices db act d"
proof -
  obtain nm where nm: "lookup_minimum_permission db (actor d) (act_account act) (act_name act) = Inr nm"
    using assms(2) by (auto simp: check_declared_def)
  have "stands_above db d n" if n: "nm = Some n" for n
  proof -
    obtain x y where g: "get_permission db (permission_level (actor d) n) = Inr y" "get_permission db d = Inr x"
      "require_satisfies db x y = Some (Inr ())"
      using assms(2) nm n by (auto simp: check_declared_def)
    note q = get_permission_Inr [OF assms(1), of "permission_level (actor d) n" "fst y" "snd y"]
    show ?thesis using require_satisfies_stands_above [OF assms(1) g(2) _ g(3)] q g(1) by simp
  qed
  then show ?thesis using nm by (auto simp: declared_suffices_def)
qed

lemma check_authorization_result:
  assumes "perms_ok (perm_index db)"
    and "check_authorization ctx db actions pkeys pperms delay allow sat = Some (Inr ())"
    and "act \<in> set actions" "d \<in> set (act_authorization act)"
  shows "\<exists>special del. check_native ctx db (effective_delay ctx delay) act = Some (Inr (special, del)) \<and>
    (special \<or> declared_suffices db act d) \<and>
    (d \<in> set sat \<or> permission_holds (make_auth_checker ctx db pkeys pperms del) d)"
proof -
  let ?c = "make_auth_checker ctx db pkeys pperms (effective_delay ctx delay)"
  obtain m used where m: "foldO (check_action ctx db (effective_delay ctx delay) sat) actions [] = Some (Inr m)"
    "foldR (check_satisfied ?c) m (initial_marks ?c) = Inr used"
    using assms(2) by (auto simp: check_authorization_def Let_def)
  obtain special del where n: "check_native ctx db (effective_delay ctx delay) act = Some (Inr (special, del))"
    "special \<or> check_declared db act d = Some (Inr ())" "d \<notin> set sat \<Longrightarrow> covers m d del"
    using check_actions_result [OF m(1) assms(3)] assms(4) by metis
  have "permission_holds (make_auth_checker ctx db pkeys pperms del) d" if out: "d \<notin> set sat"
  proof -
    obtain y where y: "y \<le> del" "fm_find d m = Some y" using n(3) [OF out] by (auto simp: covers_def)
    have "permission_holds (?c\<lparr>provided_delay := y\<rparr>) d"
      using check_satisfied_all [OF m(2) fm_find_Some_in_set [OF y(2)]] .
    then have "permission_holds (?c\<lparr>provided_delay := del\<rparr>) d" by (rule holds_delay_mono(1) [OF y(1)])
    then show ?thesis by (simp add: make_auth_checker_def)
  qed
  then show ?thesis using n(1, 2) check_declared_suffices [OF assms(1)] by blast
qed

text \<open>
  What the one declared permission of a native action is needed for: it is of the account the action
  changes, and above the permission changed or, where that does not exist yet, above its parent.
\<close>

definition native_allowed :: "'k auth_context \<Rightarrow> 'k auth_db \<Rightarrow> action \<Rightarrow> permission_level \<Rightarrow> bool" where
  "native_allowed ctx db act d \<longleftrightarrow>
     (\<exists>u. act_name act = updateauth_name \<and> unpack_updateauth ctx (act_data act) = Inr u \<and> actor d = ua_account u \<and>
        (if find_by_owner db (ua_account u) (ua_permission u) \<noteq> None then stands_above db d (ua_permission u)
         else stands_above db d (ua_parent u))) \<or>
     (\<exists>r. act_name act = deleteauth_name \<and> unpack_deleteauth ctx (act_data act) = Inr r \<and> actor d = da_account r \<and>
        stands_above db d (da_permission r)) \<or>
     (\<exists>l nm. act_name act = linkauth_name \<and> unpack_linkauth ctx (act_data act) = Inr l \<and> actor d = la_account l \<and>
        lookup_minimum_permission db (la_account l) (la_code l) (la_type l) = Inr nm \<and> (\<forall>n. nm = Some n \<longrightarrow> stands_above db d n)) \<or>
     (\<exists>u n. act_name act = unlinkauth_name \<and> unpack_unlinkauth ctx (act_data act) = Inr u \<and> actor d = ula_account u \<and>
        lookup_linked_permission db (ula_account u) (ula_code u) (ula_type u) = Some n \<and>
        (n \<noteq> eosio_any_name \<longrightarrow> stands_above db d n)) \<or>
     (\<exists>c. act_name act = canceldelay_name \<and> unpack_canceldelay ctx (act_data act) = Inr c \<and>
        actor d = actor (cd_canceling_auth c) \<and> stands_above db d (permission (cd_canceling_auth c)))"

lemma single_auth_Inr [simp]: "single_auth auths = Inr d \<longleftrightarrow> auths = [d]"
  by (auto simp: single_auth_def length_Suc_conv EOS_ASSERT_def)

lemma data_as_Inr: "data_as nm unpack a = Inr x \<Longrightarrow> unpack (act_data a) = Inr x"
  by (auto simp: data_as_def)

lemma get_then_above:
  assumes "perms_ok (perm_index db)" "get_permission db d = Inr x" "get_permission db l = Inr y"
    "require_satisfies db x y = Some (Inr ())"
  shows "stands_above db d (permission l) \<and> actor d = actor l"
  using require_satisfies_stands_above [OF assms(1, 2) _ assms(4)]
    get_permission_Inr [OF assms(1), of l "fst y" "snd y"] assms(3) by simp

lemma stands_aboveI:
  assumes "perms_ok (perm_index db)" "get_permission db d = Inr x" "get_permission db (permission_level a n) = Inr y"
    "require_satisfies db x y = Some (Inr ())"
  shows "stands_above db d n"
  using get_then_above [OF assms] by simp

lemma updateauth_above:
  assumes "perms_ok (perm_index db)" "check_updateauth_authorization db u auths = Some (Inr ())"
  shows "\<exists>d. auths = [d] \<and> actor d = ua_account u \<and>
    (if find_by_owner db (ua_account u) (ua_permission u) \<noteq> None then stands_above db d (ua_permission u)
     else stands_above db d (ua_parent u))"
proof -
  obtain d m where d: "auths = [d]" "actor d = ua_account u"
    and m: "find_permission db (permission_level (ua_account u) (ua_permission u)) = Inr m"
    using assms(2) by (auto simp: check_updateauth_authorization_def)
  have f: "find_by_owner db (ua_account u) (ua_permission u) = m" using m by (simp add: find_permission_def)
  show ?thesis
  proof (cases m)
    case None
    then have "stands_above db d (ua_parent u)"
      using assms(2) d m by (auto simp: check_updateauth_authorization_def intro: stands_aboveI [OF assms(1)])
    then show ?thesis using None d f by simp
  next
    case (Some y)
    then obtain x where x: "get_permission db d = Inr x" "require_satisfies db x y = Some (Inr ())"
      using assms(2) d m by (auto simp: check_updateauth_authorization_def)
    have "find_obj (fst y) (perm_index db) = Some (snd y)" "po_name (snd y) = ua_permission u"
      using m Some find_permission_Inr [OF assms(1), of _ "fst y" "snd y"] by auto
    then show ?thesis using Some d f require_satisfies_stands_above [OF assms(1) x(1) _ x(2)] by auto
  qed
qed

lemma deleteauth_above:
  assumes "perms_ok (perm_index db)" "check_deleteauth_authorization db r auths = Some (Inr ())"
  shows "\<exists>d. auths = [d] \<and> actor d = da_account r \<and> stands_above db d (da_permission r)"
  using assms(2) by (auto simp: check_deleteauth_authorization_def intro: stands_aboveI [OF assms(1)])

lemma linkauth_above:
  assumes "perms_ok (perm_index db)" "check_linkauth_authorization db l auths = Some (Inr ())"
  shows "\<exists>d nm. auths = [d] \<and> actor d = la_account l \<and>
    lookup_minimum_permission db (la_account l) (la_code l) (la_type l) = Inr nm \<and> (\<forall>n. nm = Some n \<longrightarrow> stands_above db d n)"
  using assms(2) by (auto simp: check_linkauth_authorization_def split: option.splits intro: stands_aboveI [OF assms(1)])

lemma unlinkauth_above:
  assumes "perms_ok (perm_index db)" "check_unlinkauth_authorization db u auths = Some (Inr ())"
  shows "\<exists>d n. auths = [d] \<and> actor d = ula_account u \<and>
    lookup_linked_permission db (ula_account u) (ula_code u) (ula_type u) = Some n \<and> (n \<noteq> eosio_any_name \<longrightarrow> stands_above db d n)"
  using assms(2)
  by (cases "lookup_linked_permission db (ula_account u) (ula_code u) (ula_type u)")
    (auto simp: check_unlinkauth_authorization_def split: if_split_asm intro: stands_aboveI [OF assms(1)])

lemma canceldelay_above:
  assumes "perms_ok (perm_index db)" "check_canceldelay_authorization ctx db c auths = Some (Inr del)"
  shows "\<exists>d. auths = [d] \<and> actor d = actor (cd_canceling_auth c) \<and> stands_above db d (permission (cd_canceling_auth c))"
proof -
  obtain d x y where "auths = [d]" "get_permission db d = Inr x" "get_permission db (cd_canceling_auth c) = Inr y"
    "require_satisfies db x y = Some (Inr ())"
    using assms(2) by (auto simp: check_canceldelay_authorization_def)
  then show ?thesis using get_then_above [OF assms(1)] by blast
qed

lemma check_native_cases:
  assumes "check_native ctx db delay act = Some (Inr (True, del))"
  obtains u where "act_name act = updateauth_name" "unpack_updateauth ctx (act_data act) = Inr u"
      "check_updateauth_authorization db u (act_authorization act) = Some (Inr ())"
  | r where "act_name act = deleteauth_name" "unpack_deleteauth ctx (act_data act) = Inr r"
      "check_deleteauth_authorization db r (act_authorization act) = Some (Inr ())"
  | l where "act_name act = linkauth_name" "unpack_linkauth ctx (act_data act) = Inr l"
      "check_linkauth_authorization db l (act_authorization act) = Some (Inr ())"
  | u where "act_name act = unlinkauth_name" "unpack_unlinkauth ctx (act_data act) = Inr u"
      "check_unlinkauth_authorization db u (act_authorization act) = Some (Inr ())"
  | c d where "act_name act = canceldelay_name" "unpack_canceldelay ctx (act_data act) = Inr c"
      "check_canceldelay_authorization ctx db c (act_authorization act) = Some (Inr d)"
  using assms by (auto simp: check_native_def Let_def split: if_split_asm dest!: data_as_Inr)

lemma check_native_allowed:
  assumes "perms_ok (perm_index db)" "check_native ctx db delay act = Some (Inr (True, del))"
  shows "\<exists>d. act_authorization act = [d] \<and> native_allowed ctx db act d"
  using assms(2)
proof (cases rule: check_native_cases)
  case 1
  from 1(1, 2) updateauth_above [OF assms(1) 1(3)] show ?thesis unfolding native_allowed_def by metis
next
  case 2
  from 2(1, 2) deleteauth_above [OF assms(1) 2(3)] show ?thesis unfolding native_allowed_def by metis
next
  case 3
  from 3(1, 2) linkauth_above [OF assms(1) 3(3)] show ?thesis unfolding native_allowed_def by metis
next
  case 4
  from 4(1, 2) unlinkauth_above [OF assms(1) 4(3)] show ?thesis unfolding native_allowed_def by metis
next
  case 5
  from 5(1, 2) canceldelay_above [OF assms(1) 5(3)] show ?thesis unfolding native_allowed_def by metis
qed

section \<open>The guarantees\<close>

text \<open>
  An account with the permissions owner, active and a third one below active that one of its actions
  is linked to; each is held by a key of its own.
\<close>

definition example_auth :: "nat \<Rightarrow> nat authority" where
  "example_auth k = \<lparr>threshold = 1, keys = [\<lparr>kw_key = k, kw_weight = 1\<rparr>], accounts = [], waits = []\<rparr>"

definition example_perm :: "int \<Rightarrow> u64 \<Rightarrow> nat \<Rightarrow> nat permission_object" where
  "example_perm parent nm k = \<lparr>po_usage_id = parent, po_parent = parent, po_owner = 7, po_name = nm, po_last_updated = 0,
     po_auth = example_auth k\<rparr>"

definition example_db :: "nat auth_db" where
  "example_db = auth_db_empty
     \<lparr>perm_index := generic_index_empty\<lparr>indices := [(0, reserved_permission), (1, example_perm 0 owner_name 1),
        (2, example_perm 1 active_name 2), (3, example_perm 2 5 3)], next_id := 4\<rparr>,
      link_index := generic_index_empty\<lparr>indices := [(0, \<lparr>plo_account = 7, plo_code = 8, plo_message_type = 9,
        plo_required_permission = 5\<rparr>)], next_id := 1\<rparr>\<rparr>"

definition example_ctx :: "nat auth_context" where
  "example_ctx = \<lparr>num_supported_key_types = 1, key_which = \<lambda>_. 0, pending_block_time = 0, max_authority_depth = 6,
     max_transaction_delay = 100, deferred = [],
     unpack_updateauth = \<lambda>_. Inr \<lparr>ua_account = 7, ua_permission = 5, ua_parent = active_name, ua_auth = example_auth 4\<rparr>,
     unpack_deleteauth = \<lambda>_. Inl assert_exception, unpack_linkauth = \<lambda>_. Inl assert_exception,
     unpack_unlinkauth = \<lambda>_. Inl assert_exception, unpack_canceldelay = \<lambda>_. Inl assert_exception,
     unpack_transaction = \<lambda>_. Inl assert_exception\<rparr>"

definition example_transfer :: action where
  "example_transfer = \<lparr>act_account = 8, act_name = 9, act_authorization = [permission_level 7 active_name], act_data = []\<rparr>"

definition example_update :: action where
  "example_update = \<lparr>act_account = system_account_name, act_name = updateauth_name,
     act_authorization = [permission_level 7 active_name], act_data = []\<rparr>"

lemma example_perms_ok: "perms_ok (perm_index example_db)"
  by code_simp

text \<open>
  C16: The check of a transaction always ends with a verdict: over a hierarchy of permissions that is
  well formed, no walk up the parents, for an ordinary or a native action, runs forever.
\<close>

theorem check_authorization_ends:
  assumes "perms_ok (perm_index db)"
  shows "\<exists>r. check_authorization ctx db actions pkeys pperms delay allow sat = Some r"
  using check_authorization_defined [OF assms] by simp

theorem check_authorization_ends_witness:
  "perms_ok (perm_index example_db) \<and>
   (\<exists>r. check_authorization example_ctx example_db [example_transfer, example_update] [1] [] 0 True [] = Some r)"
  using example_perms_ok check_authorization_ends [OF example_perms_ok] by blast

text \<open>
  C5: A transaction that the authorization check accepts is authorized: for every action and every
  permission the action declares, either the action is a native one on permissions that passed its
  own check, or the declared permission exists and is above the minimum permission that the account
  has linked to the action (active where it linked none); and unless it was already satisfied, the
  provided keys and permissions, with the delay that counts for the action, hold the declared
  permission.
\<close>

theorem check_authorization_sound:
  assumes "perms_ok (perm_index db)"
    and "check_authorization ctx db actions pkeys pperms delay allow sat = Some (Inr ())"
    and "act \<in> set actions" "d \<in> set (act_authorization act)"
  shows "\<exists>special del. check_native ctx db (effective_delay ctx delay) act = Some (Inr (special, del)) \<and>
    (special \<or> declared_suffices db act d) \<and>
    (d \<in> set sat \<or> permission_holds (make_auth_checker ctx db pkeys pperms del) d)"
  by (rule check_authorization_result [OF assms])

lemma example_transfer_passes:
  "check_authorization example_ctx example_db [example_transfer] [2] [] 0 False [] = Some (Inr ())"
  by code_simp

lemma example_transfer_ordinary:
  "check_native example_ctx example_db (effective_delay example_ctx 0) example_transfer = Some (Inr (False, 0))"
  by code_simp

theorem check_authorization_sound_witness:
  "perms_ok (perm_index example_db) \<and>
   check_authorization example_ctx example_db [example_transfer] [2] [] 0 False [] = Some (Inr ()) \<and>
   declared_suffices example_db example_transfer (permission_level 7 active_name) \<and>
   permission_holds (make_auth_checker example_ctx example_db [2] [] 0) (permission_level 7 active_name)"
  using example_perms_ok example_transfer_passes example_transfer_ordinary
    check_authorization_sound [OF example_perms_ok example_transfer_passes, of example_transfer "permission_level 7 active_name"]
  by (auto simp: example_transfer_def)

text \<open>
  C15: A native action on permissions is authorized only from above: the check accepts it only if it
  declares exactly one permission, of the account it acts on, and that permission is above the
  permission it changes or deletes, above the parent under which it creates one, above the permission
  its link required so far, or above the permission that authorized the delayed transaction it cancels.
\<close>

theorem native_action_from_above:
  assumes "perms_ok (perm_index db)" "check_native ctx db delay act = Some (Inr (True, del))"
  shows "\<exists>d. act_authorization act = [d] \<and> native_allowed ctx db act d"
  by (rule check_native_allowed [OF assms])

lemma example_update_passes: "check_native example_ctx example_db 0 example_update = Some (Inr (True, 0))"
  by code_simp

theorem native_action_from_above_witness:
  "check_native example_ctx example_db 0 example_update = Some (Inr (True, 0)) \<and>
   (\<exists>d. act_authorization example_update = [d] \<and> native_allowed example_ctx example_db example_update d)"
  using example_update_passes native_action_from_above [OF example_perms_ok example_update_passes] by blast

end
