(* ===== verification/Spec2Isabelle.thy ===== *)
theory Spec2Isabelle
  imports Database Chain_Config Asset Genesis Authorization
begin

text \<open>
  A verification development for the Potato Coin node, an EOSIO node written in C++. It models the
  part of the node that decides consensus and keeps its state: the transactional database, accounts
  with their permissions, resource accounting, block headers and the tree of blocks that are not yet
  irreversible. Paths below are relative to \<^verbatim>\<open>src/libraries/chain\<close> unless they begin with \<^verbatim>\<open>src\<close>.

  \<^bold>\<open>How the parts interact.\<close> All state lives in chainbase indices. A block is checked against the header
  state of its parent; if it extends a known block it becomes a block state in the fork database, which
  chooses the head. Applying a block opens a database session, checks the authorization of its
  transactions against the permissions in the database, bills accounts through the resource manager,
  and finally processes the usage of the block with the parameters of the chain configuration. Undoing
  a block undoes the session; a block that becomes irreversible is committed and becomes the root of
  the fork database.

  \<^bold>\<open>Conventions.\<close> Theory \<open>Chain_Prelude\<close> has the vocabulary: an exception is a value of type \<open>exn\<close>, code
  that may raise returns \<open>'a result\<close>, \<open>EOS_ASSERT\<close> and \<open>bindR\<close> are the macro and the sequencing, and code
  with a loop that might not end returns \<open>'a result option\<close>, where \<open>None\<close> is running forever. A thrown
  exception is the value of the whole operation and its state is dropped, as the enclosing session of
  the code drops it; rethrowing with more text keeps the cause. The fork database has no session, and
  what \<^verbatim>\<open>advance_root\<close> leaves behind when it throws after erasing the new root is not followed.
  \<open>undefined_behaviour\<close> stands for what C++ leaves undefined and \<open>process_abort\<close> for an abort. Unsigned
  integers are words of their width and wrap; signed 64-bit values that are only stored and compared
  are integers, with the casts and the overflow of a negation written out.
  Theory \<open>Ordered_Map\<close> has the sorted containers as association lists; the interface \<open>ordered_map\<close> lists
  the laws the components use, and its interpretation proves them.

  \<^bold>\<open>Parameters.\<close> Code outside the repository is an argument of the definitions: the SHA-256 hash,
  packing and key recovery of the fc library (records \<open>fc_env\<close>, \<open>fork_io\<close>, \<open>fc_lib\<close> and the function \<open>H\<close> of
  \<open>Merkle\<close>), public keys and signatures as types, and unpacking of action data (record \<open>auth_context\<close>).
  What the proofs rely on is stated as a hypothesis: reversing the bytes of a number twice gives the
  number, unpacking inverts packing (\<open>codec_ok\<close>), the text utilities do what they document (\<open>fc_ok\<close>). No
  theorem needs collision resistance. The witnesses instantiate the parameters with concrete functions
  (\<open>env_reference\<close>, \<open>env_unary\<close>, \<open>env_schedules\<close>, \<open>token_io\<close>, \<open>fc_reference\<close>).

  \<^bold>\<open>Theories and sources.\<close>
  \<^item> \<open>Merkle\<close>: \<^verbatim>\<open>merkle.cpp\<close>, \<^verbatim>\<open>incremental_merkle.hpp\<close>. The accumulator that block roots use computes the
    batch root of everything appended, for every number of leaves below \<open>2 ^ 64\<close>; the interface is the
    locale \<open>root_accumulator\<close>.
  \<^item> \<open>Chainbase\<close>: \<^verbatim>\<open>src/libraries/chainbase\<close>, one \<^verbatim>\<open>generic_index\<close> with its undo stack. Every sequence of
    operations is simulated by a store that copies itself when a session starts; when modifiers keep
    the unique keys, undo never aborts.
  \<^item> \<open>Database\<close>: sessions and the database over several indices, with the locale \<open>session_store\<close> for what
    a session relies on. Indices stay in step; a session that is neither pushed nor squashed restores
    the state.
  \<^item> \<open>Authority\<close>: \<^verbatim>\<open>authority.hpp\<close>, \<^verbatim>\<open>authority_checker.hpp\<close>. The recursive checker with its cache accepts
    only what the provided keys, permissions and delay justify (the inductive relation
    \<open>permission_holds\<close>), decides authorities without accounts exactly, and restores the marks of used
    keys on failure. Its recursion is bounded by the depth limit of the code, which is the measure of
    its termination proof.
  \<^item> \<open>Permissions\<close>, \<open>Authorization\<close>: \<^verbatim>\<open>authorization_manager.cpp\<close>, \<^verbatim>\<open>permission_object.hpp\<close>,
    \<^verbatim>\<open>permission_link_object.hpp\<close>. A transaction that passes declares only permissions that stand above the
    required ones (the inductive relation \<open>above\<close>) and that are satisfied; native actions on permissions
    are authorized from above; the check always ends over a well-formed hierarchy.
  \<^item> \<open>Resource_Limits\<close>, \<open>Resource_Averages\<close>: \<^verbatim>\<open>resource_limits.cpp\<close> and its headers. Totals are the sums of
    the limits after any sequence of operations; collapsing pending limits fails exactly when a total
    overflows on the way; RAM changes are exact or raise; averages do not wrap; the limits reported to
    an account are exact; shares of a window never exceed it.
  \<^item> \<open>Chain_Config\<close>: \<^verbatim>\<open>chain_config.cpp\<close> and the derivation of block parameters in \<^verbatim>\<open>controller.cpp\<close>. A valid
    configuration with a moderate network limit keeps blocks processable; validation also admits limits
    that stop the chain after one block.
  \<^item> \<open>Name\<close>, \<open>Asset\<close>: \<^verbatim>\<open>name.cpp\<close>, \<^verbatim>\<open>symbol.hpp\<close>, \<^verbatim>\<open>asset.cpp\<close>. Round trips between text and value, exact
    arithmetic, and what the parsers accept.
  \<^item> \<open>Producer_Schedule\<close>, \<open>Block_Header\<close>: schedules and signing authorities, block times, headers, ids and
    extensions.
  \<^item> \<open>Block_Header_State\<close>, \<open>Block_Consensus\<close>: \<^verbatim>\<open>block_header_state.cpp\<close>. Invariants along a chain of accepted
    headers, the quorum behind the irreversible block and when it cannot move back, signatures, and the
    agreement of producer and validator.
  \<^item> \<open>Fork_Database\<close>, \<open>Fork_Branches\<close>, \<open>Fork_File\<close>, \<open>Fork_Chain\<close>: \<^verbatim>\<open>block_state.cpp\<close>, \<^verbatim>\<open>fork_database.cpp\<close>. Every
    reachable database (the inductive predicate \<open>fork_reach\<close>) is a tree with the best validated block as
    head; the loops end and do exactly what they promise; writing and reading the file restores the
    tree when irreversible numbers do not decrease along branches, and fails otherwise; a produced
    block is accepted by every validator.
  \<^item> \<open>Genesis\<close>: \<^verbatim>\<open>initialize_blockchain_state\<close> of \<^verbatim>\<open>controller.cpp\<close>. Every chain of accepted headers from the
    genesis state satisfies the invariant of the header states from block 2 on; one such chain, with
    two changes of schedule, moves the last irreversible block back, and a fork database that holds
    its last blocks cannot be reopened.

  \<^bold>\<open>Bounds.\<close> Where the code counts in fixed width, the theorems state the range they hold in: headers
  below block \<open>2 ^ 32\<close>, fork databases of fewer than \<open>2 ^ 32\<close> states (the count in the file is 32 bits
  wide), at most \<open>2 ^ 16\<close> entries per authority (the code rejects more), network limits below \<open>2 ^ 37\<close>
  bytes per block. Ids and revisions of chainbase are unbounded integers: the code counts them up in
  \<^verbatim>\<open>int64_t\<close> from zero or from the number given to \<^verbatim>\<open>set_revision\<close>, and the model is that of a store which
  does not come near \<open>2 ^ 63\<close>.
  There is no fuel: loops are structural, have a termination proof, or are partial functions that are
  proved to end.

  \<^bold>\<open>Not modelled.\<close> The controller beyond the steps named above, transaction execution, the WebAssembly
  interface and its engines: their state is that of contract code run by machine code generators under
  wall-clock deadlines. The block log, snapshots and the mapped file of the database: input and output.
  Transactions, ABI conversion and protocol objects: packing by fc, or plain data whose fields are
  parameters here. The plugins and programs: networking, timers, HTTP, databases and command lines.
  \<^verbatim>\<open>src/libraries/wasm-jit\<close> and \<^verbatim>\<open>src/libraries/builtins\<close> are imported third-party code.
\<close>

end
